(* ===== verification/Xv6_Prelude.thy ===== *)
theory Xv6_Prelude
  imports Main "HOL-Library.Word"
begin

unbundle bit_operations_syntax

text \<open>
  The vocabulary the components share.

  \<^item> The C integer types of \<^verbatim>\<open>kernel/types.h\<close> as words.  A C \<^verbatim>\<open>int\<close>
    whose overflow the kernel never relies on is an \<^typ>\<open>int\<close>.
  \<^item> The outcome of running kernel code: it returns, it panics, it gives the CPU
    up inside \<^verbatim>\<open>sleep\<close>, or it never comes back; and the state monad over these
    outcomes in which every kernel function is written.
  \<^item> Total-correctness triples and invariants for that monad.
  \<^item> Little-endian access to integers stored in byte arrays.
\<close>

section \<open>Machine integers\<close>

type_synonym u8 = "8 word"
type_synonym u16 = "16 word"
type_synonym u32 = "32 word"
type_synonym u64 = "64 word"

section \<open>Outcomes of kernel code\<close>

text \<open>
  \<^term>\<open>Ok a s\<close>: the code returned \<open>a\<close>, the state is now \<open>s\<close>.
  \<open>Panic m\<close>: \<^verbatim>\<open>panic(m)\<close> was called.  \<open>Sleep s\<close>: the thread is
  in \<^verbatim>\<open>sleep()\<close> and has given up the CPU in state \<open>s\<close>.  \<open>Hang\<close>: the
  code runs forever.
\<close>

datatype ('s, 'a) out = Ok 'a 's | Panic string | Sleep 's | Hang

type_synonym ('s, 'a) op = "'s \<Rightarrow> ('s, 'a) out"

definition kret :: "'a \<Rightarrow> ('s, 'a) op" where
  "kret a = (\<lambda>s. Ok a s)"

definition kbind :: "('s, 'a) op \<Rightarrow> ('a \<Rightarrow> ('s, 'b) op) \<Rightarrow> ('s, 'b) op" where
  "kbind m f = (\<lambda>s. case m s of Ok a s' \<Rightarrow> f a s' | Panic e \<Rightarrow> Panic e
                     | Sleep s' \<Rightarrow> Sleep s' | Hang \<Rightarrow> Hang)"

definition kthen :: "('s, 'a) op \<Rightarrow> ('s, 'b) op \<Rightarrow> ('s, 'b) op" where
  "kthen m n = kbind m (\<lambda>_. n)"

definition kget :: "('s \<Rightarrow> 'a) \<Rightarrow> ('s, 'a) op" where
  "kget f = (\<lambda>s. Ok (f s) s)"

definition kmod :: "('s \<Rightarrow> 's) \<Rightarrow> ('s, unit) op" where
  "kmod f = (\<lambda>s. Ok () (f s))"

definition kpanic :: "string \<Rightarrow> ('s, 'a) op" where
  "kpanic e = (\<lambda>s. Panic e)"

definition kwhen :: "bool \<Rightarrow> ('s, unit) op \<Rightarrow> ('s, unit) op" where
  "kwhen b m = (if b then m else kret ())"

named_theorems run_simps "evaluation of one step of kernel code"

lemma kret_Ok [simp]: "kret a = Ok a"
  by (simp add: kret_def)

lemma run_kget [simp, run_simps]: "kget f s = Ok (f s) s"
  by (simp add: kget_def)

lemma run_kmod [simp, run_simps]: "kmod f s = Ok () (f s)"
  by (simp add: kmod_def)

lemma run_kpanic [simp, run_simps]: "kpanic e s = Panic e"
  by (simp add: kpanic_def)

lemma run_kwhen [simp, run_simps]: "kwhen b m s = (if b then m s else Ok () s)"
  by (simp add: kwhen_def)

lemma run_kthen [run_simps]: "kthen m n s = kbind m (\<lambda>_. n) s"
  by (simp add: kthen_def)

lemma run_kbind [run_simps]:
  "kbind m f s = (case m s of Ok a s' \<Rightarrow> f a s' | Panic e \<Rightarrow> Panic e
                   | Sleep s' \<Rightarrow> Sleep s' | Hang \<Rightarrow> Hang)"
  by (simp add: kbind_def)

lemma kbind_Ok: "m s = Ok a s' \<Longrightarrow> kbind m f s = f a s'"
  by (simp add: kbind_def)

lemma kthen_Ok: "m s = Ok a s' \<Longrightarrow> kthen m n s = n s'"
  by (simp add: kthen_def kbind_def)

lemma kbind_kret [simp]: "kbind (Ok a) f = f a"
  by (simp add: kbind_def)

lemma kbind_assoc: "kbind (kbind m f) g = kbind m (\<lambda>a. kbind (f a) g)"
  by (auto simp: kbind_def split: out.splits)

lemma kbind_eq_Ok:
  "kbind m f s = Ok b t \<longleftrightarrow> (\<exists>a s'. m s = Ok a s' \<and> f a s' = Ok b t)"
  by (auto simp: kbind_def split: out.splits)

lemma kthen_eq_Ok:
  "kthen m n s = Ok b t \<longleftrightarrow> (\<exists>a s'. m s = Ok a s' \<and> n s' = Ok b t)"
  by (simp add: kthen_def kbind_eq_Ok)

section \<open>Triples and invariants\<close>

text \<open>
  \<^term>\<open>runs P m Q\<close>: from every state with \<open>P\<close> the code returns (no panic, no
  sleep, no endless loop) in a state with \<open>Q\<close>.  \<^term>\<open>keeps I m\<close>: whenever the
  code returns, \<open>I\<close> still holds.
\<close>

definition runs :: "('s \<Rightarrow> bool) \<Rightarrow> ('s, 'a) op \<Rightarrow> ('a \<Rightarrow> 's \<Rightarrow> bool) \<Rightarrow> bool" where
  "runs P m Q \<longleftrightarrow> (\<forall>s. P s \<longrightarrow> (\<exists>a s'. m s = Ok a s' \<and> Q a s'))"

definition keeps :: "('s \<Rightarrow> bool) \<Rightarrow> ('s, 'a) op \<Rightarrow> bool" where
  "keeps I m \<longleftrightarrow> (\<forall>s a s'. I s \<longrightarrow> m s = Ok a s' \<longrightarrow> I s')"

lemma runsI: "(\<And>s. P s \<Longrightarrow> \<exists>a s'. m s = Ok a s' \<and> Q a s') \<Longrightarrow> runs P m Q"
  by (simp add: runs_def)

lemma runsE:
  assumes "runs P m Q" and "P s"
  obtains a s' where "m s = Ok a s'" and "Q a s'"
  using assms by (auto simp: runs_def)

lemma runs_bind:
  assumes "runs P m R" and "\<And>a. runs (R a) (f a) Q"
  shows "runs P (kbind m f) Q"
proof (rule runsI)
  fix s
  assume "P s"
  with assms(1) obtain a s' where m: "m s = Ok a s'" and "R a s'" by (rule runsE)
  from assms(2) this(2) obtain b t where "f a s' = Ok b t" and "Q b t" by (rule runsE)
  with m show "\<exists>b t. kbind m f s = Ok b t \<and> Q b t" by (simp add: kbind_Ok)
qed

named_theorems keeps_intros "invariant rules for the kernel monad"

lemma keepsI: "(\<And>s a s'. I s \<Longrightarrow> m s = Ok a s' \<Longrightarrow> I s') \<Longrightarrow> keeps I m"
  by (auto simp: keeps_def)

lemma keepsD: "keeps I m \<Longrightarrow> I s \<Longrightarrow> m s = Ok a s' \<Longrightarrow> I s'"
  by (auto simp: keeps_def)

lemma keeps_kret [keeps_intros]: "keeps I (kret a)"
  by (auto intro: keepsI)

lemma keeps_Ok [keeps_intros]: "keeps I (Ok a)"
  by (auto intro: keepsI)

lemma keeps_kget [keeps_intros]: "keeps I (kget f)"
  by (auto intro: keepsI)

lemma keeps_kpanic [keeps_intros]: "keeps I (kpanic e)"
  by (auto intro: keepsI)

lemma keeps_kbind [keeps_intros]:
  "keeps I m \<Longrightarrow> (\<And>a. keeps I (f a)) \<Longrightarrow> keeps I (kbind m f)"
  by (rule keepsI) (auto simp: kbind_eq_Ok dest: keepsD)

lemma keeps_kthen [keeps_intros]: "keeps I m \<Longrightarrow> keeps I n \<Longrightarrow> keeps I (kthen m n)"
  by (simp add: kthen_def keeps_kbind)

lemma keeps_if [keeps_intros]:
  "(b \<Longrightarrow> keeps I m) \<Longrightarrow> (\<not> b \<Longrightarrow> keeps I n) \<Longrightarrow> keeps I (if b then m else n)"
  by simp

lemma keeps_kwhen [keeps_intros]: "(b \<Longrightarrow> keeps I m) \<Longrightarrow> keeps I (kwhen b m)"
  by (simp add: kwhen_def keeps_Ok)

text \<open>\<open>safe e m\<close>: \<open>m\<close> never calls \<^verbatim>\<open>panic(e)\<close>, whatever the state.\<close>

definition safe :: "string \<Rightarrow> ('s, 'a) op \<Rightarrow> bool" where
  "safe e m \<longleftrightarrow> (\<forall>s. m s \<noteq> Panic e)"

named_theorems safe_intros "operations that do not panic with a given message"

lemma safeD: "safe e m \<Longrightarrow> m s \<noteq> Panic e"
  by (simp add: safe_def)

lemma safe_kbind [safe_intros]: "safe e m \<Longrightarrow> (\<And>a. safe e (f a)) \<Longrightarrow> safe e (kbind m f)"
  by (auto simp: safe_def kbind_def split: out.splits)

lemma safe_kthen [safe_intros]: "safe e m \<Longrightarrow> safe e n \<Longrightarrow> safe e (kthen m n)"
  by (simp add: kthen_def safe_kbind)

lemma safe_basic [safe_intros]: "safe e (kret a)" "safe e (Ok a)" "safe e (kget f)" "safe e (kmod g)"
  by (simp_all add: safe_def)

lemma safe_kpanic [safe_intros]: "e \<noteq> e' \<Longrightarrow> safe e (kpanic e')"
  by (simp add: safe_def)

lemma safe_if [safe_intros]: "(b \<Longrightarrow> safe e m) \<Longrightarrow> (\<not> b \<Longrightarrow> safe e n) \<Longrightarrow> safe e (if b then m else n)"
  by simp

lemma safe_kwhen [safe_intros]: "(b \<Longrightarrow> safe e m) \<Longrightarrow> safe e (kwhen b m)"
  by (simp add: kwhen_def safe_basic)

section \<open>Lists\<close>

lemma nth_append_left [simp]: "i < length xs \<Longrightarrow> (xs @ ys) ! i = xs ! i"
  by (simp add: nth_append)

lemma list_update_self_nth [simp]: "i < length xs \<Longrightarrow> xs[i := v] ! i = v"
  by simp

lemma map_nth_upt: "length xs = n \<Longrightarrow> map (\<lambda>i. xs ! i) [0..<n] = xs"
  by (auto intro: nth_equalityI)

section \<open>Integers in byte arrays\<close>

text \<open>RISC-V is little-endian: byte \<open>i\<close> of an integer holds its bits \<open>8i\<close> to \<open>8i+7\<close>.\<close>

definition bytes_of_word :: "nat \<Rightarrow> 'a::len word \<Rightarrow> u8 list" where
  "bytes_of_word n w = map (\<lambda>i. ucast (drop_bit (8 * i) w)) [0..<n]"

primrec word_of_bytes :: "u8 list \<Rightarrow> 'a::len word" where
  "word_of_bytes [] = 0"
| "word_of_bytes (b # bs) = ucast b OR push_bit 8 (word_of_bytes bs)"

lemma length_bytes_of_word [simp]: "length (bytes_of_word n w) = n"
  by (simp add: bytes_of_word_def)

lemma nth_bytes_of_word [simp]: "i < n \<Longrightarrow> bytes_of_word n w ! i = ucast (drop_bit (8 * i) w)"
  by (simp add: bytes_of_word_def)

lemma bit_word_of_bytes:
  "bit (word_of_bytes bs :: 'a::len word) k \<longleftrightarrow>
     k < LENGTH('a) \<and> k div 8 < length bs \<and> bit (bs ! (k div 8)) (k mod 8)"
proof (induction bs arbitrary: k)
  case Nil
  then show ?case by simp
next
  case (Cons b bs)
  show ?case
  proof (cases "k < 8")
    case True
    then show ?thesis
      by (auto simp: bit_or_iff bit_push_bit_iff bit_ucast_iff dest: bit_imp_le_length)
  next
    case False
    then obtain j where j: "k = 8 + j" by (metis add.commute le_Suc_ex not_less)
    have nb: "\<not> bit b k" using False bit_imp_le_length [of b k] by auto
    have "(8 + j) div 8 = Suc (j div 8)" by simp
    then show ?thesis
      using Cons [of j] nb by (auto simp: j bit_or_iff bit_push_bit_iff bit_ucast_iff)
  qed
qed

lemma word_of_bytes_of_word:
  assumes "LENGTH('a) \<le> 8 * n"
  shows "word_of_bytes (bytes_of_word n w) = (w :: 'a::len word)"
proof (rule bit_word_eqI)
  fix k
  assume k: "k < LENGTH('a)"
  then have "k div 8 < n" using assms by simp
  moreover have "8 * (k div 8) + k mod 8 = k" by simp
  ultimately show "bit (word_of_bytes (bytes_of_word n w) :: 'a word) k = bit w k"
    using k by (simp add: bit_word_of_bytes bit_ucast_iff bit_drop_bit_eq)
qed

lemma bytes_of_word_of_bytes:
  assumes "length bs = n" and "8 * n \<le> LENGTH('a)"
  shows "bytes_of_word n (word_of_bytes bs :: 'a::len word) = bs"
proof (rule nth_equalityI)
  show "length (bytes_of_word n (word_of_bytes bs :: 'a word)) = length bs"
    using assms by simp
  fix i
  assume "i < length (bytes_of_word n (word_of_bytes bs :: 'a word))"
  then have i: "i < n" by simp
  show "bytes_of_word n (word_of_bytes bs :: 'a word) ! i = bs ! i"
  proof (rule bit_word_eqI)
    fix k
    assume "k < LENGTH(8)"
    then have k: "k < 8" by simp
    have "8 * i + k < 8 * n" using i k by simp
    then have "8 * i + k < LENGTH('a)" using assms(2) by simp
    then show "bit (bytes_of_word n (word_of_bytes bs :: 'a word) ! i) k = bit (bs ! i) k"
      using i k assms(1) by (simp add: bit_ucast_iff bit_drop_bit_eq bit_word_of_bytes)
  qed
qed

text \<open>Reading and writing an \<open>n\<close>-byte integer at an offset of a byte array.\<close>

definition get_le :: "nat \<Rightarrow> u8 list \<Rightarrow> nat \<Rightarrow> 'a::len word" where
  "get_le n bs off = word_of_bytes (take n (drop off bs))"

definition put_bytes :: "u8 list \<Rightarrow> nat \<Rightarrow> u8 list \<Rightarrow> u8 list" where
  "put_bytes bs off xs = take off bs @ xs @ drop (off + length xs) bs"

definition put_le :: "nat \<Rightarrow> u8 list \<Rightarrow> nat \<Rightarrow> 'a::len word \<Rightarrow> u8 list" where
  "put_le n bs off w = put_bytes bs off (bytes_of_word n w)"

lemma length_put_bytes [simp]:
  "off + length xs \<le> length bs \<Longrightarrow> length (put_bytes bs off xs) = length bs"
  by (simp add: put_bytes_def)

lemma nth_put_bytes:
  assumes "off + length xs \<le> length bs" and "i < length bs"
  shows "put_bytes bs off xs ! i =
    (if off \<le> i \<and> i < off + length xs then xs ! (i - off) else bs ! i)"
  using assms by (auto simp: put_bytes_def nth_append min_def)

lemma take_drop_put_bytes_same [simp]:
  "off + length xs \<le> length bs \<Longrightarrow> take (length xs) (drop off (put_bytes bs off xs)) = xs"
  by (simp add: put_bytes_def)

lemma take_drop_put_bytes_other:
  assumes "off + length xs \<le> length bs" and "a + n \<le> length bs"
    and "a + n \<le> off \<or> off + length xs \<le> a"
  shows "take n (drop a (put_bytes bs off xs)) = take n (drop a bs)"
proof (rule nth_equalityI)
  show "length (take n (drop a (put_bytes bs off xs))) = length (take n (drop a bs))"
    using assms by simp
  fix i
  assume "i < length (take n (drop a (put_bytes bs off xs)))"
  then have "i < n" "a + i < length bs" using assms by auto
  then show "take n (drop a (put_bytes bs off xs)) ! i = take n (drop a bs) ! i"
    using assms by (auto simp: nth_put_bytes)
qed

lemma length_put_le [simp]: "off + n \<le> length bs \<Longrightarrow> length (put_le n bs off w) = length bs"
  by (simp add: put_le_def)

lemma get_put_le_same:
  assumes "off + n \<le> length bs" and "LENGTH('a) \<le> 8 * n"
  shows "get_le n (put_le n bs off w) off = (w :: 'a::len word)"
  using take_drop_put_bytes_same [of off "bytes_of_word n w" bs] assms
  by (simp add: get_le_def put_le_def word_of_bytes_of_word)

lemma get_put_le_other:
  assumes "off + n \<le> length bs" and "a + k \<le> length bs" and "a + k \<le> off \<or> off + n \<le> a"
  shows "get_le k (put_le n bs off w) a = get_le k bs a"
  using assms by (simp add: get_le_def put_le_def take_drop_put_bytes_other)

end
