(* ===== verification/Kstring.thy ===== *)
theory Kstring
  imports Kparam
begin

text \<open>
  \<^verbatim>\<open>kernel/string.c\<close> and its user-space counterpart in
  \<^verbatim>\<open>user/ulib.c\<close>, on a byte memory \<^typ>\<open>u64 \<Rightarrow> u8\<close>.  Every loop
  is a recursion on the number of iterations left and moves its pointers as the C
  code does; pointer arithmetic wraps at 64 bits.  The lemmas give each routine its
  closed form: \<^verbatim>\<open>memset\<close> fills, both versions of \<^verbatim>\<open>memmove\<close> copy
  also when the regions overlap, the bounded string routines stay in their buffer.
\<close>

type_synonym mem = "u64 \<Rightarrow> u8"

section \<open>Definitions\<close>

primrec memset_loop :: "nat \<Rightarrow> nat \<Rightarrow> u64 \<Rightarrow> u8 \<Rightarrow> mem \<Rightarrow> mem" where
  "memset_loop 0 i cdst c m = m"
| "memset_loop (Suc k) i cdst c m = memset_loop k (Suc i) cdst c (m(cdst + of_nat i := c))"

definition memset :: "u64 \<Rightarrow> u32 \<Rightarrow> u32 \<Rightarrow> mem \<Rightarrow> mem" where
  "memset dst c n m = memset_loop (unat n) 0 dst (ucast c) m"

primrec memcmp :: "nat \<Rightarrow> u64 \<Rightarrow> u64 \<Rightarrow> mem \<Rightarrow> int" where
  "memcmp 0 s1 s2 m = 0"
| "memcmp (Suc n) s1 s2 m =
     (if m s1 \<noteq> m s2 then int (unat (m s1)) - int (unat (m s2)) else memcmp n (s1 + 1) (s2 + 1) m)"

primrec copy_fwd :: "nat \<Rightarrow> u64 \<Rightarrow> u64 \<Rightarrow> mem \<Rightarrow> mem" where
  "copy_fwd 0 d s m = m"
| "copy_fwd (Suc n) d s m = copy_fwd n (d + 1) (s + 1) (m(d := m s))"

primrec copy_bwd :: "nat \<Rightarrow> u64 \<Rightarrow> u64 \<Rightarrow> mem \<Rightarrow> mem" where
  "copy_bwd 0 d s m = m"
| "copy_bwd (Suc n) d s m = copy_bwd n (d - 1) (s - 1) (m(d - 1 := m (s - 1)))"

definition memmove :: "u64 \<Rightarrow> u64 \<Rightarrow> u32 \<Rightarrow> mem \<Rightarrow> mem" where
  "memmove dst src n m =
     (if n = 0 then m
      else if src < dst \<and> src + ucast n > dst
      then copy_bwd (unat n) (dst + ucast n) (src + ucast n) m
      else copy_fwd (unat n) dst src m)"

text \<open>The user library decides the direction by the order of the pointers alone.\<close>

definition ulib_memmove :: "u64 \<Rightarrow> u64 \<Rightarrow> int \<Rightarrow> mem \<Rightarrow> mem" where
  "ulib_memmove vdst vsrc n m =
     (if vsrc > vdst then copy_fwd (nat n) vdst vsrc m
      else copy_bwd (nat n) (vdst + of_int n) (vsrc + of_int n) m)"

primrec strncmp :: "nat \<Rightarrow> u64 \<Rightarrow> u64 \<Rightarrow> mem \<Rightarrow> int" where
  "strncmp 0 p q m = 0"
| "strncmp (Suc n) p q m =
     (if m p \<noteq> 0 \<and> m p = m q then strncmp n (p + 1) (q + 1) m
      else int (unat (m p)) - int (unat (m q)))"

primrec strncpy_pad :: "nat \<Rightarrow> u64 \<Rightarrow> mem \<Rightarrow> mem" where
  "strncpy_pad 0 s m = m"
| "strncpy_pad (Suc n) s m = strncpy_pad n (s + 1) (m(s := 0))"

primrec strncpy_copy :: "nat \<Rightarrow> u64 \<Rightarrow> u64 \<Rightarrow> mem \<Rightarrow> mem" where
  "strncpy_copy 0 s t m = m"
| "strncpy_copy (Suc n) s t m =
     (let m' = m(s := m t)
      in if m t \<noteq> 0 then strncpy_copy n (s + 1) (t + 1) m' else strncpy_pad n (s + 1) m')"

definition strncpy :: "u64 \<Rightarrow> u64 \<Rightarrow> int \<Rightarrow> mem \<Rightarrow> mem" where
  "strncpy s t n m = strncpy_copy (nat n) s t m"

primrec safestrcpy_loop :: "nat \<Rightarrow> u64 \<Rightarrow> u64 \<Rightarrow> mem \<Rightarrow> mem" where
  "safestrcpy_loop 0 s t m = m(s := 0)"
| "safestrcpy_loop (Suc n) s t m =
     (let m' = m(s := m t)
      in if m t \<noteq> 0 then safestrcpy_loop n (s + 1) (t + 1) m' else m'(s + 1 := 0))"

definition safestrcpy :: "u64 \<Rightarrow> u64 \<Rightarrow> int \<Rightarrow> mem \<Rightarrow> mem" where
  "safestrcpy s t n m = (if n \<le> 0 then m else safestrcpy_loop (nat (n - 1)) s t m)"

text \<open>\<^verbatim>\<open>strlen\<close> runs until it meets a NUL; \<^const>\<open>None\<close> if it never does.\<close>

partial_function (option) strlen_from :: "u64 \<Rightarrow> nat \<Rightarrow> mem \<Rightarrow> nat option" where
  "strlen_from s n m = (if m (s + of_nat n) = 0 then Some n else strlen_from s (Suc n) m)"

definition strlen :: "u64 \<Rightarrow> mem \<Rightarrow> nat option" where
  "strlen s m = strlen_from s 0 m"

section \<open>Filling and copying\<close>

lemma unat_diff_suc:
  fixes a d :: u64
  assumes "a \<noteq> d"
  shows "unat (a - (d + 1)) = unat (a - d) - 1"
proof -
  have "a - d \<noteq> 0" using assms by simp
  then have "unat (a - d - 1) = unat (a - d) - 1"
    by (simp add: unat_minus_one)
  then show ?thesis by (simp add: diff_diff_eq)
qed

lemma memset_loop_eq:
  assumes "i + k < 2 ^ 64"
  shows "memset_loop k i d c m a =
    (if i \<le> unat (a - d) \<and> unat (a - d) < i + k then c else m a)"
  using assms
proof (induction k arbitrary: i m)
  case 0
  then show ?case by auto
next
  case (Suc k)
  have "a = d + of_nat i \<longleftrightarrow> unat (a - d) = i"
  proof
    assume "a = d + of_nat i"
    then have "a - d = of_nat i" by simp
    then show "unat (a - d) = i"
      using Suc.prems by (simp add: unsigned_of_nat take_bit_nat_eq_self)
  next
    assume "unat (a - d) = i"
    then have "a - d = of_nat i" by (metis of_nat_unat ucast_id)
    then show "a = d + of_nat i" by (metis add.commute diff_add_cancel)
  qed
  moreover have "memset_loop (Suc k) i d c m a =
      (if Suc i \<le> unat (a - d) \<and> unat (a - d) < Suc i + k then c else (m(d + of_nat i := c)) a)"
    using Suc.IH [of "Suc i"] Suc.prems by simp
  ultimately show ?case by auto
qed

lemma memset_eq: "memset d c n m a = (if unat (a - d) < unat n then ucast c else m a)"
proof -
  have "unat n < 2 ^ 32" using unsigned_less [of n, where ?'a = nat] by simp
  then show ?thesis by (simp add: memset_def memset_loop_eq)
qed

lemma copy_fwd_eq:
  assumes "unat (d - s) = 0 \<or> n \<le> unat (d - s)" and "n < 2 ^ 64"
  shows "copy_fwd n d s m a = (if unat (a - d) < n then m (s + (a - d)) else m a)"
  using assms
proof (induction n arbitrary: d s m)
  case 0
  then show ?case by simp
next
  case (Suc n)
  have ih: "copy_fwd n (d + 1) (s + 1) (m(d := m s)) a =
      (if unat (a - (d + 1)) < n then (m(d := m s)) (s + 1 + (a - (d + 1))) else (m(d := m s)) a)"
    by (rule Suc.IH) (use Suc.prems in auto)
  show ?case
  proof (cases "a = d")
    case True
    have "unat (a - (d + 1)) = 2 ^ 64 - 1"
      by (simp add: True unsigned_minus_1_eq_mask mask_eq_exp_minus_1)
    then show ?thesis using ih True Suc.prems by simp
  next
    case False
    then have pos: "0 < unat (a - d)" by (simp add: unat_gt_0)
    have src: "s + 1 + (a - (d + 1)) = s + (a - d)" by simp
    have "s + (a - d) \<noteq> d" if "unat (a - d) < Suc n"
    proof
      assume "s + (a - d) = d"
      then have "a - d = d - s" by (metis add_diff_cancel_left')
      then show False using that pos Suc.prems(1) by auto
    qed
    then show ?thesis
      using ih False pos by (simp add: unat_diff_suc src) (auto simp: less_Suc_eq_0_disj)
  qed
qed

lemma unat_of_nat_add_diff:
  fixes d :: u64
  assumes "n < 2 ^ 64"
  shows "unat (d + of_nat n - d) = n"
  using assms by (simp add: unsigned_of_nat take_bit_nat_eq_self)

lemma copy_bwd_eq:
  assumes "unat (s - d) = 0 \<or> n \<le> unat (s - d)" and "n < 2 ^ 64"
  shows "copy_bwd n (d + of_nat n) (s + of_nat n) m a =
    (if unat (a - d) < n then m (s + (a - d)) else m a)"
  using assms
proof (induction n arbitrary: m)
  case 0
  then show ?case by simp
next
  case (Suc n)
  let ?m = "m(d + of_nat n := m (s + of_nat n))"
  have ih: "copy_bwd n (d + of_nat n) (s + of_nat n) ?m a =
      (if unat (a - d) < n then ?m (s + (a - d)) else ?m a)"
    by (rule Suc.IH) (use Suc.prems in auto)
  have step: "copy_bwd (Suc n) (d + of_nat (Suc n)) (s + of_nat (Suc n)) m a =
      copy_bwd n (d + of_nat n) (s + of_nat n) ?m a"
    by simp
  show ?case
  proof (cases "a = d + of_nat n")
    case True
    then have "unat (a - d) = n" using Suc.prems unat_of_nat_add_diff [of n d] by simp
    then show ?thesis using ih step True by simp
  next
    case False
    then have ne: "unat (a - d) \<noteq> n"
      by (metis add.commute diff_add_cancel of_nat_unat ucast_id)
    have "s + (a - d) \<noteq> d + of_nat n" if lt: "unat (a - d) < n"
    proof
      assume "s + (a - d) = d + of_nat n"
      then have "s - d = of_nat n - (a - d)" by (simp add: algebra_simps)
      also have "a - d = of_nat (unat (a - d))" by simp
      finally have "s - d = of_nat (n - unat (a - d))" using lt by simp
      then have "unat (s - d) = n - unat (a - d)"
        using Suc.prems(2) by (simp add: unsigned_of_nat take_bit_nat_eq_self)
      then show False using lt Suc.prems(1) by auto
    qed
    then show ?thesis using ih step ne False by auto
  qed
qed


text \<open>The closed form both versions of \<^verbatim>\<open>memmove\<close> compute.\<close>

definition moved :: "u64 \<Rightarrow> u64 \<Rightarrow> nat \<Rightarrow> mem \<Rightarrow> mem" where
  "moved dst src n m = (\<lambda>a. if unat (a - dst) < n then m (src + (a - dst)) else m a)"

lemma unat_diff_le: "(x :: u64) \<le> y \<Longrightarrow> unat (y - x) = unat y - unat x"
  by (simp add: unat_sub_if' word_le_nat_alt)

lemma unat_diff_less: "(y :: u64) < x \<Longrightarrow> unat (y - x) = 2 ^ 64 + unat y - unat x"
  by (simp add: unat_sub_if' word_less_nat_alt)

lemma ucast_of_nat_unat: "(ucast (n :: u32) :: u64) = of_nat (unat n)"
  by simp

lemma memmove_moved:
  assumes "unat src + unat n < 2 ^ 64"
  shows "memmove dst src n m = moved dst src (unat n) m"
proof -
  have n32: "unat n < 2 ^ 32" using unsigned_less [of n, where ?'a = nat] by simp
  have "unat (src + ucast n) = unat src + unat n"
    using assms n32 by (simp add: unat_word_ariths unsigned_ucast_eq take_bit_nat_eq_self)
  then have gt: "src + ucast n > dst \<longleftrightarrow> unat dst < unat src + unat n"
    by (simp add: word_less_nat_alt)
  show ?thesis
  proof (cases "src < dst \<and> src + ucast n > dst")
    case True
    then have "unat (src - dst) = 2 ^ 64 + unat src - unat dst"
      by (intro unat_diff_less) simp
    moreover have "unat dst < unat src + unat n" using True gt by simp
    ultimately have "unat n \<le> unat (src - dst)" using n32 by simp
    with n32 have "copy_bwd (unat n) (dst + of_nat (unat n)) (src + of_nat (unat n)) m =
        moved dst src (unat n) m"
      by (intro ext) (simp add: copy_bwd_eq moved_def del: of_nat_unat)
    then show ?thesis using True by (simp add: memmove_def moved_def)
  next
    case False
    have "unat (dst - src) = 0 \<or> unat n \<le> unat (dst - src)"
    proof (cases "dst < src")
      case True
      then show ?thesis using assms unsigned_less [of dst, where ?'a = nat]
        by (simp add: unat_diff_less)
    next
      case False
      then have "unat (dst - src) = unat dst - unat src" by (simp add: unat_diff_le)
      with \<open>\<not> (src < dst \<and> src + ucast n > dst)\<close> False gt show ?thesis
        by (auto simp: word_less_nat_alt not_less)
    qed
    with n32 have "copy_fwd (unat n) dst src m = moved dst src (unat n) m"
      by (intro ext) (simp add: copy_fwd_eq moved_def)
    then show ?thesis using False by (auto simp: memmove_def moved_def)
  qed
qed

lemma ulib_memmove_moved:
  assumes "0 \<le> n" and "n < 2 ^ 31" and "unat vsrc + nat n < 2 ^ 64" and "unat vdst + nat n < 2 ^ 64"
  shows "ulib_memmove vdst vsrc n m = moved vdst vsrc (nat n) m"
proof (cases "vsrc > vdst")
  case True
  then have "nat n \<le> unat (vdst - vsrc)" using assms by (simp add: unat_diff_less)
  then have "copy_fwd (nat n) vdst vsrc m = moved vdst vsrc (nat n) m"
    using assms by (intro ext) (simp add: copy_fwd_eq moved_def)
  then show ?thesis using True by (simp add: ulib_memmove_def)
next
  case False
  have "unat (vsrc - vdst) = 0 \<or> nat n \<le> unat (vsrc - vdst)"
    using False assms by (cases "vsrc = vdst") (auto simp: unat_diff_less)
  then have "copy_bwd (nat n) (vdst + of_nat (nat n)) (vsrc + of_nat (nat n)) m =
      moved vdst vsrc (nat n) m"
    using assms by (intro ext) (simp add: copy_bwd_eq moved_def del: of_nat_nat)
  then show ?thesis using False assms by (simp add: ulib_memmove_def)
qed

section \<open>Strings\<close>

text \<open>The C string at \<open>p\<close>, cut at \<open>n\<close> bytes.\<close>

primrec cstr :: "nat \<Rightarrow> u64 \<Rightarrow> mem \<Rightarrow> u8 list" where
  "cstr 0 p m = []"
| "cstr (Suc n) p m = (if m p = 0 then [] else m p # cstr n (p + 1) m)"

lemma cstr_cong: "(\<And>i. i < n \<Longrightarrow> m (p + of_nat i) = m' (p + of_nat i)) \<Longrightarrow> cstr n p m = cstr n p m'"
proof (induction n arbitrary: p)
  case 0
  then show ?case by simp
next
  case (Suc n)
  have "m p = m' p" using Suc.prems [of 0] by simp
  moreover have "cstr n (p + 1) m = cstr n (p + 1) m'"
    by (rule Suc.IH) (use Suc.prems [of "Suc i" for i] in \<open>simp add: add.assoc\<close>)
  ultimately show ?case by simp
qed

lemma length_cstr: "length (cstr n p m) \<le> n"
  by (induction n arbitrary: p) auto

lemma strncmp_eq_0: "strncmp n p q m = 0 \<longleftrightarrow> cstr n p m = cstr n q m"
proof (induction n arbitrary: p q)
  case 0
  then show ?case by simp
next
  case (Suc n)
  then show ?case by (auto simp: word_uint_eq_iff)
qed

text \<open>\<^verbatim>\<open>safestrcpy\<close> writes inside its buffer only and always leaves a terminated string.\<close>

lemma safestrcpy_loop_frame:
  assumes "n < unat (a - s)" and "n < 2 ^ 64 - 1"
  shows "safestrcpy_loop n s t m a = m a"
  using assms
proof (induction n arbitrary: s t m)
  case 0
  then show ?case by auto
next
  case (Suc n)
  then have ne: "a \<noteq> s" by auto
  then have "n < unat (a - (s + 1))" using Suc.prems by (simp add: unat_diff_suc)
  then have "safestrcpy_loop n (s + 1) (t + 1) (m(s := m t)) a = (m(s := m t)) a"
    using Suc.prems by (intro Suc.IH) auto
  moreover have "a \<noteq> s + 1" using Suc.prems by auto
  ultimately show ?case using ne by (simp add: Let_def)
qed

lemma safestrcpy_loop_cstr:
  assumes "\<And>i j. i < n \<Longrightarrow> j \<le> n \<Longrightarrow> t + of_nat i \<noteq> s + of_nat j" and "n < 2 ^ 64 - 1"
  shows "cstr (Suc n) s (safestrcpy_loop n s t m) = cstr n t m"
  using assms
proof (induction n arbitrary: s t m)
  case 0
  then show ?case by simp
next
  case (Suc n)
  let ?m = "m(s := m t)"
  have keep: "safestrcpy_loop n (s + 1) (t + 1) ?m s = m t"
    using safestrcpy_loop_frame [of n s "s + 1" "t + 1" ?m] Suc.prems
    by (simp add: unsigned_minus_1_eq_mask mask_eq_exp_minus_1)
  have ih: "cstr (Suc n) (s + 1) (safestrcpy_loop n (s + 1) (t + 1) ?m) = cstr n (t + 1) ?m"
  proof (rule Suc.IH)
    fix i j
    assume "i < n" and "j \<le> n"
    then show "t + 1 + of_nat i \<noteq> s + 1 + of_nat j"
      using Suc.prems(1) [of "Suc i" "Suc j"] by (simp add: algebra_simps)
  qed (use Suc.prems in simp)
  have "cstr n (t + 1) ?m = cstr n (t + 1) m"
  proof (rule cstr_cong)
    fix i
    assume "i < n"
    then show "?m (t + 1 + of_nat i) = m (t + 1 + of_nat i)"
      using Suc.prems(1) [of "Suc i" 0] by (simp add: algebra_simps)
  qed
  then show ?case
    using keep ih cstr.simps(2) [of "Suc n" s "safestrcpy_loop n (s + 1) (t + 1) ?m"]
    by (auto simp: Let_def)
qed

lemma strlen_from_Some:
  assumes "m (s + of_nat (n + k)) = 0" and "\<And>i. i < k \<Longrightarrow> m (s + of_nat (n + i)) \<noteq> 0"
  shows "strlen_from s n m = Some (n + k)"
  using assms
proof (induction k arbitrary: n)
  case 0
  then show ?case by (simp add: strlen_from.simps)
next
  case (Suc k)
  have "strlen_from s (Suc n) m = Some (Suc n + k)"
    by (rule Suc.IH) (use Suc.prems(1) Suc.prems(2) [of "Suc i" for i] in \<open>auto simp: add.assoc\<close>)
  moreover have "m (s + of_nat n) \<noteq> 0" using Suc.prems(2) [of 0] by simp
  ultimately show ?case by (simp add: strlen_from.simps [of s n])
qed


section \<open>Strings held in arrays\<close>

text \<open>
  The file system keeps names in fixed arrays.  The same routines on byte lists; past
  its end a list reads as NUL, as the literals the kernel passes do.
\<close>

definition hd0 :: "u8 list \<Rightarrow> u8" where
  "hd0 xs = (case xs of [] \<Rightarrow> 0 | x # _ \<Rightarrow> x)"

primrec strncmp_l :: "nat \<Rightarrow> u8 list \<Rightarrow> u8 list \<Rightarrow> int" where
  "strncmp_l 0 p q = 0"
| "strncmp_l (Suc n) p q =
     (if hd0 p \<noteq> 0 \<and> hd0 p = hd0 q then strncmp_l n (tl p) (tl q)
      else int (unat (hd0 p)) - int (unat (hd0 q)))"

primrec strncpy_l :: "nat \<Rightarrow> u8 list \<Rightarrow> u8 list" where
  "strncpy_l 0 t = []"
| "strncpy_l (Suc n) t = (if hd0 t \<noteq> 0 then hd0 t # strncpy_l n (tl t) else replicate (Suc n) 0)"

definition cname :: "nat \<Rightarrow> u8 list \<Rightarrow> u8 list" where
  "cname n xs = takeWhile (\<lambda>c. c \<noteq> 0) (take n xs)"

lemma hd0_simps [simp]: "hd0 [] = 0" "hd0 (x # xs) = x"
  by (simp_all add: hd0_def)

lemma cname_simps [simp]:
  "cname 0 xs = []" "cname (Suc n) xs = (if hd0 xs = 0 then [] else hd0 xs # cname n (tl xs))"
  by (simp add: cname_def) (cases xs; simp add: cname_def)

definition bytes_at :: "nat \<Rightarrow> u64 \<Rightarrow> mem \<Rightarrow> u8 list" where
  "bytes_at n p m = map (\<lambda>i. m (p + of_nat i)) [0..<n]"

lemma bytes_at_simps [simp]:
  "bytes_at 0 p m = []" "bytes_at (Suc n) p m = m p # bytes_at n (p + 1) m"
  by (simp_all add: bytes_at_def upt_conv_Cons map_Suc_upt [symmetric] add.assoc del: upt_Suc)

text \<open>The array versions are the memory versions, read through the arrays.\<close>

lemma strncmp_bytes: "strncmp n p q m = strncmp_l n (bytes_at n p m) (bytes_at n q m)"
  by (induction n arbitrary: p q) auto

lemma cstr_cname: "cstr n p m = cname n (bytes_at n p m)"
  by (induction n arbitrary: p) auto

lemma strncmp_l_eq_0: "strncmp_l n p q = 0 \<longleftrightarrow> cname n p = cname n q"
  by (induction n arbitrary: p q) (auto simp: word_uint_eq_iff)

lemma length_strncpy_l [simp]: "length (strncpy_l n t) = n"
  by (induction n arbitrary: t) auto

lemma cname_replicate_0 [simp]: "cname n (replicate k 0) = []"
  by (cases n) (auto simp: cname_def)

lemma cname_strncpy_l: "cname n (strncpy_l n t) = cname n t"
  by (induction n arbitrary: t) auto

section \<open>Properties\<close>

text \<open>
  C26. Both versions of \<^verbatim>\<open>memmove\<close>, the kernel's and the user library's, move the bytes
  as they were before the call, whatever the overlap of source and destination, and change nothing else;
  so they agree.
\<close>

theorem memmove_agree:
  assumes "unat src + unat n < 2 ^ 64" and "unat dst + unat n < 2 ^ 64" and "unat n < 2 ^ 31"
  shows "memmove dst src n m = (\<lambda>a. if unat (a - dst) < unat n then m (src + (a - dst)) else m a)
    \<and> ulib_memmove dst src (uint n) m = memmove dst src n m"
proof -
  have "nat (uint n) = unat n" by simp
  moreover have "uint n = int (unat n)" by simp
  then have "uint n < 2 ^ 31" using assms(3) by (metis of_nat_less_iff of_nat_numeral of_nat_power)
  ultimately have "ulib_memmove dst src (uint n) m = moved dst src (unat n) m"
    using ulib_memmove_moved [of "uint n" src dst m] assms by simp
  then show ?thesis using memmove_moved [OF assms(1), of dst m] by (simp add: moved_def)
qed

theorem memmove_agree_witness:
  "memmove 5 3 4 (\<lambda>a. ucast a) 8 = 6 \<and> ulib_memmove 5 3 4 (\<lambda>a. ucast a) 8 = 6"
  using memmove_agree [of 3 4 5 "\<lambda>a. ucast a"] by simp

text \<open>
  C27. \<^verbatim>\<open>safestrcpy\<close> with room for \<open>n\<close> bytes leaves a terminated string that is the source cut at
  \<open>n - 1\<close> bytes, and writes nothing outside its \<open>n\<close> bytes.
\<close>

theorem safestrcpy_bounded:
  assumes "0 < n" and "n < 2 ^ 31"
    and "\<forall>i j. i < nat n \<longrightarrow> j < nat n \<longrightarrow> t + of_nat i \<noteq> s + of_nat j"
  shows "cstr (nat n) s (safestrcpy s t n m) = cstr (nat n - 1) t m
    \<and> (\<forall>a. nat n \<le> unat (a - s) \<longrightarrow> safestrcpy s t n m a = m a)"
proof -
  obtain k where k: "nat n = Suc k" using assms(1) by (cases "nat n") auto
  then have "nat (n - 1) = k" by simp
  then have eq: "safestrcpy s t n m = safestrcpy_loop k s t m" using assms(1) by (simp add: safestrcpy_def)
  have small: "k < 2 ^ 64 - 1" using assms(2) k by simp
  have "cstr (Suc k) s (safestrcpy_loop k s t m) = cstr k t m"
    by (rule safestrcpy_loop_cstr) (use assms(3) k small in auto)
  then show ?thesis using safestrcpy_loop_frame [OF _ small, of _ s t m] eq k by auto
qed

theorem safestrcpy_bounded_witness:
  "cstr 3 100 (safestrcpy 100 50 3 (\<lambda>_. 65)) = [65, 65] \<and> safestrcpy 100 50 3 (\<lambda>_. 65) 103 = 65"
proof -
  have "unat ((50 :: u64) + of_nat i) < 100 \<and> 100 \<le> unat ((100 :: u64) + of_nat i)" if "i < nat 3" for i
    using that by (simp add: unat_word_ariths unsigned_of_nat take_bit_nat_eq_self)
  then have apart: "\<forall>i j. i < nat 3 \<longrightarrow> j < nat 3 \<longrightarrow> (50 :: u64) + of_nat i \<noteq> 100 + of_nat j"
    by (metis not_le)
  have "cstr (Suc (Suc 0)) 50 (\<lambda>_. 65) = [65, 65]" by simp
  then have "cstr 2 50 (\<lambda>_. 65) = [65, 65]" by (simp only: numeral_2_eq_2)
  then show ?thesis using safestrcpy_bounded [of 3 50 100 "\<lambda>_. 65", OF _ _ apart] by simp
qed

end
