(* ===== verification/Kcore.thy ===== *)
theory Kcore
  imports Kstring
begin

text \<open>
  The part of the kernel everything else runs on: \<^verbatim>\<open>struct proc\<close>, the
  locks one CPU holds, \<^verbatim>\<open>sleep\<close>/\<^verbatim>\<open>wakeup\<close>
  (\<^verbatim>\<open>kernel/proc.c\<close>) and the sleep-locks of
  \<^verbatim>\<open>kernel/sleeplock.c\<close>.

  Kernel code is modelled as one CPU executes it.  Of a spinlock that CPU sees whether
  it holds it: \<open>held\<close> lists the spinlocks it has acquired, \<^verbatim>\<open>mycpu()->noff\<close>
  is the length of that list, and \<^verbatim>\<open>acquire\<close>/\<^verbatim>\<open>release\<close> panic exactly
  as \<^verbatim>\<open>holding()\<close> makes them.  The theory \<open>Spinlock\<close> has the locks
  themselves, with all CPUs.

  Objects are named by their place in the kernel's tables: a process by its index in
  \<^verbatim>\<open>proc[]\<close>, a buffer by its index in \<^verbatim>\<open>bcache.buf[]\<close>, an inode by its
  index in \<^verbatim>\<open>itable.inode[]\<close>.  \<^verbatim>\<open>lockid\<close> and \<^verbatim>\<open>chan\<close> are
  the addresses of locks and of sleep channels.
\<close>

section \<open>Names of locks and channels\<close>

datatype sleepid = SBuf nat | SInode nat

datatype lockid = LKmem | LPid | LWait | LProc nat | LSleep sleepid | LBcache | LLog
  | LItable | LFtable | LPipe u64 | LTicks | LCons | LUart | LPr | LVdisk

datatype chan = ChNull | ChSleep sleepid | ChLog | ChProc nat | ChPipeR u64 | ChPipeW u64
  | ChTicks | ChCons | ChUart | ChBuf nat | ChDiskFree

section \<open>Processes\<close>

datatype procstate = UNUSED | USED | SLEEPING | RUNNABLE | RUNNING | ZOMBIE

record kcontext =
  ctx_ra :: u64
  ctx_sp :: u64
  ctx_s :: "u64 list"

record proc =
  p_state :: procstate
  p_chan :: chan
  p_killed :: bool
  p_xstate :: int
  p_pid :: int
  p_parent :: "nat option"
  p_kstack :: u64
  p_sz :: u64
  p_pagetable :: u64
  p_trapframe :: u64
  p_context :: kcontext
  p_ofile :: "nat option list"
  p_cwd :: "nat option"
  p_name :: "u8 list"

record sleeplock =
  slk_locked :: bool
  slk_pid :: int

record kcore =
  held :: "lockid list"
  procs :: "proc list"
  curproc :: "nat option"
  nextpid :: int
  initproc :: "nat option"
  slocks :: "sleepid \<Rightarrow> sleeplock"

section \<open>Spinlocks as one CPU sees them\<close>

definition acquire :: "lockid \<Rightarrow> ('a kcore_scheme, unit) op" where
  "acquire lk = (\<lambda>s. if lk \<in> set (held s) then Panic ''acquire''
                     else Ok () (s\<lparr>held := lk # held s\<rparr>))"

definition release :: "lockid \<Rightarrow> ('a kcore_scheme, unit) op" where
  "release lk = (\<lambda>s. if lk \<notin> set (held s) then Panic ''release''
                     else Ok () (s\<lparr>held := remove1 lk (held s)\<rparr>))"

definition holding :: "lockid \<Rightarrow> ('a kcore_scheme, bool) op" where
  "holding lk = kget (\<lambda>s. lk \<in> set (held s))"

section \<open>The current process\<close>

definition myproc :: "('a kcore_scheme, nat option) op" where
  "myproc = kget curproc"

text \<open>
  \<^verbatim>\<open>myproc()->f\<close>: address 0 is not mapped in the kernel, so following a null
  pointer traps, and \<^verbatim>\<open>kerneltrap\<close> panics.
\<close>

definition with_myproc :: "(nat \<Rightarrow> ('a kcore_scheme, 'b) op) \<Rightarrow> ('a kcore_scheme, 'b) op" where
  "with_myproc f = kbind myproc (\<lambda>p. case p of None \<Rightarrow> kpanic ''kerneltrap'' | Some i \<Rightarrow> f i)"

abbreviation proc_at :: "nat \<Rightarrow> 'a kcore_scheme \<Rightarrow> proc" where
  "proc_at i s \<equiv> procs s ! i"

definition set_proc :: "nat \<Rightarrow> (proc \<Rightarrow> proc) \<Rightarrow> ('a kcore_scheme, unit) op" where
  "set_proc i f = kmod (\<lambda>s. s\<lparr>procs := (procs s)[i := f (procs s ! i)]\<rparr>)"

section \<open>Loops over a table\<close>

primrec kfor :: "nat list \<Rightarrow> (nat \<Rightarrow> ('s, unit) op) \<Rightarrow> ('s, unit) op" where
  "kfor [] f = kret ()"
| "kfor (x # xs) f = kthen (f x) (kfor xs f)"

lemma keeps_kfor [keeps_intros]: "(\<And>i. i \<in> set xs \<Longrightarrow> keeps I (f i)) \<Longrightarrow> keeps I (kfor xs f)"
  by (induction xs) (auto intro: keeps_intros)

lemma kfor_append: "kfor (xs @ ys) f = kthen (kfor xs f) (kfor ys f)"
  by (induction xs) (auto simp: kthen_def kbind_assoc)

section \<open>Sleep and wakeup\<close>

text \<open>
  \<^verbatim>\<open>sched()\<close>: after its checks the CPU runs the scheduler, and this thread is
  off it.  Interrupts are off whenever a spinlock is held, which the first check has seen.
\<close>

definition sched :: "('a kcore_scheme, unit) op" where
  "sched = with_myproc (\<lambda>p.
     kbind (holding (LProc p)) (\<lambda>h.
     if \<not> h then kpanic ''sched p->lock'' else
     kbind (kget (\<lambda>s. length (held s))) (\<lambda>noff.
     if noff \<noteq> 1 then kpanic ''sched locks'' else
     kbind (kget (\<lambda>s. p_state (proc_at p s))) (\<lambda>st.
     if st = RUNNING then kpanic ''sched running'' else Sleep))))"

definition sleep :: "chan \<Rightarrow> lockid \<Rightarrow> ('a kcore_scheme, unit) op" where
  "sleep ch lk = with_myproc (\<lambda>p.
     kthen (acquire (LProc p)) (
     kthen (release lk) (
     kthen (set_proc p (\<lambda>q. q\<lparr>p_chan := ch, p_state := SLEEPING\<rparr>))
     sched)))"

text \<open>What \<^verbatim>\<open>sleep()\<close> does once the scheduler has switched back to it.\<close>

definition sleep_resume :: "nat \<Rightarrow> lockid \<Rightarrow> ('a kcore_scheme, unit) op" where
  "sleep_resume p lk =
     kthen (set_proc p (\<lambda>q. q\<lparr>p_chan := ChNull\<rparr>)) (
     kthen (release (LProc p)) (
     acquire lk))"

definition wakeup_proc :: "chan \<Rightarrow> proc \<Rightarrow> proc" where
  "wakeup_proc ch q = (if p_state q = SLEEPING \<and> p_chan q = ch then q\<lparr>p_state := RUNNABLE\<rparr> else q)"

definition wakeup_one :: "chan \<Rightarrow> nat \<Rightarrow> ('a kcore_scheme, unit) op" where
  "wakeup_one ch i =
     kbind myproc (\<lambda>me.
     kwhen (me \<noteq> Some i) (
       kthen (acquire (LProc i)) (
       kthen (set_proc i (wakeup_proc ch))
       (release (LProc i)))))"

definition wakeup :: "chan \<Rightarrow> ('a kcore_scheme, unit) op" where
  "wakeup ch = kfor [0..<NPROC] (wakeup_one ch)"

section \<open>Sleep-locks\<close>

definition initsleeplock :: "sleepid \<Rightarrow> ('a kcore_scheme, unit) op" where
  "initsleeplock l = kmod (\<lambda>s. s\<lparr>slocks := (slocks s)(l := \<lparr>slk_locked = False, slk_pid = 0\<rparr>)\<rparr>)"

definition acquiresleep :: "sleepid \<Rightarrow> ('a kcore_scheme, unit) op" where
  "acquiresleep l =
     kthen (acquire (LSleep l)) (
     kbind (kget (\<lambda>s. slk_locked (slocks s l))) (\<lambda>busy.
     if busy then sleep (ChSleep l) (LSleep l)
     else with_myproc (\<lambda>p.
       kthen (kmod (\<lambda>s. s\<lparr>slocks := (slocks s)(l := \<lparr>slk_locked = True,
                                        slk_pid = p_pid (proc_at p s)\<rparr>)\<rparr>))
       (release (LSleep l)))))"

definition releasesleep :: "sleepid \<Rightarrow> ('a kcore_scheme, unit) op" where
  "releasesleep l =
     kthen (acquire (LSleep l)) (
     kthen (kmod (\<lambda>s. s\<lparr>slocks := (slocks s)(l := \<lparr>slk_locked = False, slk_pid = 0\<rparr>)\<rparr>)) (
     kthen (wakeup (ChSleep l))
     (release (LSleep l))))"

definition holdingsleep :: "sleepid \<Rightarrow> ('a kcore_scheme, bool) op" where
  "holdingsleep l =
     kthen (acquire (LSleep l)) (
     with_myproc (\<lambda>p.
     kbind (kget (\<lambda>s. slk_locked (slocks s l) \<and> slk_pid (slocks s l) = p_pid (proc_at p s))) (\<lambda>r.
     kthen (release (LSleep l)) (kret r))))"

section \<open>What the operations do\<close>

lemma acquire_Ok [run_simps]:
  "lk \<notin> set (held s) \<Longrightarrow> acquire lk s = Ok () (s\<lparr>held := lk # held s\<rparr>)"
  by (simp add: acquire_def)

lemma acquire_again: "lk \<in> set (held s) \<Longrightarrow> acquire lk s = Panic ''acquire''"
  by (simp add: acquire_def)

lemma release_Ok [run_simps]:
  "lk \<in> set (held s) \<Longrightarrow> release lk s = Ok () (s\<lparr>held := remove1 lk (held s)\<rparr>)"
  by (simp add: release_def)

lemma with_myproc_Ok [run_simps]: "curproc s = Some p \<Longrightarrow> with_myproc f s = f p s"
  by (simp add: with_myproc_def myproc_def run_simps)

lemma set_proc_Ok [run_simps]:
  "set_proc i f s = Ok () (s\<lparr>procs := (procs s)[i := f (procs s ! i)]\<rparr>)"
  by (simp add: set_proc_def)

lemma holding_Ok [run_simps]: "holding lk s = Ok (lk \<in> set (held s)) s"
  by (simp add: holding_def)

text \<open>The process table after a wakeup on \<open>ch\<close> by process \<open>me\<close>.\<close>

definition woken :: "chan \<Rightarrow> nat option \<Rightarrow> proc list \<Rightarrow> proc list" where
  "woken ch me ps = map (\<lambda>i. if me = Some i then ps ! i else wakeup_proc ch (ps ! i)) [0..<length ps]"

lemma length_woken [simp]: "length (woken ch me ps) = length ps"
  by (simp add: woken_def)

lemma nth_woken: "i < length ps \<Longrightarrow>
    woken ch me ps ! i = (if me = Some i then ps ! i else wakeup_proc ch (ps ! i))"
  by (simp add: woken_def)

lemma wakeup_one_Ok:
  assumes "LProc i \<notin> set (held s)"
  shows "wakeup_one ch i s =
    Ok () (s\<lparr>procs := (if curproc s = Some i then procs s
                          else (procs s)[i := wakeup_proc ch (procs s ! i)])\<rparr>)"
  using assms by (simp add: wakeup_one_def myproc_def run_simps)

lemma wakeup_loop:
  assumes "\<forall>i. LProc i \<notin> set (held s)" and "n \<le> length (procs s)"
  shows "kfor [0..<n] (wakeup_one ch) s =
    Ok () (s\<lparr>procs := take n (woken ch (curproc s) (procs s)) @ drop n (procs s)\<rparr>)"
  using assms(2)
proof (induction n)
  case 0
  then show ?case by simp
next
  case (Suc n)
  let ?w = "woken ch (curproc s) (procs s)"
  let ?t = "s\<lparr>procs := take n ?w @ drop n (procs s)\<rparr>"
  have n: "n < length (procs s)" using Suc.prems by simp
  have at: "(take n ?w @ drop n (procs s)) ! n = procs s ! n"
    using n by (simp add: nth_append)
  have upd: "(take n ?w @ drop n (procs s))[n := v] = take n ?w @ v # drop (Suc n) (procs s)" for v
    using n by (simp add: list_update_append Cons_nth_drop_Suc [symmetric])
  have tk: "take (Suc n) ?w = take n ?w @ [?w ! n]"
    using n by (simp add: take_Suc_conv_app_nth)
  show ?case
    using Suc n assms(1) wakeup_one_Ok [of n ?t ch]
    by (simp add: kfor_append kthen_Ok run_kthen run_kbind tk nth_woken at upd Cons_nth_drop_Suc)
qed

lemma wakeup_Ok [run_simps]:
  assumes "\<forall>i. LProc i \<notin> set (held s)" and "length (procs s) = NPROC"
  shows "wakeup ch s = Ok () (s\<lparr>procs := woken ch (curproc s) (procs s)\<rparr>)"
  using wakeup_loop [of s NPROC ch] assms by (simp add: wakeup_def)


definition mypid :: "'a kcore_scheme \<Rightarrow> int" where
  "mypid s = (case curproc s of None \<Rightarrow> 0 | Some p \<Rightarrow> p_pid (procs s ! p))"

lemma acquiresleep_Ok:
  assumes "LSleep l \<notin> set (held s)" and "\<not> slk_locked (slocks s l)" and "curproc s = Some p"
  shows "acquiresleep l s =
    Ok () (s\<lparr>slocks := (slocks s)(l := \<lparr>slk_locked = True, slk_pid = mypid s\<rparr>)\<rparr>)"
  using assms by (simp add: acquiresleep_def run_simps mypid_def)

text \<open>On a locked sleep-lock the caller goes to sleep on it, holding its own lock only.\<close>

lemma acquiresleep_busy:
  assumes "held s = []" and "slk_locked (slocks s l)" and "curproc s = Some p"
    and "p < length (procs s)"
  shows "acquiresleep l s = Sleep (s\<lparr>held := [LProc p],
    procs := (procs s)[p := (procs s ! p)\<lparr>p_chan := ChSleep l, p_state := SLEEPING\<rparr>]\<rparr>)"
  using assms by (simp add: acquiresleep_def sleep_def sched_def run_simps)

lemma releasesleep_Ok:
  assumes "LSleep l \<notin> set (held s)" and "\<forall>i. LProc i \<notin> set (held s)"
    and "length (procs s) = NPROC"
  shows "releasesleep l s =
    Ok () (s\<lparr>slocks := (slocks s)(l := \<lparr>slk_locked = False, slk_pid = 0\<rparr>),
             procs := woken (ChSleep l) (curproc s) (procs s)\<rparr>)"
  using assms by (simp add: releasesleep_def run_simps)

lemma holdingsleep_Ok:
  assumes "LSleep l \<notin> set (held s)" and "curproc s = Some p"
  shows "holdingsleep l s = Ok (slk_locked (slocks s l) \<and> slk_pid (slocks s l) = mypid s) s"
  using assms by (simp add: holdingsleep_def run_simps mypid_def)

lemma p_pid_wakeup_proc [simp]: "p_pid (wakeup_proc ch q) = p_pid q"
  by (simp add: wakeup_proc_def)

lemma mypid_woken [simp]:
  assumes "curproc s = Some p" and "p < length (procs s)"
  shows "mypid (s\<lparr>procs := woken ch (curproc s) (procs s)\<rparr>) = mypid s"
  using assms by (simp add: mypid_def nth_woken)

text \<open>A running process, for the witnesses.\<close>

definition proc0 :: proc where
  "proc0 = \<lparr>p_state = RUNNING, p_chan = ChNull, p_killed = False, p_xstate = 0, p_pid = 1, p_parent = None,
     p_kstack = 0, p_sz = 0, p_pagetable = 0, p_trapframe = 0, p_context = \<lparr>ctx_ra = 0, ctx_sp = 0, ctx_s = []\<rparr>,
     p_ofile = [], p_cwd = None, p_name = []\<rparr>"

end
