(* ===== verification/Kalloc.thy ===== *)
theory Kalloc
  imports Kcore
begin

text \<open>
  \<^verbatim>\<open>kernel/kalloc.c\<close>: the physical page allocator.  Free pages form a linked
  list threaded through the pages themselves: the first eight bytes of a free page
  hold the address of the next one.  The state adds physical memory, the list head
  \<^verbatim>\<open>kmem.freelist\<close> and the addresses the linker script defines, which the code
  reads and never writes.

  \<open>kmem_inv\<close> relates the threaded list to the list of free pages it represents; the
  interface \<open>page_allocator\<close> is what the rest of the kernel relies on.
\<close>

section \<open>State\<close>

record ldsyms =
  ld_end :: u64
  ld_etext :: u64
  ld_trampoline :: u64

record kmem = kcore +
  mem :: mem
  freelist :: u64
  ld :: ldsyms
  kernel_pagetable :: u64
  satp :: u64

section \<open>Words in memory\<close>

definition load64 :: "mem \<Rightarrow> u64 \<Rightarrow> u64" where
  "load64 m a = word_of_bytes (bytes_at 8 a m)"

definition store64 :: "mem \<Rightarrow> u64 \<Rightarrow> u64 \<Rightarrow> mem" where
  "store64 m a w = (\<lambda>x. if unat (x - a) < 8 then bytes_of_word 8 w ! unat (x - a) else m x)"

lemma load64_cong: "(\<And>x. unat (x - a) < 8 \<Longrightarrow> m x = m' x) \<Longrightarrow> load64 m a = load64 m' a"
proof -
  assume same: "\<And>x. unat (x - a) < 8 \<Longrightarrow> m x = m' x"
  have "bytes_at 8 a m = bytes_at 8 a m'"
    unfolding bytes_at_def by (rule map_cong) (auto intro!: same simp: unsigned_of_nat take_bit_nat_eq_self)
  then show ?thesis by (simp add: load64_def)
qed

lemma load_store_same [simp]: "load64 (store64 m a w) a = w"
proof -
  have "bytes_at 8 a (store64 m a w) = bytes_of_word 8 w"
    by (rule nth_equalityI)
      (auto simp: bytes_at_def store64_def unsigned_of_nat take_bit_nat_eq_self)
  then show ?thesis by (simp add: load64_def word_of_bytes_of_word)
qed

lemma load_store_other:
  assumes "\<And>x. unat (x - b) < 8 \<Longrightarrow> \<not> unat (x - a) < 8"
  shows "load64 (store64 m a w) b = load64 m b"
  by (rule load64_cong) (auto simp: store64_def dest: assms)

section \<open>Operations\<close>

definition kfree :: "u64 \<Rightarrow> ('a kmem_scheme, unit) op" where
  "kfree pa =
     kbind (kget (\<lambda>s. ld_end (ld s))) (\<lambda>endk.
     if pa mod PGSIZE \<noteq> 0 \<or> pa < endk \<or> pa \<ge> PHYSTOP then kpanic ''kfree'' else
     kthen (kmod (\<lambda>s. s\<lparr>mem := memset pa 1 (ucast PGSIZE) (mem s)\<rparr>)) (
     kthen (acquire LKmem) (
     kthen (kmod (\<lambda>s. s\<lparr>mem := store64 (mem s) pa (freelist s)\<rparr>)) (
     kthen (kmod (\<lambda>s. s\<lparr>freelist := pa\<rparr>))
     (release LKmem)))))"

definition kalloc :: "('a kmem_scheme, u64) op" where
  "kalloc =
     kthen (acquire LKmem) (
     kbind (kget freelist) (\<lambda>r.
     kthen (kwhen (r \<noteq> 0) (kmod (\<lambda>s. s\<lparr>freelist := load64 (mem s) r\<rparr>))) (
     kthen (release LKmem) (
     kthen (kwhen (r \<noteq> 0) (kmod (\<lambda>s. s\<lparr>mem := memset r 5 (ucast PGSIZE) (mem s)\<rparr>)))
     (kret r)))))"

text \<open>The loop of \<^verbatim>\<open>freerange\<close>; the first argument bounds its iterations.\<close>

primrec freerange_loop :: "nat \<Rightarrow> u64 \<Rightarrow> u64 \<Rightarrow> ('a kmem_scheme, unit) op" where
  "freerange_loop 0 p pa_end = (\<lambda>s. Hang)"
| "freerange_loop (Suc k) p pa_end =
     (if p + PGSIZE \<le> pa_end then kthen (kfree p) (freerange_loop k (p + PGSIZE) pa_end)
      else kret ())"

definition freerange :: "u64 \<Rightarrow> u64 \<Rightarrow> ('a kmem_scheme, unit) op" where
  "freerange pa_start pa_end =
     freerange_loop (unat pa_end div 4096 + 2) (PGROUNDUP pa_start) pa_end"

definition kinit :: "('a kmem_scheme, unit) op" where
  "kinit = kbind (kget (\<lambda>s. ld_end (ld s))) (\<lambda>e. freerange e PHYSTOP)"

section \<open>The free list\<close>

definition page_ok :: "ldsyms \<Rightarrow> u64 \<Rightarrow> bool" where
  "page_ok l p \<longleftrightarrow> unat p mod 4096 = 0 \<and> p \<noteq> 0 \<and> ld_end l \<le> p \<and> p < PHYSTOP"

primrec threaded :: "mem \<Rightarrow> u64 \<Rightarrow> u64 list \<Rightarrow> bool" where
  "threaded m p [] = (p = 0)"
| "threaded m p (q # qs) = (p = q \<and> threaded m (load64 m q) qs)"

definition kmem_inv :: "'a kmem_scheme \<Rightarrow> u64 list \<Rightarrow> bool" where
  "kmem_inv s ps \<longleftrightarrow> threaded (mem s) (freelist s) ps \<and> distinct ps \<and> (\<forall>p \<in> set ps. page_ok (ld s) p)"

text \<open>Memory outside the page at \<open>p\<close> is the same.\<close>

definition same_outside :: "u64 \<Rightarrow> mem \<Rightarrow> mem \<Rightarrow> bool" where
  "same_outside p m m' \<longleftrightarrow> (\<forall>a. \<not> unat (a - p) < 4096 \<longrightarrow> m' a = m a)"

lemma page_disjoint:
  fixes p q a :: u64
  assumes "unat p mod 4096 = 0" and "unat q mod 4096 = 0" and "p \<noteq> q" and "unat (a - p) < 4096"
  shows "\<not> unat (a - q) < 4096"
proof
  assume q: "unat (a - q) < 4096"
  have "unat a div 4096 = unat b div 4096"
    if b: "unat b mod 4096 = 0" and lt: "unat (a - b) < 4096" for b
  proof (cases "b \<le> a")
    case True
    then have "unat a = unat b + unat (a - b)"
      using unat_diff_le [OF True] by (simp add: word_le_nat_alt)
    then show ?thesis using b lt by (simp add: div_add1_eq)
  next
    case False
    then have "unat (a - b) = 2 ^ 64 + unat a - unat b" by (simp add: unat_diff_less)
    moreover from b obtain k where k: "unat b = 4096 * k" by auto
    moreover from k have "k < 2 ^ 52" using unsigned_less [of b, where ?'a = nat] by simp
    ultimately have False using lt by simp
    then show ?thesis ..
  qed
  from this [OF assms(1,4)] this [OF assms(2) q] have "unat p div 4096 = unat q div 4096"
    using assms(1,2,4) q by auto
  then have "unat p = unat q" using assms(1,2) by (metis div_mult_mod_eq)
  then show False using assms(3) by (simp add: word_unat_eq_iff)
qed


lemma page_first_word: "unat (a - p) < 8 \<Longrightarrow> unat (a - p) < 4096"
  by simp

lemma threaded_cong:
  "(\<And>q. q \<in> set ps \<Longrightarrow> load64 m q = load64 m' q) \<Longrightarrow> threaded m p ps = threaded m' p ps"
  by (induction ps arbitrary: p) auto

lemma threaded_same_outside:
  assumes "same_outside p m m'" and "unat p mod 4096 = 0" and "p \<notin> set ps"
    and "\<forall>q \<in> set ps. unat q mod 4096 = 0"
  shows "threaded m' x ps = threaded m x ps"
proof (rule threaded_cong)
  fix q
  assume q: "q \<in> set ps"
  show "load64 m' q = load64 m q"
  proof (rule load64_cong)
    fix a
    assume "unat (a - q) < 8"
    then have "unat (a - q) < 4096" by simp
    then have "\<not> unat (a - p) < 4096"
      using assms q page_disjoint [of q p a] by auto
    then show "m' a = m a" using assms(1) by (simp add: same_outside_def)
  qed
qed

lemma same_outside_memset: "same_outside p m (memset p c 4096 m)"
  by (simp add: same_outside_def memset_eq)

lemma same_outside_store: "same_outside p m (store64 m p w)"
  by (simp add: same_outside_def store64_def)

lemma same_outside_trans: "same_outside p m m' \<Longrightarrow> same_outside p m' m'' \<Longrightarrow> same_outside p m m''"
  by (simp add: same_outside_def)

lemma mod_PGSIZE: "(p :: u64) mod PGSIZE = 0 \<longleftrightarrow> unat p mod 4096 = 0"
proof -
  have "unat (p mod 4096) = unat p mod 4096" by (simp add: unat_mod)
  then show ?thesis by (metis PGSIZE_def unat_eq_zero)
qed

lemma kfree_run:
  assumes "LKmem \<notin> set (held s)" and "page_ok (ld s) p"
  shows "kfree p s = Ok () (s\<lparr>mem := store64 (memset p 1 4096 (mem s)) p (freelist s), freelist := p\<rparr>)"
  using assms mod_PGSIZE [of p]
  by (simp add: kfree_def run_simps page_ok_def not_le not_less del: PGSIZE_def)
     (simp add: unat_mod [symmetric])

lemma kalloc_run:
  assumes "LKmem \<notin> set (held s)"
  shows "kalloc s = (if freelist s = 0 then Ok 0 s
    else Ok (freelist s) (s\<lparr>freelist := load64 (mem s) (freelist s),
                            mem := memset (freelist s) 5 4096 (mem s)\<rparr>))"
  using assms by (simp add: kalloc_def run_simps)

lemma kfree_inv:
  assumes "kmem_inv s ps" and "LKmem \<notin> set (held s)" and "page_ok (ld s) p" and "p \<notin> set ps"
  shows "\<exists>s'. kfree p s = Ok () s' \<and> kmem_inv s' (p # ps) \<and> same_outside p (mem s) (mem s')
    \<and> held s' = held s \<and> ld s' = ld s"
proof -
  let ?m = "store64 (memset p 1 4096 (mem s)) p (freelist s)"
  have so: "same_outside p (mem s) ?m"
    by (rule same_outside_trans [OF same_outside_memset same_outside_store])
  have "threaded ?m (freelist s) ps = threaded (mem s) (freelist s) ps"
    by (rule threaded_same_outside [OF so]) (use assms in \<open>auto simp: kmem_inv_def page_ok_def\<close>)
  then show ?thesis
    using assms so kfree_run [OF assms(2,3)] by (simp add: kmem_inv_def)
qed

lemma kalloc_inv:
  assumes "kmem_inv s (p # ps)" and "LKmem \<notin> set (held s)"
  shows "\<exists>s'. kalloc s = Ok p s' \<and> kmem_inv s' ps \<and> same_outside p (mem s) (mem s')
    \<and> (\<forall>a. unat (a - p) < 4096 \<longrightarrow> mem s' a = 5) \<and> held s' = held s \<and> ld s' = ld s"
proof -
  have p: "freelist s = p" "page_ok (ld s) p" "p \<notin> set ps" "threaded (mem s) (load64 (mem s) p) ps"
    using assms(1) by (auto simp: kmem_inv_def)
  have "threaded (memset p 5 4096 (mem s)) (load64 (mem s) p) ps =
      threaded (mem s) (load64 (mem s) p) ps"
    by (rule threaded_same_outside [OF same_outside_memset])
      (use assms p in \<open>auto simp: kmem_inv_def page_ok_def\<close>)
  then show ?thesis
    using assms p same_outside_memset [of p "mem s" 5] kalloc_run [OF assms(2)]
    by (simp add: kmem_inv_def page_ok_def memset_eq)
qed

lemma kalloc_empty:
  "kmem_inv s [] \<Longrightarrow> LKmem \<notin> set (held s) \<Longrightarrow> kalloc s = Ok 0 s"
  by (simp add: kalloc_run kmem_inv_def)

lemma kfree_bad:
  "unat p mod 4096 \<noteq> 0 \<or> p < ld_end (ld s) \<or> PHYSTOP \<le> p \<Longrightarrow> kfree p s = Panic ''kfree''"
  using mod_PGSIZE [of p] by (auto simp: kfree_def run_simps simp del: PGSIZE_def)


section \<open>The interface\<close>

text \<open>
  What clients of the allocator rely on.  \<open>inv s ps\<close>: the free pages are \<open>ps\<close>;
  \<open>valid\<close>: an address that is a page the allocator manages; \<open>ready\<close>: the caller
  does not hold the allocator's lock.
\<close>

locale page_allocator =
  fixes alloc :: "('s, u64) op" and free :: "u64 \<Rightarrow> ('s, unit) op"
    and inv :: "'s \<Rightarrow> u64 list \<Rightarrow> bool" and valid :: "'s \<Rightarrow> u64 \<Rightarrow> bool"
    and ready :: "'s \<Rightarrow> bool" and memory :: "'s \<Rightarrow> mem"
  assumes alloc_empty: "inv s [] \<Longrightarrow> ready s \<Longrightarrow> alloc s = Ok 0 s"
    and alloc_page: "inv s (p # ps) \<Longrightarrow> ready s \<Longrightarrow>
      \<exists>s'. alloc s = Ok p s' \<and> inv s' ps \<and> ready s' \<and> valid s' = valid s
        \<and> same_outside p (memory s) (memory s')"
    and free_page: "inv s ps \<Longrightarrow> ready s \<Longrightarrow> valid s p \<Longrightarrow> p \<notin> set ps \<Longrightarrow>
      \<exists>s'. free p s = Ok () s' \<and> inv s' (p # ps) \<and> ready s' \<and> valid s' = valid s
        \<and> same_outside p (memory s) (memory s')"
    and inv_pages: "inv s ps \<Longrightarrow> distinct ps \<and> (\<forall>p \<in> set ps. valid s p \<and> p \<noteq> 0)"
begin

lemma alloc_returns:
  assumes "inv s ps" and "ready s"
  shows "\<exists>p s'. alloc s = Ok p s' \<and> (p = 0 \<longrightarrow> ps = [] \<and> s' = s) \<and> (p \<noteq> 0 \<longrightarrow> ps \<noteq> [] \<and> p = hd ps \<and> inv s' (tl ps))"
proof (cases ps)
  case Nil
  then show ?thesis using alloc_empty assms by auto
next
  case (Cons q qs)
  then show ?thesis using alloc_page [of s q qs] inv_pages [OF assms(1)] assms by fastforce
qed

lemma alloc_twice_distinct:
  assumes "inv s ps" and "ready s" and "alloc s = Ok p s1" and "p \<noteq> 0"
    and "alloc s1 = Ok q s2" and "q \<noteq> 0"
  shows "p \<noteq> q"
proof -
  from alloc_returns [OF assms(1,2)] assms(3,4) obtain qs where ps: "ps = p # qs"
    by (auto simp: neq_Nil_conv)
  from alloc_page [of s p qs] assms ps have s1: "inv s1 qs" "ready s1" by auto
  from alloc_returns [OF this] assms(5,6) have "q \<in> set qs" by (auto simp: neq_Nil_conv)
  then show ?thesis using inv_pages [OF assms(1)] ps by auto
qed

lemma free_then_alloc:
  assumes "inv s ps" and "ready s" and "valid s p" and "p \<notin> set ps"
  shows "\<exists>s1 s2. free p s = Ok () s1 \<and> alloc s1 = Ok p s2 \<and> inv s2 ps"
  using free_page [OF assms] alloc_page by blast

end

interpretation kalloc_pages: page_allocator kalloc kfree kmem_inv "\<lambda>s. page_ok (ld s)"
  "\<lambda>s. LKmem \<notin> set (held s)" mem
proof unfold_locales
  fix s :: "'a kmem_scheme" and p ps
  show "kmem_inv s [] \<Longrightarrow> LKmem \<notin> set (held s) \<Longrightarrow> kalloc s = Ok 0 s"
    by (rule kalloc_empty)
  show "kmem_inv s (p # ps) \<Longrightarrow> LKmem \<notin> set (held s) \<Longrightarrow>
      \<exists>s'. kalloc s = Ok p s' \<and> kmem_inv s' ps \<and> LKmem \<notin> set (held s')
        \<and> page_ok (ld s') = page_ok (ld s) \<and> same_outside p (mem s) (mem s')"
    using kalloc_inv [of s p ps] by auto
  show "kmem_inv s ps \<Longrightarrow> LKmem \<notin> set (held s) \<Longrightarrow> page_ok (ld s) p \<Longrightarrow> p \<notin> set ps \<Longrightarrow>
      \<exists>s'. kfree p s = Ok () s' \<and> kmem_inv s' (p # ps) \<and> LKmem \<notin> set (held s')
        \<and> page_ok (ld s') = page_ok (ld s) \<and> same_outside p (mem s) (mem s')"
    using kfree_inv [of s ps p] by auto
  show "kmem_inv s ps \<Longrightarrow> distinct ps \<and> (\<forall>p \<in> set ps. page_ok (ld s) p \<and> p \<noteq> 0)"
    by (auto simp: kmem_inv_def page_ok_def)
qed

section \<open>Filling the allocator\<close>

text \<open>\<open>n\<close> pages from \<open>p\<close> upwards.\<close>

definition pages_from :: "u64 \<Rightarrow> nat \<Rightarrow> u64 list" where
  "pages_from p n = map (\<lambda>i. p + of_nat (4096 * i)) [0..<n]"

lemma pages_from_Suc: "pages_from p (Suc n) = p # pages_from (p + 4096) n"
  by (simp add: pages_from_def upt_conv_Cons map_Suc_upt [symmetric] algebra_simps del: upt_Suc)

lemma pages_from_0 [simp]: "pages_from p 0 = []"
  by (simp add: pages_from_def)

lemma unat_next_page: "unat p + 4096 < 2 ^ 64 \<Longrightarrow> unat (p + 4096 :: u64) = unat p + 4096"
  by (simp add: unat_word_ariths)

text \<open>The loop frees the \<open>n\<close> pages below \<^verbatim>\<open>PHYSTOP\<close>; the fuel only has to exceed their number.\<close>

lemma freerange_loop_run:
  assumes "kmem_inv s ps" and "LKmem \<notin> set (held s)" and "unat p mod 4096 = 0" and "ld_end (ld s) \<le> p" and "p \<noteq> 0"
    and "unat p + 4096 * n \<le> unat PHYSTOP" and "unat PHYSTOP < unat p + 4096 * n + 4096"
    and "\<forall>q \<in> set ps. q < p" and "n < k"
  shows "\<exists>s'. freerange_loop k p PHYSTOP s = Ok () s' \<and> kmem_inv s' (rev (pages_from p n) @ ps)"
  using assms
proof (induction n arbitrary: s ps p k)
  case 0
  have "unat (p + 4096) = unat p + 4096" using "0.prems" by (intro unat_next_page) (simp add: PHYSTOP_value)
  then have "\<not> p + 4096 \<le> PHYSTOP" using "0.prems" by (simp add: word_le_nat_alt)
  then show ?case using "0.prems" by (cases k) simp_all
next
  case (Suc n)
  obtain j where k: "k = Suc j" using Suc.prems(9) by (cases k) auto
  have up: "unat (p + 4096) = unat p + 4096" using Suc.prems by (intro unat_next_page) (simp add: PHYSTOP_value)
  have go: "p + 4096 \<le> PHYSTOP" using Suc.prems up by (simp add: word_le_nat_alt)
  have ok: "page_ok (ld s) p" using Suc.prems by (simp add: page_ok_def word_less_nat_alt)
  have "p \<notin> set ps" using Suc.prems(8) by auto
  from kfree_inv [OF Suc.prems(1,2) ok this] obtain t where
    t: "kfree p s = Ok () t" "kmem_inv t (p # ps)" "held t = held s" "ld t = ld s" by blast
  have lt: "p < p + 4096" using up by (simp add: word_less_nat_alt)
  have "\<exists>s'. freerange_loop j (p + 4096) PHYSTOP t = Ok () s' \<and> kmem_inv s' (rev (pages_from (p + 4096) n) @ p # ps)"
  proof (rule Suc.IH)
    show "ld_end (ld t) \<le> p + 4096" using Suc.prems(4) t lt by simp
    show "\<forall>q \<in> set (p # ps). q < p + 4096" using Suc.prems(8) lt by auto
    show "unat (p + 4096) mod 4096 = 0" using up Suc.prems(3) by simp
    show "p + 4096 \<noteq> 0" using up by auto
  qed (use t up Suc.prems k in simp_all)
  then show ?case using go t by (simp add: k kthen_Ok pages_from_Suc)
qed

definition boot_pages :: "ldsyms \<Rightarrow> u64 list" where
  "boot_pages l = pages_from (PGROUNDUP (ld_end l)) ((unat PHYSTOP - unat (PGROUNDUP (ld_end l))) div 4096)"

lemma freerange_all:
  assumes "kmem_inv s []" and "LKmem \<notin> set (held s)" and "0 < ld_end (ld s)" and "ld_end (ld s) \<le> PHYSTOP"
  shows "\<exists>s'. kinit s = Ok () s' \<and> kmem_inv s' (rev (boot_pages (ld s)))"
proof -
  let ?e = "ld_end (ld s)" and ?p = "PGROUNDUP (ld_end (ld s))"
  have e: "unat ?e \<le> 0x88000000" "0 < unat ?e"
    using assms(3,4) by (simp_all add: word_le_nat_alt word_less_nat_alt PHYSTOP_value)
  have p: "unat ?p = (unat ?e + 4095) div 4096 * 4096"
    by (rule unat_PGROUNDUP) (use e in simp)
  then have le: "unat ?e \<le> unat ?p" "unat ?p \<le> 0x88000000" "unat ?p mod 4096 = 0" using e by auto
  let ?n = "(unat PHYSTOP - unat ?p) div 4096"
  have "\<exists>s'. freerange_loop (unat PHYSTOP div 4096 + 2) ?p PHYSTOP s = Ok () s' \<and> kmem_inv s' (rev (pages_from ?p ?n) @ [])"
  proof (rule freerange_loop_run [OF assms(1,2)])
    show "?p \<noteq> 0" using le e by auto
    show "unat ?p + 4096 * ?n \<le> unat PHYSTOP" "unat PHYSTOP < unat ?p + 4096 * ?n + 4096"
      using le by (simp_all add: PHYSTOP_value)
  qed (use le in \<open>simp_all add: word_le_nat_alt PHYSTOP_value\<close>)
  then show ?thesis by (simp add: kinit_def freerange_def run_kbind boot_pages_def)
qed

text \<open>
  C23. \<^verbatim>\<open>kinit\<close> returns, and afterwards the free list holds exactly the pages between the end of the
  kernel image and \<^verbatim>\<open>PHYSTOP\<close>, each once.
\<close>

theorem kinit_frees_all:
  assumes "freelist s = 0" and "LKmem \<notin> set (held s)" and "0 < ld_end (ld s)" and "ld_end (ld s) \<le> PHYSTOP"
  shows "\<exists>s'. kinit s = Ok () s' \<and> kmem_inv s' (rev (boot_pages (ld s)))"
  by (rule freerange_all) (use assms in \<open>simp_all add: kmem_inv_def\<close>)

definition demo_mem :: kmem where
  "demo_mem = \<lparr>held = [], procs = replicate NPROC proc0, curproc = Some 0, nextpid = 2, initproc = None,
     slocks = (\<lambda>_. \<lparr>slk_locked = False, slk_pid = 0\<rparr>),
     mem = (\<lambda>_. 0), freelist = 0, ld = \<lparr>ld_end = 0x87FFE234, ld_etext = 0x80008000, ld_trampoline = 0x80007000\<rparr>,
     kernel_pagetable = 0, satp = 0\<rparr>"

theorem kinit_frees_all_witness: "\<exists>s'. kinit demo_mem = Ok () s' \<and> kmem_inv s' [0x87FFF000]"
proof -
  have up: "PGROUNDUP 0x87FFE234 = 0x87FFF000" by (simp add: PGROUNDUP_def)
  have "boot_pages (ld demo_mem) = [0x87FFF000]"
    by (simp add: boot_pages_def demo_mem_def up PHYSTOP_value pages_from_def)
  then show ?thesis
    using kinit_frees_all [of demo_mem] by (simp add: demo_mem_def PHYSTOP_value)
qed

text \<open>
  C18. The allocator implements a stack of pages.  \<^verbatim>\<open>kalloc\<close> pops it, or returns 0 when it is
  empty; \<^verbatim>\<open>kfree\<close> pushes a page that is not on it; both leave memory outside the page as it was.
\<close>

theorem kalloc_refines_stack:
  assumes "kmem_inv s ps" and "LKmem \<notin> set (held s)"
  shows "(\<exists>s'. kalloc s = Ok (if ps = [] then 0 else hd ps) s' \<and> kmem_inv s' (tl ps)
      \<and> (if ps = [] then s' = s else same_outside (hd ps) (mem s) (mem s')))
    \<and> (\<forall>p. page_ok (ld s) p \<and> p \<notin> set ps \<longrightarrow>
      (\<exists>s'. kfree p s = Ok () s' \<and> kmem_inv s' (p # ps) \<and> same_outside p (mem s) (mem s')))"
proof (intro conjI allI impI)
  show "\<exists>s'. kalloc s = Ok (if ps = [] then 0 else hd ps) s' \<and> kmem_inv s' (tl ps)
      \<and> (if ps = [] then s' = s else same_outside (hd ps) (mem s) (mem s'))"
  proof (cases ps)
    case Nil
    then show ?thesis using kalloc_pages.alloc_empty assms by simp
  next
    case (Cons q qs)
    then show ?thesis using kalloc_pages.alloc_page [of s q qs] assms by auto
  qed
next
  fix p
  assume "page_ok (ld s) p \<and> p \<notin> set ps"
  then show "\<exists>s'. kfree p s = Ok () s' \<and> kmem_inv s' (p # ps) \<and> same_outside p (mem s) (mem s')"
    using kalloc_pages.free_page [OF assms] by blast
qed

theorem kalloc_refines_stack_witness:
  "\<exists>s'. kfree 0x87FFF000 demo_mem = Ok () s' \<and> kmem_inv s' [0x87FFF000]"
proof -
  have "kmem_inv demo_mem []" "LKmem \<notin> set (held demo_mem)" "page_ok (ld demo_mem) 0x87FFF000"
    by (simp_all add: kmem_inv_def demo_mem_def page_ok_def PHYSTOP_value)
  then show ?thesis using kalloc_refines_stack [of demo_mem "[]"] by auto
qed

end
