(* ===== verification/Bio.thy ===== *)
theory Bio
  imports Kalloc
begin

text \<open>
  \<^verbatim>\<open>kernel/bio.c\<close>: the buffer cache.  A buffer is named by its index in
  \<^verbatim>\<open>bcache.buf\<close>; the index \<^verbatim>\<open>NBUF\<close> stands for \<^verbatim>\<open>bcache.head\<close>.
  The links \<^verbatim>\<open>prev\<close> and \<^verbatim>\<open>next\<close> of all buffers are two functions of the
  state, one per field.  The sleep-lock of buffer \<open>i\<close> is \<^term>\<open>SBuf i\<close>.

  \<open>disk\<close> is the content of the disk and \<open>dwrites\<close> the history of writes the disk
  has completed, in order.  \<open>disk_rw\<close> is a request as its caller sees it, from
  the call until the interrupt handler has marked it done.

  The main invariant \<open>bio_inv\<close> says that the links form one ring through all buffers,
  that a block is cached at most once, and that a buffer nobody uses agrees with the
  disk.  Above it, \<open>view\<close>, \<open>pin\<close> and \<open>lkd\<close> are what a client sees of a block;
  the interface \<open>buffer_cache\<close> states the effect of every operation on them.
\<close>

section \<open>State\<close>

definition BSIZE :: nat where [simp]: "BSIZE = 1024"

record buf =
  b_valid :: bool
  b_disk :: bool
  b_dev :: u32
  b_blockno :: u32
  b_refcnt :: u32
  b_data :: "u8 list"

record kbio = kmem +
  bufs :: "buf list"
  b_next :: "nat \<Rightarrow> nat"
  b_prev :: "nat \<Rightarrow> nat"
  disk :: "u32 \<Rightarrow> u8 list"
  dwrites :: "(u32 \<times> u8 list) list"

abbreviation bhead :: nat where "bhead \<equiv> NBUF"

declare NBUF_def [simp del] ROOTDEV_def [simp del]

section \<open>Operations\<close>

definition set_next :: "nat \<Rightarrow> nat \<Rightarrow> 'a kbio_scheme \<Rightarrow> 'a kbio_scheme" where
  "set_next b v s = s\<lparr>b_next := (b_next s)(b := v)\<rparr>"

definition set_prev :: "nat \<Rightarrow> nat \<Rightarrow> 'a kbio_scheme \<Rightarrow> 'a kbio_scheme" where
  "set_prev b v s = s\<lparr>b_prev := (b_prev s)(b := v)\<rparr>"

definition set_buf :: "nat \<Rightarrow> (buf \<Rightarrow> buf) \<Rightarrow> ('a kbio_scheme, unit) op" where
  "set_buf b f = kmod (\<lambda>s. s\<lparr>bufs := (bufs s)[b := f (bufs s ! b)]\<rparr>)"

definition binit_one :: "nat \<Rightarrow> ('a kbio_scheme, unit) op" where
  "binit_one b =
     kthen (kmod (\<lambda>s. set_next b (b_next s bhead) s)) (
     kthen (kmod (set_prev b bhead)) (
     kthen (initsleeplock (SBuf b)) (
     kthen (kmod (\<lambda>s. set_prev (b_next s bhead) b s))
     (kmod (set_next bhead b)))))"

definition binit :: "('a kbio_scheme, unit) op" where
  "binit =
     kthen (kmod (set_prev bhead bhead)) (
     kthen (kmod (set_next bhead bhead))
     (kfor [0..<NBUF] binit_one))"

text \<open>The two searches of \<^verbatim>\<open>bget\<close>, along \<^verbatim>\<open>next\<close> and along \<^verbatim>\<open>prev\<close>.\<close>

primrec bget_cached :: "nat \<Rightarrow> u32 \<Rightarrow> u32 \<Rightarrow> nat \<Rightarrow> ('a kbio_scheme, nat option) op" where
  "bget_cached 0 dev blockno b = (\<lambda>s. Hang)"
| "bget_cached (Suc k) dev blockno b =
     (if b = bhead then kret None else
      kbind (kget (\<lambda>s. bufs s ! b)) (\<lambda>bf.
      if b_dev bf = dev \<and> b_blockno bf = blockno then kret (Some b)
      else kbind (kget (\<lambda>s. b_next s b)) (bget_cached k dev blockno)))"

primrec bget_unused :: "nat \<Rightarrow> nat \<Rightarrow> ('a kbio_scheme, nat option) op" where
  "bget_unused 0 b = (\<lambda>s. Hang)"
| "bget_unused (Suc k) b =
     (if b = bhead then kret None else
      kbind (kget (\<lambda>s. bufs s ! b)) (\<lambda>bf.
      if b_refcnt bf = 0 then kret (Some b)
      else kbind (kget (\<lambda>s. b_prev s b)) (bget_unused k)))"

definition bget :: "u32 \<Rightarrow> u32 \<Rightarrow> ('a kbio_scheme, nat) op" where
  "bget dev blockno =
     kthen (acquire LBcache) (
     kbind (kget (\<lambda>s. b_next s bhead)) (\<lambda>b0.
     kbind (bget_cached (NBUF + 1) dev blockno b0) (\<lambda>hit.
     case hit of
       Some b \<Rightarrow>
         kthen (set_buf b (\<lambda>bf. bf\<lparr>b_refcnt := b_refcnt bf + 1\<rparr>)) (
         kthen (release LBcache) (
         kthen (acquiresleep (SBuf b))
         (kret b)))
     | None \<Rightarrow>
         kbind (kget (\<lambda>s. b_prev s bhead)) (\<lambda>b1.
         kbind (bget_unused (NBUF + 1) b1) (\<lambda>lru.
         case lru of
           Some b \<Rightarrow>
             kthen (set_buf b (\<lambda>bf. bf\<lparr>b_dev := dev, b_blockno := blockno,
                                        b_valid := False, b_refcnt := 1\<rparr>)) (
             kthen (release LBcache) (
             kthen (acquiresleep (SBuf b))
             (kret b)))
         | None \<Rightarrow> kpanic ''bget: no buffers'')))))"

definition disk_rw :: "nat \<Rightarrow> bool \<Rightarrow> ('a kbio_scheme, unit) op" where
  "disk_rw b wr =
     kbind (kget (\<lambda>s. bufs s ! b)) (\<lambda>bf.
     if wr then kmod (\<lambda>s. s\<lparr>disk := (disk s)(b_blockno bf := b_data bf),
                             dwrites := dwrites s @ [(b_blockno bf, b_data bf)]\<rparr>)
     else kbind (kget (\<lambda>s. disk s (b_blockno bf))) (\<lambda>d. set_buf b (\<lambda>x. x\<lparr>b_data := d\<rparr>)))"

definition bread :: "u32 \<Rightarrow> u32 \<Rightarrow> ('a kbio_scheme, nat) op" where
  "bread dev blockno =
     kbind (bget dev blockno) (\<lambda>b.
     kbind (kget (\<lambda>s. b_valid (bufs s ! b))) (\<lambda>v.
     kthen (kwhen (\<not> v) (
       kthen (disk_rw b False)
       (set_buf b (\<lambda>x. x\<lparr>b_valid := True\<rparr>))))
     (kret b)))"

definition bwrite :: "nat \<Rightarrow> ('a kbio_scheme, unit) op" where
  "bwrite b =
     kbind (holdingsleep (SBuf b)) (\<lambda>h.
     if \<not> h then kpanic ''bwrite'' else disk_rw b True)"

definition lru_move :: "nat \<Rightarrow> ('a kbio_scheme, unit) op" where
  "lru_move b =
     kthen (kmod (\<lambda>s. set_prev (b_next s b) (b_prev s b) s)) (
     kthen (kmod (\<lambda>s. set_next (b_prev s b) (b_next s b) s)) (
     kthen (kmod (\<lambda>s. set_next b (b_next s bhead) s)) (
     kthen (kmod (set_prev b bhead)) (
     kthen (kmod (\<lambda>s. set_prev (b_next s bhead) b s))
     (kmod (set_next bhead b))))))"

definition brelse :: "nat \<Rightarrow> ('a kbio_scheme, unit) op" where
  "brelse b =
     kbind (holdingsleep (SBuf b)) (\<lambda>h.
     if \<not> h then kpanic ''brelse'' else
     kthen (releasesleep (SBuf b)) (
     kthen (acquire LBcache) (
     kthen (set_buf b (\<lambda>bf. bf\<lparr>b_refcnt := b_refcnt bf - 1\<rparr>)) (
     kbind (kget (\<lambda>s. b_refcnt (bufs s ! b))) (\<lambda>r.
     kthen (kwhen (r = 0) (lru_move b))
     (release LBcache))))))"

definition bpin :: "nat \<Rightarrow> ('a kbio_scheme, unit) op" where
  "bpin b =
     kthen (acquire LBcache) (
     kthen (set_buf b (\<lambda>bf. bf\<lparr>b_refcnt := b_refcnt bf + 1\<rparr>))
     (release LBcache))"

definition bunpin :: "nat \<Rightarrow> ('a kbio_scheme, unit) op" where
  "bunpin b =
     kthen (acquire LBcache) (
     kthen (set_buf b (\<lambda>bf. bf\<lparr>b_refcnt := b_refcnt bf - 1\<rparr>))
     (release LBcache))"

text \<open>A client reads and changes \<^verbatim>\<open>b->data\<close> directly.\<close>

definition bdata :: "nat \<Rightarrow> ('a kbio_scheme, u8 list) op" where
  "bdata b = kget (\<lambda>s. b_data (bufs s ! b))"

definition set_bdata :: "nat \<Rightarrow> u8 list \<Rightarrow> ('a kbio_scheme, unit) op" where
  "set_bdata b d = set_buf b (\<lambda>bf. bf\<lparr>b_data := d\<rparr>)"

section \<open>The ring\<close>

text \<open>\<open>linked nx pv [a, b, c]\<close>: \<open>a\<close>'s next is \<open>b\<close> and \<open>b\<close>'s prev is \<open>a\<close>, and so on.\<close>

fun linked :: "(nat \<Rightarrow> nat) \<Rightarrow> (nat \<Rightarrow> nat) \<Rightarrow> nat list \<Rightarrow> bool" where
  "linked nx pv (a # b # xs) = (nx a = b \<and> pv b = a \<and> linked nx pv (b # xs))"
| "linked nx pv _ = True"

definition is_ring :: "(nat \<Rightarrow> nat) \<Rightarrow> (nat \<Rightarrow> nat) \<Rightarrow> nat list \<Rightarrow> bool" where
  "is_ring nx pv xs \<longleftrightarrow> distinct xs \<and> set xs = {..<NBUF} \<and> linked nx pv (bhead # xs @ [bhead])"

lemma linked_append:
  "linked nx pv (xs @ a # ys) \<longleftrightarrow> linked nx pv (xs @ [a]) \<and> linked nx pv (a # ys)"
  by (induction nx pv xs rule: linked.induct) (auto; cases ys; auto)+

lemma linked_upd:
  assumes "\<And>x. x \<in> set (butlast zs) \<Longrightarrow> nx' x = nx x" and "\<And>x. x \<in> set (tl zs) \<Longrightarrow> pv' x = pv x"
  shows "linked nx' pv' zs = linked nx pv zs"
  using assms by (induction nx pv zs rule: linked.induct) (auto split: if_splits)


lemma linked_unlink:
  assumes "linked nx pv (A @ x # b # y # C)"
    and "x \<notin> set A" and "x \<notin> set (butlast (y # C))" and "y \<notin> set (tl (A @ [x]))" and "y \<notin> set C"
  shows "linked (nx(x := y)) (pv(y := x)) (A @ x # y # C)"
proof -
  have "linked nx pv (A @ [x])" and "linked nx pv (y # C)"
    using assms(1) linked_append [of nx pv A x "b # y # C"] by auto
  moreover have "linked (nx(x := y)) (pv(y := x)) (A @ [x]) = linked nx pv (A @ [x])"
    by (rule linked_upd) (use assms in auto)
  moreover have "linked (nx(x := y)) (pv(y := x)) (y # C) = linked nx pv (y # C)"
    by (rule linked_upd) (use assms in auto)
  ultimately show ?thesis using linked_append [of "nx(x := y)" "pv(y := x)" A x "y # C"] by simp
qed

lemma linked_push:
  assumes "linked nx pv (h # z # D)" and "h \<notin> set (butlast (z # D))" and "z \<notin> set D"
    and "b \<notin> set (h # z # D)"
  shows "linked (nx(b := z, h := b)) (pv(b := h, z := b)) (h # b # z # D)"
proof -
  have nb: "b \<notin> set (butlast (z # D))" using assms(4) in_set_butlastD [of b "z # D"] by auto
  have "linked nx pv (z # D)" using assms(1) by simp
  moreover have "linked (nx(b := z, h := b)) (pv(b := h, z := b)) (z # D) = linked nx pv (z # D)"
    by (rule linked_upd) (use assms nb in \<open>auto simp del: butlast.simps\<close>)
  ultimately show ?thesis using assms by auto
qed

lemma ring_move:
  assumes "is_ring nx pv (ys @ b # zs)"
    and "pv1 = pv(nx b := pv b)" and "nx1 = nx(pv b := nx b)"
    and "nx' = nx1(b := nx1 bhead, bhead := b)" and "pv' = pv1(b := bhead, nx1 bhead := b)"
  shows "is_ring nx' pv' (b # ys @ zs)"
proof -
  let ?h = bhead
  define A where "A = butlast (?h # ys)"
  define x where "x = last (?h # ys)"
  define y where "y = hd (zs @ [?h])"
  define C where "C = tl (zs @ [?h])"
  have Ax: "?h # ys = A @ [x]" unfolding A_def x_def by (metis append_butlast_last_id list.discI)
  have yC: "zs @ [?h] = y # C" unfolding y_def C_def by simp
  have d: "distinct (ys @ b # zs)" "set (ys @ b # zs) = {..<NBUF}"
    using assms(1) unfolding is_ring_def by auto
  then have nh: "?h \<notin> set (ys @ b # zs)" by auto
  have lk: "linked nx pv (A @ x # b # y # C)"
    using assms(1) Ax yC unfolding is_ring_def by (metis append_Cons append_assoc append_Nil)
  have links: "nx b = y" "pv b = x"
    using lk linked_append [of nx pv A x "b # y # C"] by auto
  have dA: "distinct (A @ [x])" using d nh by (simp only: Ax [symmetric]) auto
  have dC: "distinct (y # C)" using d nh by (simp only: yC [symmetric]) auto
  have "x \<in> set (?h # ys)" by (simp only: Ax) simp
  moreover have "y \<in> set (zs @ [?h])" by (simp only: yC) simp
  moreover have "butlast (y # C) = zs" by (simp only: yC [symmetric]) simp
  moreover have "tl (A @ [x]) = ys" by (simp only: Ax [symmetric]) simp
  ultimately have "linked nx1 pv1 (A @ x # y # C)"
    unfolding assms(2,3) links by (intro linked_unlink [OF lk]) (use d nh dA dC in auto)
  then have l1: "linked nx1 pv1 (?h # (ys @ zs) @ [?h])" using Ax yC by (metis append_Cons append_assoc append_Nil)
  define z where "z = hd ((ys @ zs) @ [?h])"
  define D where "D = tl ((ys @ zs) @ [?h])"
  have zD: "(ys @ zs) @ [?h] = z # D" unfolding z_def D_def by simp
  have l2: "linked nx1 pv1 (?h # z # D)" using l1 zD by simp
  then have z: "nx1 ?h = z" by simp
  have dz: "distinct (z # D)" using d nh by (simp only: zD [symmetric]) auto
  have "butlast (z # D) = ys @ zs" by (metis zD butlast_snoc)
  moreover have "set (z # D) = set (ys @ zs @ [?h])" by (simp only: zD [symmetric]) simp
  ultimately have "linked (nx1(b := z, ?h := b)) (pv1(b := ?h, z := b)) (?h # b # z # D)"
    by (intro linked_push [OF l2]) (use d nh dz in auto)
  then have "linked nx' pv' (?h # b # z # D)" by (simp only: assms(4,5) z)
  then have "linked nx' pv' (?h # (b # ys @ zs) @ [?h])" by (simp only: zD append_Cons)
  then show ?thesis using d unfolding is_ring_def by auto
qed

lemma lru_move_run:
  "lru_move b s = (let pv1 = (b_prev s)(b_next s b := b_prev s b);
                       nx1 = (b_next s)(pv1 b := b_next s b);
                       nx2 = nx1(b := nx1 bhead); pv2 = pv1(b := bhead)
                   in Ok () (s\<lparr>b_next := nx2(bhead := b), b_prev := pv2(nx2 bhead := b)\<rparr>))"
  by (simp add: lru_move_def set_next_def set_prev_def run_kthen kbind_def Let_def)

lemma lru_move_ring:
  assumes "is_ring (b_next s) (b_prev s) (ys @ b # zs)"
  shows "\<exists>nx pv. lru_move b s = Ok () (s\<lparr>b_next := nx, b_prev := pv\<rparr>) \<and> is_ring nx pv (b # ys @ zs)"
proof -
  have d: "distinct (ys @ b # zs)" "set (ys @ b # zs) = {..<NBUF}"
    and lk: "linked (b_next s) (b_prev s) ((bhead # ys) @ b # zs @ [bhead])"
    using assms unfolding is_ring_def by auto
  then have nh: "b \<noteq> bhead" by auto
  have "b_next s b = hd (zs @ [bhead])"
    using lk linked_append [of "b_next s" "b_prev s" "bhead # ys" b "zs @ [bhead]"]
    by (cases zs) auto
  then have nb: "b_next s b \<noteq> b" using d nh by (cases zs) auto
  define nx1 where "nx1 = (b_next s)(b_prev s b := b_next s b)"
  define pv1 where "pv1 = (b_prev s)(b_next s b := b_prev s b)"
  have "lru_move b s = Ok () (s\<lparr>b_next := nx1(b := nx1 bhead, bhead := b),
                               b_prev := pv1(b := bhead, nx1 bhead := b)\<rparr>)"
    using nh nb by (simp add: lru_move_run Let_def nx1_def pv1_def)
  then show ?thesis using ring_move [OF assms pv1_def nx1_def refl refl] by blast
qed

lemma find_SomeD: "find P xs = Some x \<Longrightarrow> x \<in> set xs \<and> P x"
  by (induction xs) (auto split: if_splits)

lemma bget_cached_find:
  assumes "linked (b_next s) pv (zs @ [bhead])" and "bhead \<notin> set zs" and "length zs < k"
  shows "bget_cached k dev bn (hd (zs @ [bhead])) s =
    Ok (find (\<lambda>i. b_dev (bufs s ! i) = dev \<and> b_blockno (bufs s ! i) = bn) zs) s"
  using assms
proof (induction zs arbitrary: k)
  case Nil
  then show ?case by (cases k) auto
next
  case (Cons z zs)
  then obtain k' where k: "k = Suc k'" by (cases k) auto
  have "b_next s z = hd (zs @ [bhead])" using Cons.prems(1) by (cases zs) auto
  moreover have "linked (b_next s) pv (zs @ [bhead])" using Cons.prems(1) by (cases zs) auto
  ultimately show ?case using Cons.IH [of k'] Cons.prems k by (auto simp: run_kbind)
qed

lemma bget_unused_find:
  assumes "linked nx (b_prev s) (bhead # zs)" and "bhead \<notin> set zs" and "length zs < k"
  shows "bget_unused k (last (bhead # zs)) s = Ok (find (\<lambda>i. b_refcnt (bufs s ! i) = 0) (rev zs)) s"
  using assms
proof (induction zs arbitrary: k rule: rev_induct)
  case Nil
  then show ?case by (cases k) auto
next
  case (snoc z zs)
  then obtain k' where k: "k = Suc k'" by (cases k) auto
  obtain ys y where y: "bhead # zs = ys @ [y]" by (metis list.discI rev_exhaust)
  have "linked nx (b_prev s) (ys @ y # [z])" using snoc.prems(1) y by (metis append_Cons append_assoc append_Nil)
  then have "b_prev s z = last (bhead # zs)" and "linked nx (b_prev s) (bhead # zs)"
    using linked_append [of nx "b_prev s" ys y "[z]"] y by auto
  then show ?case using snoc.IH [of k'] snoc.prems k by (auto simp: run_kbind)
qed

lemma ring_cached:
  assumes "is_ring (b_next s) (b_prev s) xs"
  shows "bget_cached (NBUF + 1) dev bn (b_next s bhead) s =
    Ok (find (\<lambda>i. b_dev (bufs s ! i) = dev \<and> b_blockno (bufs s ! i) = bn) xs) s"
proof -
  have *: "bhead \<notin> set xs" "length xs = NBUF" "linked (b_next s) (b_prev s) (bhead # xs @ [bhead])"
    using assms distinct_card [of xs] unfolding is_ring_def by auto
  then have "b_next s bhead = hd (xs @ [bhead])" "linked (b_next s) (b_prev s) (xs @ [bhead])"
    by (cases xs; auto)+
  with * show ?thesis using bget_cached_find [of s "b_prev s" xs "NBUF + 1"] by simp
qed

lemma ring_unused:
  assumes "is_ring (b_next s) (b_prev s) xs"
  shows "bget_unused (NBUF + 1) (b_prev s bhead) s =
    Ok (find (\<lambda>i. b_refcnt (bufs s ! i) = 0) (rev xs)) s"
proof -
  have *: "bhead \<notin> set xs" "length xs = NBUF" "linked (b_next s) (b_prev s) (bhead # xs @ [bhead])"
    using assms distinct_card [of xs] unfolding is_ring_def by auto
  obtain ys y where y: "bhead # xs = ys @ [y]" by (metis list.discI rev_exhaust)
  then have "linked (b_next s) (b_prev s) (ys @ y # [bhead])" using *(3) by (metis append_Cons append_assoc append_Nil)
  then have "b_prev s bhead = last (bhead # xs)" and "linked (b_next s) (b_prev s) (bhead # xs)"
    using linked_append [of "b_next s" "b_prev s" ys y "[bhead]"] y by auto
  with * show ?thesis using bget_unused_find [of "b_next s" s xs "NBUF + 1"] by simp
qed

lemma binit_one_run:
  assumes "b \<noteq> bhead"
  shows "binit_one b s = Ok () (s\<lparr>b_next := (b_next s)(b := b_next s bhead, bhead := b),
      b_prev := (b_prev s)(b := bhead, b_next s bhead := b),
      slocks := (slocks s)(SBuf b := \<lparr>slk_locked = False, slk_pid = 0\<rparr>)\<rparr>)"
  using assms by (simp add: binit_one_def set_next_def set_prev_def initsleeplock_def run_simps)

lemma binit_loop:
  assumes "n \<le> NBUF" and "b_next s bhead = bhead" and "b_prev s bhead = bhead"
  shows "\<exists>nx pv sl. kfor [0..<n] binit_one s = Ok () (s\<lparr>b_next := nx, b_prev := pv, slocks := sl\<rparr>)
    \<and> linked nx pv (bhead # rev [0..<n] @ [bhead])
    \<and> (\<forall>i<n. \<not> slk_locked (sl (SBuf i))) \<and> (\<forall>l. (\<forall>i. l \<noteq> SBuf i) \<longrightarrow> sl l = slocks s l)"
  using assms(1)
proof (induction n)
  case 0
  show ?case
    by (rule exI [of _ "b_next s"], rule exI [of _ "b_prev s"], rule exI [of _ "slocks s"]) (use assms in simp)
next
  case (Suc n)
  then obtain nx pv sl where IH: "kfor [0..<n] binit_one s = Ok () (s\<lparr>b_next := nx, b_prev := pv, slocks := sl\<rparr>)"
      "linked nx pv (bhead # rev [0..<n] @ [bhead])" "\<forall>i<n. \<not> slk_locked (sl (SBuf i))"
      "\<forall>l. (\<forall>i. l \<noteq> SBuf i) \<longrightarrow> sl l = slocks s l"
    by auto
  obtain z D where zD: "rev [0..<n] @ [bhead] = z # D" by (cases "rev [0..<n] @ [bhead]") auto
  have z: "nx bhead = z" using IH(2) zD by simp
  have dz: "distinct (z # D)" and bl: "butlast (z # D) = rev [0..<n]" and st: "set (z # D) = insert bhead {..<n}"
    using Suc.prems by (simp only: zD [symmetric]; auto simp: butlast_append)+
  have k: "linked (nx(n := z, bhead := n)) (pv(n := bhead, z := n)) (bhead # n # z # D)"
    by (rule linked_push) (use IH(2) zD dz bl st Suc.prems in auto)
  have e: "rev [0..<Suc n] @ [bhead] = n # z # D" using zD by simp
  define nx' where "nx' = nx(n := nx bhead, bhead := n)"
  define pv' where "pv' = pv(n := bhead, nx bhead := n)"
  define sl' where "sl' = sl(SBuf n := \<lparr>slk_locked = False, slk_pid = 0\<rparr>)"
  have l: "linked nx' pv' (bhead # rev [0..<Suc n] @ [bhead])"
    unfolding e nx'_def pv'_def z by (rule k)
  have "kfor [0..<Suc n] binit_one s = binit_one n (s\<lparr>b_next := nx, b_prev := pv, slocks := sl\<rparr>)"
    using IH(1) by (simp add: kfor_append kthen_Ok run_kthen run_kbind split: out.splits)
  then have r: "kfor [0..<Suc n] binit_one s = Ok () (s\<lparr>b_next := nx', b_prev := pv', slocks := sl'\<rparr>)"
    using binit_one_run [of n "s\<lparr>b_next := nx, b_prev := pv, slocks := sl\<rparr>"] Suc.prems
    by (simp add: nx'_def pv'_def sl'_def)
  have "\<forall>i<Suc n. \<not> slk_locked (sl' (SBuf i))" "\<forall>l. (\<forall>i. l \<noteq> SBuf i) \<longrightarrow> sl' l = slocks s l"
    using IH(3,4) by (simp_all add: less_Suc_eq sl'_def)
  with l r show ?case by blast
qed

section \<open>The invariant and the view of a client\<close>

text \<open>
  One buffer: its data has the size of a block; it belongs to no block yet or to a block of the
  root device; unused it agrees with the disk; a locked buffer is in use.
\<close>

definition buf_ok :: "(u32 \<Rightarrow> u8 list) \<Rightarrow> bool \<Rightarrow> buf \<Rightarrow> bool" where
  "buf_ok d locked bf \<longleftrightarrow>
     length (b_data bf) = BSIZE \<and>
     (b_dev bf = 0 \<and> \<not> b_valid bf \<and> b_refcnt bf = 0 \<or> b_dev bf = ROOTDEV) \<and>
     (b_valid bf \<and> b_refcnt bf = 0 \<longrightarrow> b_data bf = d (b_blockno bf)) \<and>
     (locked \<longrightarrow> b_refcnt bf \<noteq> 0)"

definition caches :: "'a kbio_scheme \<Rightarrow> nat \<Rightarrow> u32 \<Rightarrow> bool" where
  "caches s i n \<longleftrightarrow> i < NBUF \<and> b_dev (bufs s ! i) = ROOTDEV \<and> b_blockno (bufs s ! i) = n"

definition bio_inv :: "'a kbio_scheme \<Rightarrow> bool" where
  "bio_inv s \<longleftrightarrow>
     (\<exists>xs. is_ring (b_next s) (b_prev s) xs) \<and>
     length (bufs s) = NBUF \<and>
     (\<forall>n. length (disk s n) = BSIZE) \<and>
     (\<forall>i<NBUF. buf_ok (disk s) (slk_locked (slocks s (SBuf i))) (bufs s ! i)) \<and>
     (\<forall>i j n. caches s i n \<longrightarrow> caches s j n \<longrightarrow> i = j)"

text \<open>The state in which a process calls the cache: no lock the cache takes is held.\<close>

definition bio_ctx :: "'a kcore_scheme \<Rightarrow> bool" where
  "bio_ctx s \<longleftrightarrow> (\<exists>p<NPROC. curproc s = Some p) \<and> length (procs s) = NPROC \<and>
     LBcache \<notin> set (held s) \<and> (\<forall>i. LProc i \<notin> set (held s)) \<and> (\<forall>l. LSleep l \<notin> set (held s))"

definition bio_ok :: "'a kbio_scheme \<Rightarrow> bool" where
  "bio_ok s \<longleftrightarrow> bio_inv s \<and> bio_ctx s"

text \<open>What a client sees of block \<open>n\<close>.\<close>

definition slot :: "'a kbio_scheme \<Rightarrow> u32 \<Rightarrow> nat option" where
  "slot s n = find (\<lambda>i. b_dev (bufs s ! i) = ROOTDEV \<and> b_blockno (bufs s ! i) = n) [0..<NBUF]"

definition view :: "'a kbio_scheme \<Rightarrow> u32 \<Rightarrow> u8 list" where
  "view s n = (case slot s n of None \<Rightarrow> disk s n
                | Some i \<Rightarrow> if b_valid (bufs s ! i) then b_data (bufs s ! i) else disk s n)"

definition pin :: "'a kbio_scheme \<Rightarrow> u32 \<Rightarrow> nat" where
  "pin s n = (case slot s n of None \<Rightarrow> 0 | Some i \<Rightarrow> unat (b_refcnt (bufs s ! i)))"

definition lkd :: "'a kbio_scheme \<Rightarrow> u32 \<Rightarrow> bool" where
  "lkd s n = (case slot s n of None \<Rightarrow> False | Some i \<Rightarrow> slk_locked (slocks s (SBuf i)))"

definition own :: "'a kbio_scheme \<Rightarrow> nat \<Rightarrow> u32 option" where
  "own s b = (if b < NBUF \<and> b_dev (bufs s ! b) = ROOTDEV \<and> b_valid (bufs s ! b) \<and>
                 slk_locked (slocks s (SBuf b)) \<and> slk_pid (slocks s (SBuf b)) = mypid s
              then Some (b_blockno (bufs s ! b)) else None)"

text \<open>The abstract cache: an array of blocks above a disk.\<close>

record bcache_abs =
  a_view :: "u32 \<Rightarrow> u8 list"
  a_pin :: "u32 \<Rightarrow> nat"
  a_lkd :: "u32 \<Rightarrow> bool"
  a_own :: "nat \<Rightarrow> u32 option"
  a_disk :: "u32 \<Rightarrow> u8 list"
  a_writes :: "(u32 \<times> u8 list) list"

definition bio_abs :: "'a kbio_scheme \<Rightarrow> bcache_abs" where
  "bio_abs s = \<lparr>a_view = view s, a_pin = pin s, a_lkd = lkd s, a_own = own s,
                a_disk = disk s, a_writes = dwrites s\<rparr>"

definition abs_bread :: "nat \<Rightarrow> u32 \<Rightarrow> bcache_abs \<Rightarrow> bcache_abs" where
  "abs_bread b n a = a\<lparr>a_pin := (a_pin a)(n := a_pin a n + 1), a_lkd := (a_lkd a)(n := True),
                      a_own := (a_own a)(b := Some n)\<rparr>"

definition abs_bwrite :: "nat \<Rightarrow> bcache_abs \<Rightarrow> bcache_abs" where
  "abs_bwrite b a = (case a_own a b of None \<Rightarrow> a
     | Some n \<Rightarrow> a\<lparr>a_disk := (a_disk a)(n := a_view a n), a_writes := a_writes a @ [(n, a_view a n)]\<rparr>)"

definition abs_set :: "nat \<Rightarrow> u8 list \<Rightarrow> bcache_abs \<Rightarrow> bcache_abs" where
  "abs_set b d a = (case a_own a b of None \<Rightarrow> a | Some n \<Rightarrow> a\<lparr>a_view := (a_view a)(n := d)\<rparr>)"

definition abs_brelse :: "nat \<Rightarrow> bcache_abs \<Rightarrow> bcache_abs" where
  "abs_brelse b a = (case a_own a b of None \<Rightarrow> a
     | Some n \<Rightarrow> a\<lparr>a_pin := (a_pin a)(n := a_pin a n - 1), a_lkd := (a_lkd a)(n := False),
                  a_own := (a_own a)(b := None)\<rparr>)"

definition abs_bpin :: "nat \<Rightarrow> bcache_abs \<Rightarrow> bcache_abs" where
  "abs_bpin b a = (case a_own a b of None \<Rightarrow> a
     | Some n \<Rightarrow> a\<lparr>a_pin := (a_pin a)(n := a_pin a n + 1)\<rparr>)"

definition abs_bunpin :: "nat \<Rightarrow> bcache_abs \<Rightarrow> bcache_abs" where
  "abs_bunpin b a = (case a_own a b of None \<Rightarrow> a
     | Some n \<Rightarrow> a\<lparr>a_pin := (a_pin a)(n := a_pin a n - 1)\<rparr>)"

text \<open>The rest of the kernel's state, which the cache leaves alone.\<close>

definition only_woken :: "proc list \<Rightarrow> proc list \<Rightarrow> bool" where
  "only_woken ps qs \<longleftrightarrow> list_all2 (\<lambda>p q. q = p \<or> p_state p = SLEEPING \<and> q = p\<lparr>p_state := RUNNABLE\<rparr>) ps qs"

definition bio_frame :: "'a kbio_scheme \<Rightarrow> 'a kbio_scheme \<Rightarrow> bool" where
  "bio_frame s t \<longleftrightarrow> held t = held s \<and> only_woken (procs s) (procs t) \<and> curproc t = curproc s \<and>
     nextpid t = nextpid s \<and> initproc t = initproc s \<and>
     (\<forall>i. slocks t (SInode i) = slocks s (SInode i)) \<and>
     mem t = mem s \<and> freelist t = freelist s \<and> ld t = ld s \<and>
     kernel_pagetable t = kernel_pagetable s \<and> satp t = satp s \<and> kbio.more t = kbio.more s"

section \<open>Slots\<close>

lemma bio_invD:
  assumes "bio_inv s"
  shows "length (bufs s) = NBUF" and "length (disk s n) = BSIZE"
    and "i < NBUF \<Longrightarrow> buf_ok (disk s) (slk_locked (slocks s (SBuf i))) (bufs s ! i)"
    and "caches s i n \<Longrightarrow> caches s j n \<Longrightarrow> i = j"
  using assms unfolding bio_inv_def by auto

lemma slot_Some:
  assumes "bio_inv s"
  shows "slot s n = Some i \<longleftrightarrow> caches s i n"
proof
  assume "slot s n = Some i"
  then show "caches s i n" by (auto simp: slot_def caches_def find_Some_iff)
next
  assume c: "caches s i n"
  then have "slot s n \<noteq> None" by (auto simp: slot_def caches_def find_None_iff)
  then obtain j where j: "slot s n = Some j" by auto
  then have "caches s j n" by (auto simp: slot_def caches_def find_Some_iff)
  with j bio_invD(4) [OF assms c] show "slot s n = Some i" by simp
qed

lemma slot_None: "slot s n = None \<longleftrightarrow> (\<forall>i. \<not> caches s i n)"
  by (auto simp: slot_def caches_def find_None_iff)

lemma ring_slot:
  assumes "bio_inv s" and "is_ring (b_next s) (b_prev s) xs"
  shows "find (\<lambda>i. b_dev (bufs s ! i) = ROOTDEV \<and> b_blockno (bufs s ! i) = n) xs = slot s n" (is "?f = _")
proof (cases ?f)
  case None
  then have "\<forall>i. \<not> caches s i n"
    using assms(2) by (auto simp: find_None_iff caches_def is_ring_def)
  then show ?thesis using None slot_None [of s n] by simp
next
  case (Some i)
  then have "i \<in> set xs \<and> b_dev (bufs s ! i) = ROOTDEV \<and> b_blockno (bufs s ! i) = n"
    by (auto simp: find_Some_iff)
  then have "caches s i n" using assms(2) by (auto simp: caches_def is_ring_def)
  then show ?thesis using Some slot_Some [OF assms(1), of n i] by simp
qed

text \<open>An operation on the buffer \<open>b\<close> that caches block \<open>n\<close>.\<close>

lemma caches_upd:
  assumes "length (bufs s) = NBUF" and "caches s b n" and "bufs t = (bufs s)[b := bf]"
    and "b_dev bf = ROOTDEV" and "b_blockno bf = n"
  shows "caches t i m \<longleftrightarrow> caches s i m"
  using assms by (cases "i = b") (auto simp: caches_def)

lemma abs_upd:
  assumes inv: "bio_inv s" and c: "caches s b n" and bt: "bufs t = (bufs s)[b := bf]"
    and bf: "b_dev bf = ROOTDEV" "b_blockno bf = n"
    and dk: "\<And>m. m \<noteq> n \<Longrightarrow> disk t m = disk s m"
    and sl: "\<And>i. i \<noteq> b \<Longrightarrow> slocks t (SBuf i) = slocks s (SBuf i)"
    and mp: "mypid t = mypid s"
    and inv': "bio_inv t"
  shows "view t = (view s)(n := if b_valid bf then b_data bf else disk t n)"
    and "pin t = (pin s)(n := unat (b_refcnt bf))"
    and "lkd t = (lkd s)(n := slk_locked (slocks t (SBuf b)))"
    and "own t = (own s)(b := if b_valid bf \<and> slk_locked (slocks t (SBuf b)) \<and>
                                 slk_pid (slocks t (SBuf b)) = mypid s then Some n else None)"
proof -
  have len: "length (bufs s) = NBUF" and bN: "b < NBUF" using inv c by (auto simp: bio_inv_def caches_def)
  have cu: "caches t i m \<longleftrightarrow> caches s i m" for i m by (rule caches_upd [OF len c bt bf])
  have st: "slot t m = slot s m" for m
  proof (cases "slot s m")
    case None
    then show ?thesis using cu slot_None [of s m] slot_None [of t m] by simp
  next
    case (Some i)
    then show ?thesis using cu slot_Some [OF inv, of m i] slot_Some [OF inv', of m i] by simp
  qed
  have sn: "slot s n = Some b" using slot_Some [OF inv] c by simp
  have other: "i \<noteq> b" if "slot s m = Some i" "m \<noteq> n" for i m
    using that slot_Some [OF inv] c by (auto simp: caches_def)
  have at: "bufs t ! b = bf" "\<And>i. i \<noteq> b \<Longrightarrow> bufs t ! i = bufs s ! i" using bt len bN by auto
  show "view t = (view s)(n := if b_valid bf then b_data bf else disk t n)"
    using sn at dk by (auto simp: view_def st fun_eq_iff split: option.splits dest: other)
  show "pin t = (pin s)(n := unat (b_refcnt bf))"
    using sn at by (auto simp: pin_def st fun_eq_iff split: option.splits dest: other)
  show "lkd t = (lkd s)(n := slk_locked (slocks t (SBuf b)))"
    using sn sl by (auto simp: lkd_def st fun_eq_iff split: option.splits dest: other)
  show "own t = (own s)(b := if b_valid bf \<and> slk_locked (slocks t (SBuf b)) \<and>
                                 slk_pid (slocks t (SBuf b)) = mypid s then Some n else None)"
    using bN at sl bf mp by (auto simp: own_def fun_eq_iff)
qed

lemma inv_upd:
  assumes inv: "bio_inv s" and c: "caches s b n" and bt: "bufs t = (bufs s)[b := bf]"
    and bf: "b_dev bf = ROOTDEV" "b_blockno bf = n"
    and dk: "\<And>m. m \<noteq> n \<Longrightarrow> disk t m = disk s m" and dn: "length (disk t n) = BSIZE"
    and sl: "\<And>i. i \<noteq> b \<Longrightarrow> slocks t (SBuf i) = slocks s (SBuf i)"
    and ok: "buf_ok (disk t) (slk_locked (slocks t (SBuf b))) bf"
    and ring: "\<exists>xs. is_ring (b_next t) (b_prev t) xs"
  shows "bio_inv t"
proof -
  have len: "length (bufs s) = NBUF" and bN: "b < NBUF" using inv c by (auto simp: bio_inv_def caches_def)
  have cu: "caches t i m \<longleftrightarrow> caches s i m" for i m by (rule caches_upd [OF len c bt bf])
  have "buf_ok (disk t) (slk_locked (slocks t (SBuf i))) (bufs t ! i)" if i: "i < NBUF" for i
  proof (cases "i = b")
    case True
    then show ?thesis using ok bt len bN by simp
  next
    case False
    then have "\<not> caches s i n" using bio_invD(4) [OF inv c] by auto
    then show ?thesis using False bio_invD(3) [OF inv i] i bt dk sl
      by (auto simp: buf_ok_def caches_def)
  qed
  moreover have "length (disk t m) = BSIZE" for m using dk dn bio_invD(2) [OF inv] by metis
  ultimately show ?thesis
    unfolding bio_inv_def using ring len bt cu bio_invD(4) [OF inv] by auto
qed

text \<open>Reusing an unused buffer changes nothing a client can see but the reference it takes.\<close>

lemma evict:
  assumes inv: "bio_inv s" and b: "b < NBUF" "b_refcnt (bufs s ! b) = 0" and n: "slot s n = None"
    and t: "t = s\<lparr>bufs := (bufs s)[b := (bufs s ! b)\<lparr>b_dev := ROOTDEV, b_blockno := n,
                                     b_valid := False, b_refcnt := 1\<rparr>]\<rparr>"
  shows "bio_inv t" and "caches t b n" and "view t = view s" and "pin t = (pin s)(n := 1)"
    and "lkd t = lkd s" and "own t = own s"
proof -
  have len: "length (bufs s) = NBUF" and okb: "buf_ok (disk s) (slk_locked (slocks s (SBuf b))) (bufs s ! b)"
    using inv b by (auto simp: bio_inv_def)
  then have unl: "\<not> slk_locked (slocks s (SBuf b))" using b by (auto simp: buf_ok_def)
  have nn: "\<not> caches s i n" for i using n slot_None by blast
  have ct: "caches t i m \<longleftrightarrow> (if i = b then m = n else caches s i m)" for i m
    using b len by (auto simp: t caches_def)
  show inv': "bio_inv t"
    unfolding bio_inv_def
  proof (intro conjI allI impI)
    show "\<exists>xs. is_ring (b_next t) (b_prev t) xs" "length (bufs t) = NBUF" "length (disk t m) = BSIZE" for m
      using inv by (auto simp: t bio_inv_def)
    show "buf_ok (disk t) (slk_locked (slocks t (SBuf i))) (bufs t ! i)" if "i < NBUF" for i
      using bio_invD(3) [OF inv that] okb that len by (cases "i = b") (auto simp: t buf_ok_def)
    show "i = j" if "caches t i m" "caches t j m" for i j m
      using that nn bio_invD(4) [OF inv] by (auto simp: ct split: if_splits)
  qed
  show "caches t b n" by (simp add: ct)
  have st: "slot t m = (if m = n then Some b else if slot s m = Some b then None else slot s m)" for m
  proof (cases "slot s m")
    case None
    then have ns: "\<not> caches s i m" for i using slot_None [of s m] by simp
    show ?thesis
    proof (cases "m = n")
      case True
      then show ?thesis using slot_Some [OF inv', of m b] by (simp add: ct)
    next
      case False
      then have "\<forall>i. \<not> caches t i m" using ns by (simp add: ct)
      then show ?thesis using None False slot_None [of t m] by simp
    qed
  next
    case (Some i)
    then have i: "caches s i m" using slot_Some [OF inv] by simp
    then have mn: "m \<noteq> n" using nn by auto
    show ?thesis
    proof (cases "i = b")
      case True
      then have "\<not> caches t j m" for j using mn bio_invD(4) [OF inv i, of j] by (cases "j = b") (auto simp: ct)
      then show ?thesis using Some True mn slot_None [of t m] by simp
    next
      case False
      then show ?thesis using Some mn i slot_Some [OF inv', of m i] by (simp add: ct)
    qed
  qed
  have at: "\<And>i. i \<noteq> b \<Longrightarrow> bufs t ! i = bufs s ! i" "\<not> b_valid (bufs t ! b)" "b_refcnt (bufs t ! b) = 1"
    "slocks t = slocks s" "disk t = disk s" "mypid t = mypid s"
    using len b by (auto simp: t mypid_def split: option.split)
  have old: "b_valid (bufs s ! b) \<Longrightarrow> slot s m = Some b \<Longrightarrow> b_data (bufs s ! b) = disk s m" for m
    using okb b slot_Some [OF inv, of m b] by (auto simp: buf_ok_def caches_def)
  show "view t = view s"
  proof
    fix m
    consider "m = n" | "m \<noteq> n" "slot s m = Some b" | "m \<noteq> n" "slot s m \<noteq> Some b" by blast
    then show "view t m = view s m"
      by cases (use at n old in \<open>auto simp: view_def st split: option.split\<close>)
  qed
  show "pin t = (pin s)(n := 1)"
  proof
    fix m
    consider "m = n" | "m \<noteq> n" "slot s m = Some b" | "m \<noteq> n" "slot s m \<noteq> Some b" by blast
    then show "pin t m = ((pin s)(n := 1)) m"
      by cases (use at n b in \<open>auto simp: pin_def st split: option.split\<close>)
  qed
  show "lkd t = lkd s"
  proof
    fix m
    consider "m = n" | "m \<noteq> n" "slot s m = Some b" | "m \<noteq> n" "slot s m \<noteq> Some b" by blast
    then show "lkd t m = lkd s m"
      by cases (use at n unl in \<open>auto simp: lkd_def st split: option.split\<close>)
  qed
  show "own t = own s"
  proof
    show "own t x = own s x" for x by (cases "x = b") (use at unl in \<open>auto simp: own_def\<close>)
  qed
qed

section \<open>What the operations do\<close>

lemma only_woken_refl [simp]: "only_woken ps ps"
  by (simp add: only_woken_def list_all2_refl)

lemma only_woken_trans: "only_woken ps qs \<Longrightarrow> only_woken qs rs \<Longrightarrow> only_woken ps rs"
  unfolding only_woken_def by (rule list_all2_trans) auto

lemma only_woken_woken: "only_woken ps (woken ch me ps)"
  by (auto simp: only_woken_def list_all2_conv_all_nth nth_woken wakeup_proc_def)

lemma only_woken_length: "only_woken ps qs \<Longrightarrow> length qs = length ps"
  by (simp add: only_woken_def list_all2_lengthD)

lemma only_woken_pid: "only_woken ps qs \<Longrightarrow> p < length ps \<Longrightarrow> p_pid (qs ! p) = p_pid (ps ! p)"
  by (auto simp: only_woken_def list_all2_conv_all_nth)

lemma bio_frame_refl [simp]: "bio_frame s s"
  by (simp add: bio_frame_def)

lemma bio_frame_trans: "bio_frame s t \<Longrightarrow> bio_frame t u \<Longrightarrow> bio_frame s u"
  by (auto simp: bio_frame_def intro: only_woken_trans)

lemma bio_frame_ctx: "bio_frame s t \<Longrightarrow> bio_ctx s \<Longrightarrow> bio_ctx t"
  using only_woken_length [of "procs s" "procs t"] by (simp add: bio_frame_def bio_ctx_def)

lemma bio_frame_mypid: "bio_frame s t \<Longrightarrow> bio_ctx s \<Longrightarrow> mypid t = mypid s"
  using only_woken_pid [of "procs s" "procs t"] by (auto simp: bio_frame_def bio_ctx_def mypid_def)

lemma own_caches: "own s b = Some n \<Longrightarrow> caches s b n"
  by (auto simp: own_def caches_def split: if_splits)

lemma ownD:
  assumes "own s b = Some n"
  shows "b < NBUF" and "b_valid (bufs s ! b)" and "b_dev (bufs s ! b) = ROOTDEV" and "b_blockno (bufs s ! b) = n"
    and "slk_locked (slocks s (SBuf b))" and "slk_pid (slocks s (SBuf b)) = mypid s"
  using assms by (auto simp: own_def split: if_splits)

lemma own_view:
  assumes "bio_inv s" and "own s b = Some n"
  shows "view s n = b_data (bufs s ! b)" and "pin s n = unat (b_refcnt (bufs s ! b))" and "lkd s n"
    and "pin s n \<noteq> 0"
proof -
  have "slot s n = Some b" using slot_Some [OF assms(1)] own_caches [OF assms(2)] by simp
  then show "view s n = b_data (bufs s ! b)" "pin s n = unat (b_refcnt (bufs s ! b))" "lkd s n"
    using ownD [OF assms(2)] by (auto simp: view_def pin_def lkd_def)
  show "pin s n \<noteq> 0"
    using bio_invD(3) [OF assms(1) ownD(1) [OF assms(2)]] ownD(5) [OF assms(2)]
      \<open>pin s n = unat (b_refcnt (bufs s ! b))\<close> by (auto simp: buf_ok_def unat_eq_0)
qed

lemma bget_hit:
  assumes "bio_ok s" and "slot s n = Some b" and "\<not> lkd s n"
  shows "bget ROOTDEV n s = Ok b (s\<lparr>bufs := (bufs s)[b := (bufs s ! b)\<lparr>b_refcnt := b_refcnt (bufs s ! b) + 1\<rparr>],
            slocks := (slocks s)(SBuf b := \<lparr>slk_locked = True, slk_pid = mypid s\<rparr>)\<rparr>)"
proof -
  obtain xs p where xs: "is_ring (b_next s) (b_prev s) xs" and p: "curproc s = Some p"
    and h: "LBcache \<notin> set (held s)" "LSleep (SBuf b) \<notin> set (held s)"
    using assms(1) by (auto simp: bio_ok_def bio_inv_def bio_ctx_def)
  have c: "bget_cached (NBUF + 1) ROOTDEV n (b_next s bhead) (s\<lparr>held := LBcache # held s\<rparr>) =
      Ok (Some b) (s\<lparr>held := LBcache # held s\<rparr>)"
    using ring_cached [of "s\<lparr>held := LBcache # held s\<rparr>" xs ROOTDEV n] xs
      ring_slot [OF _ xs, of n] assms by (simp add: bio_ok_def)
  have "\<not> slk_locked (slocks s (SBuf b))" using assms by (simp add: lkd_def)
  then show ?thesis
    using h p c by (simp add: bget_def run_kthen run_kbind acquire_Ok release_Ok set_buf_def
        acquiresleep_Ok mypid_def del: bget_cached.simps)
qed

lemma bget_miss:
  assumes "bio_ok s" and "slot s n = None" and "is_ring (b_next s) (b_prev s) xs"
    and "find (\<lambda>i. b_refcnt (bufs s ! i) = 0) (rev xs) = Some b"
  shows "bget ROOTDEV n s = Ok b (s\<lparr>bufs := (bufs s)[b := (bufs s ! b)\<lparr>b_dev := ROOTDEV, b_blockno := n,
               b_valid := False, b_refcnt := 1\<rparr>],
            slocks := (slocks s)(SBuf b := \<lparr>slk_locked = True, slk_pid = mypid s\<rparr>)\<rparr>)"
proof -
  let ?s1 = "s\<lparr>held := LBcache # held s\<rparr>"
  obtain p where p: "curproc s = Some p" and h: "LBcache \<notin> set (held s)" "LSleep (SBuf b) \<notin> set (held s)"
    using assms(1) by (auto simp: bio_ok_def bio_ctx_def)
  have c: "bget_cached (NBUF + 1) ROOTDEV n (b_next s bhead) ?s1 = Ok None ?s1"
    using ring_cached [of ?s1 xs ROOTDEV n] ring_slot [OF _ assms(3), of n] assms by (simp add: bio_ok_def)
  have u: "bget_unused (NBUF + 1) (b_prev s bhead) ?s1 = Ok (Some b) ?s1"
    using ring_unused [of ?s1 xs] assms by simp
  have "b \<in> set xs" "b_refcnt (bufs s ! b) = 0" using assms(4) by (auto dest: find_SomeD)
  then have "b < NBUF" using assms(3) by (auto simp: is_ring_def)
  then have "\<not> slk_locked (slocks s (SBuf b))"
    using bio_invD(3) [of s b] \<open>b_refcnt (bufs s ! b) = 0\<close> assms(1) by (auto simp: bio_ok_def buf_ok_def)
  then show ?thesis
    using h p c u by (simp add: bget_def run_kthen run_kbind acquire_Ok release_Ok set_buf_def
        acquiresleep_Ok mypid_def del: bget_cached.simps bget_unused.simps)
qed

text \<open>With every buffer in use, a block that is not cached makes \<^verbatim>\<open>bget\<close> panic.\<close>

lemma bget_full:
  assumes "bio_ok s" and "slot s n = None" and "\<forall>i<NBUF. b_refcnt (bufs s ! i) \<noteq> 0"
  shows "bget ROOTDEV n s = Panic ''bget: no buffers''"
proof -
  let ?s1 = "s\<lparr>held := LBcache # held s\<rparr>"
  obtain xs where xs: "is_ring (b_next s) (b_prev s) xs" and h: "LBcache \<notin> set (held s)"
    using assms(1) by (auto simp: bio_ok_def bio_inv_def bio_ctx_def)
  have c: "bget_cached (NBUF + 1) ROOTDEV n (b_next s bhead) ?s1 = Ok None ?s1"
    using ring_cached [of ?s1 xs ROOTDEV n] ring_slot [OF _ xs, of n] assms xs by (simp add: bio_ok_def)
  have "find (\<lambda>i. b_refcnt (bufs s ! i) = 0) (rev xs) = None"
    using xs assms(3) by (auto simp: find_None_iff is_ring_def)
  then have u: "bget_unused (NBUF + 1) (b_prev s bhead) ?s1 = Ok None ?s1"
    using ring_unused [of ?s1 xs] xs by simp
  show ?thesis
    using h c u by (simp add: bget_def run_kthen run_kbind acquire_Ok del: bget_cached.simps bget_unused.simps)
qed

lemma upd_same: "f = g(n := x) \<Longrightarrow> g n = x \<Longrightarrow> f = g"
  by auto

lemma unused_exists:
  assumes inv: "bio_inv s" and "card {m. pin s m \<noteq> 0} < NBUF" and "is_ring (b_next s) (b_prev s) xs"
  shows "\<exists>b. find (\<lambda>i. b_refcnt (bufs s ! i) = 0) (rev xs) = Some b"
proof (rule ccontr)
  assume "\<not> ?thesis"
  then have "find (\<lambda>i. b_refcnt (bufs s ! i) = 0) (rev xs) = None" by simp
  then have used: "b_refcnt (bufs s ! i) \<noteq> 0" if "i < NBUF" for i
    using assms(3) that by (auto simp: find_None_iff is_ring_def)
  then have c: "caches s i (b_blockno (bufs s ! i))" if "i < NBUF" for i
    using bio_invD(3) [OF inv that] that by (auto simp: buf_ok_def caches_def)
  let ?f = "\<lambda>i. b_blockno (bufs s ! i)"
  have "inj_on ?f {..<NBUF}"
    by (rule inj_onI) (metis c bio_invD(4) [OF inv] lessThan_iff)
  moreover have "?f ` {..<NBUF} \<subseteq> {m. pin s m \<noteq> 0}"
  proof (rule image_subsetI)
    fix i
    assume i: "i \<in> {..<NBUF}"
    then have "slot s (?f i) = Some i" using c slot_Some [OF inv] by simp
    then show "?f i \<in> {m. pin s m \<noteq> 0}" using used [of i] i unsigned_eq_0_iff [of "b_refcnt (bufs s ! i)", where ?'a = nat] by (simp add: pin_def)
  qed
  ultimately have "card {..<NBUF} \<le> card {m. pin s m \<noteq> 0}"
    using card_inj_on_le [of ?f "{..<NBUF}"] by simp
  then show False using assms(2) by simp
qed

lemma bget_law:
  assumes ok: "bio_ok s" and "\<not> lkd s n" and "pin s n < 2 ^ 32 - 1"
    and room: "pin s n \<noteq> 0 \<or> card {m. pin s m \<noteq> 0} < NBUF"
  shows "\<exists>b bf s1. bget ROOTDEV n s = Ok b (s1\<lparr>slocks := (slocks s)(SBuf b := \<lparr>slk_locked = True, slk_pid = mypid s\<rparr>)\<rparr>)
    \<and> s1 = s\<lparr>bufs := (bufs s)[b := bf]\<rparr> \<and> bio_inv s1 \<and> caches s1 b n \<and> own s b = None
    \<and> view s1 = view s \<and> pin s1 = (pin s)(n := pin s n + 1) \<and> lkd s1 = lkd s \<and> own s1 = own s"
proof -
  have inv: "bio_inv s" using ok by (simp add: bio_ok_def)
  obtain xs where xs: "is_ring (b_next s) (b_prev s) xs" using inv by (auto simp: bio_inv_def)
  show ?thesis
  proof (cases "slot s n")
    case (Some b)
    define bf where "bf = (bufs s ! b)\<lparr>b_refcnt := b_refcnt (bufs s ! b) + 1\<rparr>"
    define s1 where "s1 = s\<lparr>bufs := (bufs s)[b := bf]\<rparr>"
    have c: "caches s b n" using Some slot_Some [OF inv] by simp
    have b: "b < NBUF" "b_dev (bufs s ! b) = ROOTDEV" "b_blockno (bufs s ! b) = n" using c by (auto simp: caches_def)
    have pn: "pin s n = unat (b_refcnt (bufs s ! b))" using Some by (simp add: pin_def)
    then have rc: "unat (b_refcnt bf) = pin s n + 1"
      using assms(3) by (simp add: bf_def unat_word_ariths)
    have unl: "\<not> slk_locked (slocks s (SBuf b))" using Some assms(2) by (simp add: lkd_def)
    have bf: "b_dev bf = ROOTDEV" "b_blockno bf = n" "b_valid bf = b_valid (bufs s ! b)" "b_data bf = b_data (bufs s ! b)"
      using b by (auto simp: bf_def)
    have "b_refcnt bf \<noteq> 0" using rc by auto
    then have okb: "buf_ok (disk s1) (slk_locked (slocks s1 (SBuf b))) bf"
      using bio_invD(3) [OF inv b(1)] bf by (auto simp: buf_ok_def s1_def)
    have inv1: "bio_inv s1"
      by (rule inv_upd [OF inv c _ bf(1,2) _ _ _ okb]) (use bio_invD(2) [OF inv] xs in \<open>auto simp: s1_def\<close>)
    have mp: "mypid s1 = mypid s" by (simp add: s1_def mypid_def split: option.split)
    note au = abs_upd [OF inv c _ bf(1,2) _ _ mp inv1]
    have "view s1 = (view s)(n := if b_valid bf then b_data bf else disk s1 n)" by (rule au) (auto simp: s1_def)
    moreover have "view s n = (if b_valid bf then b_data bf else disk s1 n)" using Some bf by (auto simp: view_def s1_def)
    ultimately have v: "view s1 = view s" by (rule upd_same)
    have p: "pin s1 = (pin s)(n := pin s n + 1)" using au(2) rc by (auto simp: s1_def)
    have "lkd s1 = (lkd s)(n := slk_locked (slocks s1 (SBuf b)))" by (rule au) (auto simp: s1_def)
    moreover have "lkd s n = slk_locked (slocks s1 (SBuf b))" using Some by (simp add: s1_def lkd_def)
    ultimately have "lkd s1 = lkd s" by (rule upd_same)
    moreover have ob: "own s b = None" using unl by (simp add: own_def)
    moreover have "own s1 = own s" using au(4) unl ob by (auto simp: s1_def)
    moreover have "caches s1 b n" using b bio_invD(1) [OF inv] bf by (simp add: caches_def s1_def)
    moreover have "bget ROOTDEV n s = Ok b (s1\<lparr>slocks := (slocks s)(SBuf b := \<lparr>slk_locked = True, slk_pid = mypid s\<rparr>)\<rparr>)"
      using bget_hit [OF ok Some assms(2)] by (simp add: s1_def bf_def)
    ultimately show ?thesis using inv1 s1_def v p by blast
  next
    case None
    then have "pin s n = 0" by (simp add: pin_def)
    then obtain b where b: "find (\<lambda>i. b_refcnt (bufs s ! i) = 0) (rev xs) = Some b"
      using unused_exists [OF inv _ xs] room by auto
    then have "b \<in> set (rev xs)" and rc: "b_refcnt (bufs s ! b) = 0" by (auto dest: find_SomeD)
    then have bN: "b < NBUF" using xs by (auto simp: is_ring_def)
    define bf where "bf = (bufs s ! b)\<lparr>b_dev := ROOTDEV, b_blockno := n, b_valid := False, b_refcnt := 1\<rparr>"
    define s1 where "s1 = s\<lparr>bufs := (bufs s)[b := bf]\<rparr>"
    note ev = evict [OF inv bN rc None s1_def [unfolded bf_def]]
    have "own s b = None" using bio_invD(3) [OF inv bN] rc by (auto simp: own_def buf_ok_def)
    moreover have "bget ROOTDEV n s = Ok b (s1\<lparr>slocks := (slocks s)(SBuf b := \<lparr>slk_locked = True, slk_pid = mypid s\<rparr>)\<rparr>)"
      using bget_miss [OF ok None xs b] by (simp add: s1_def bf_def)
    moreover have "pin s1 = (pin s)(n := pin s n + 1)" using ev(4) \<open>pin s n = 0\<close> by simp
    ultimately show ?thesis using ev s1_def by blast
  qed
qed

lemma bread_law:
  assumes ok: "bio_ok s" and "\<not> lkd s n" and "pin s n < 2 ^ 32 - 1"
    and "pin s n \<noteq> 0 \<or> card {m. pin s m \<noteq> 0} < NBUF"
  shows "\<exists>b t. bread ROOTDEV n s = Ok b t \<and> bio_ok t \<and> bio_frame s t \<and> own s b = None
           \<and> bio_abs t = abs_bread b n (bio_abs s)"
proof -
  from bget_law [OF assms] obtain b bf s1 where
    g: "bget ROOTDEV n s = Ok b (s1\<lparr>slocks := (slocks s)(SBuf b := \<lparr>slk_locked = True, slk_pid = mypid s\<rparr>)\<rparr>)"
    and s1: "s1 = s\<lparr>bufs := (bufs s)[b := bf]\<rparr>" and inv1: "bio_inv s1" and c: "caches s1 b n" and ob: "own s b = None"
    and ab: "view s1 = view s" "pin s1 = (pin s)(n := pin s n + 1)" "lkd s1 = lkd s" "own s1 = own s"
    by blast
  have len: "length (bufs s) = NBUF" using ok by (simp add: bio_ok_def bio_inv_def)
  have b: "b < NBUF" "b_dev bf = ROOTDEV" "b_blockno bf = n" using c len by (auto simp: caches_def s1)
  define bf2 where "bf2 = (if b_valid bf then bf else bf\<lparr>b_data := disk s n, b_valid := True\<rparr>)"
  define t where "t = s\<lparr>bufs := (bufs s)[b := bf2], slocks := (slocks s)(SBuf b := \<lparr>slk_locked = True, slk_pid = mypid s\<rparr>)\<rparr>"
  have r: "bread ROOTDEV n s = Ok b t"
    using len b by (simp add: bread_def g run_kbind run_kthen s1 disk_rw_def set_buf_def t_def bf2_def)
  have sl1: "slot s1 n = Some b" using slot_Some [OF inv1] c by simp
  then have pn: "unat (b_refcnt bf) = pin s n + 1" using ab(2) len b by (simp add: pin_def s1 fun_eq_iff split: if_splits)
  then have nz: "b_refcnt bf \<noteq> 0" by auto
  have bf2: "b_dev bf2 = ROOTDEV" "b_blockno bf2 = n" "b_valid bf2" "b_refcnt bf2 = b_refcnt bf"
    using b by (auto simp: bf2_def)
  have okb: "buf_ok (disk t) (slk_locked (slocks t (SBuf b))) bf2"
    using bio_invD(3) [OF inv1 b(1)] bio_invD(2) [OF inv1] nz b len by (auto simp: buf_ok_def bf2_def t_def s1)
  have bt: "bufs t = (bufs s1)[b := bf2]" by (simp add: t_def s1)
  have invt: "bio_inv t"
    by (rule inv_upd [OF inv1 c bt bf2(1,2) _ _ _ okb]) (use bio_invD(2) [OF inv1] inv1 in \<open>auto simp: t_def s1 bio_inv_def\<close>)
  have mp: "mypid t = mypid s1" "mypid s1 = mypid s" by (auto simp: t_def s1 mypid_def split: option.split)
  note au = abs_upd [OF inv1 c bt bf2(1,2) _ _ mp(1) invt]
  have "view s1 n = (if b_valid bf then b_data bf else disk s n)" using sl1 b len by (simp add: view_def s1)
  then have vn: "b_data bf2 = view s n" using ab(1) by (simp add: bf2_def)
  have "view t = view s" using au(1) vn ab(1) bf2(3) by (auto simp: t_def s1)
  moreover have "pin t = (pin s)(n := pin s n + 1)" using au(2) ab(2) pn bf2(4) by (auto simp: t_def s1)
  moreover have "lkd t = (lkd s)(n := True)" using au(3) ab(3) by (auto simp: t_def s1)
  moreover have "own t = (own s)(b := Some n)" using au(4) ab(4) bf2(3) mp by (auto simp: t_def s1)
  ultimately have "bio_abs t = abs_bread b n (bio_abs s)" by (simp add: bio_abs_def abs_bread_def t_def)
  moreover have "bio_frame s t" by (simp add: bio_frame_def t_def)
  moreover have "bio_ok t" using invt bio_frame_ctx [OF calculation(2)] ok by (simp add: bio_ok_def)
  ultimately show ?thesis using r ob by blast
qed

lemma bdata_law: "bio_ok s \<Longrightarrow> own s b = Some n \<Longrightarrow> bdata b s = Ok (view s n) s"
  by (simp add: bdata_def own_view bio_ok_def)

text \<open>The operations that leave the lock and the links of an owned buffer alone.\<close>

lemma own_upd:
  assumes ok: "bio_ok s" and o: "own s b = Some n"
    and bf: "b_dev bf = ROOTDEV" "b_blockno bf = n" "b_valid bf" "length (b_data bf) = BSIZE" "b_refcnt bf \<noteq> 0"
    and t: "t = s\<lparr>bufs := (bufs s)[b := bf], disk := (disk s)(n := d), dwrites := w\<rparr>"
    and d: "length d = BSIZE"
  shows "bio_ok t" and "bio_frame s t"
    and "bio_abs t = (bio_abs s)\<lparr>a_view := (view s)(n := b_data bf), a_pin := (pin s)(n := unat (b_refcnt bf)),
                       a_disk := (disk s)(n := d), a_writes := w\<rparr>"
proof -
  have inv: "bio_inv s" using ok by (simp add: bio_ok_def)
  note c = own_caches [OF o] and oD = ownD [OF o]
  have bt: "bufs t = (bufs s)[b := bf]" by (simp add: t)
  have okb: "buf_ok (disk t) (slk_locked (slocks t (SBuf b))) bf" using bf by (simp add: buf_ok_def)
  have invt: "bio_inv t"
    by (rule inv_upd [OF inv c bt bf(1,2) _ _ _ okb]) (use inv d in \<open>auto simp: t bio_inv_def\<close>)
  have mp: "mypid t = mypid s" by (simp add: t mypid_def split: option.split)
  note au = abs_upd [OF inv c bt bf(1,2) _ _ mp invt]
  have "view t = (view s)(n := b_data bf)" using au(1) bf(3) by (auto simp: t)
  moreover have "pin t = (pin s)(n := unat (b_refcnt bf))" using au(2) by (auto simp: t)
  moreover have "lkd t = lkd s"
    using au(3) oD own_view(3) [OF inv o] by (auto simp: t fun_upd_idem)
  moreover have "own t = own s" using au(4) oD bf(3) o by (auto simp: t fun_upd_idem)
  ultimately show "bio_abs t = (bio_abs s)\<lparr>a_view := (view s)(n := b_data bf), a_pin := (pin s)(n := unat (b_refcnt bf)),
                       a_disk := (disk s)(n := d), a_writes := w\<rparr>"
    by (simp add: bio_abs_def t)
  show f: "bio_frame s t" by (simp add: bio_frame_def t)
  show "bio_ok t" using invt bio_frame_ctx [OF f] ok by (simp add: bio_ok_def)
qed

lemma own_buf:
  assumes "bio_ok s" and "own s b = Some n"
  shows "length (b_data (bufs s ! b)) = BSIZE" and "b_refcnt (bufs s ! b) \<noteq> 0" and "length (disk s n) = BSIZE"
  using bio_invD(2,3) [of s] ownD [OF assms(2)] assms(1) by (auto simp: bio_ok_def buf_ok_def)

lemma set_bdata_law:
  assumes ok: "bio_ok s" and o: "own s b = Some n" and d: "length d = BSIZE"
  shows "\<exists>t. set_bdata b d s = Ok () t \<and> bio_ok t \<and> bio_frame s t \<and> bio_abs t = abs_set b d (bio_abs s)"
proof -
  let ?bf = "(bufs s ! b)\<lparr>b_data := d\<rparr>"
  define t where "t = s\<lparr>bufs := (bufs s)[b := ?bf], disk := (disk s)(n := disk s n), dwrites := dwrites s\<rparr>"
  have "set_bdata b d s = Ok () t" by (simp add: set_bdata_def set_buf_def t_def)
  moreover have "bio_abs t = abs_set b d (bio_abs s)"
    using own_upd(3) [OF ok o _ _ _ _ _ t_def] ownD [OF o] own_buf [OF ok o] d o own_view(2) [OF _ o] ok
    by (simp add: abs_set_def bio_abs_def bio_ok_def fun_upd_idem)
  ultimately show ?thesis
    using own_upd(1,2) [OF ok o _ _ _ _ _ t_def] ownD [OF o] own_buf [OF ok o] d by simp
qed

lemma bwrite_law:
  assumes ok: "bio_ok s" and o: "own s b = Some n"
  shows "\<exists>t. bwrite b s = Ok () t \<and> bio_ok t \<and> bio_frame s t \<and> bio_abs t = abs_bwrite b (bio_abs s)"
proof -
  let ?bf = "bufs s ! b"
  obtain p where p: "curproc s = Some p" and h: "LSleep (SBuf b) \<notin> set (held s)"
    using ok by (auto simp: bio_ok_def bio_ctx_def)
  note ov = own_view [OF _ o] and oD = ownD [OF o]
  define t where "t = s\<lparr>bufs := (bufs s)[b := ?bf], disk := (disk s)(n := b_data ?bf), dwrites := dwrites s @ [(n, b_data ?bf)]\<rparr>"
  have "bwrite b s = Ok () t"
    using oD h p by (simp add: bwrite_def run_kbind holdingsleep_Ok disk_rw_def t_def)
  moreover have "bio_abs t = abs_bwrite b (bio_abs s)"
    using own_upd(3) [OF ok o _ _ _ _ _ t_def] oD own_buf [OF ok o] o ov(1,2) ok
    by (simp add: abs_bwrite_def bio_abs_def bio_ok_def fun_upd_idem)
  ultimately show ?thesis
    using own_upd(1,2) [OF ok o _ _ _ _ _ t_def] oD own_buf [OF ok o] by simp
qed

lemma bpin_law:
  assumes ok: "bio_ok s" and o: "own s b = Some n" and lim: "pin s n < 2 ^ 32 - 1"
  shows "\<exists>t. bpin b s = Ok () t \<and> bio_ok t \<and> bio_frame s t \<and> bio_abs t = abs_bpin b (bio_abs s)"
proof -
  let ?bf = "(bufs s ! b)\<lparr>b_refcnt := b_refcnt (bufs s ! b) + 1\<rparr>"
  have h: "LBcache \<notin> set (held s)" using ok by (auto simp: bio_ok_def bio_ctx_def)
  have inv: "bio_inv s" using ok by (simp add: bio_ok_def)
  note ov = own_view [OF inv o] and oD = ownD [OF o]
  have u: "unat (b_refcnt ?bf) = pin s n + 1" using lim ov(2) by (simp add: unat_word_ariths)
  then have nz: "b_refcnt ?bf \<noteq> 0" by auto
  define t where "t = s\<lparr>bufs := (bufs s)[b := ?bf], disk := (disk s)(n := disk s n), dwrites := dwrites s\<rparr>"
  have "bpin b s = Ok () t"
    using h by (simp add: bpin_def run_kbind run_kthen acquire_Ok release_Ok set_buf_def t_def)
  moreover have "bio_abs t = abs_bpin b (bio_abs s)"
    using own_upd(3) [OF ok o _ _ _ _ nz t_def] oD own_buf [OF ok o] o u ov(1)
    by (simp add: abs_bpin_def bio_abs_def fun_upd_idem)
  ultimately show ?thesis
    using own_upd(1,2) [OF ok o _ _ _ _ nz t_def] oD own_buf [OF ok o] by simp
qed

lemma bunpin_law:
  assumes ok: "bio_ok s" and o: "own s b = Some n" and two: "pin s n \<ge> 2"
  shows "\<exists>t. bunpin b s = Ok () t \<and> bio_ok t \<and> bio_frame s t \<and> bio_abs t = abs_bunpin b (bio_abs s)"
proof -
  let ?bf = "(bufs s ! b)\<lparr>b_refcnt := b_refcnt (bufs s ! b) - 1\<rparr>"
  have h: "LBcache \<notin> set (held s)" using ok by (auto simp: bio_ok_def bio_ctx_def)
  have inv: "bio_inv s" using ok by (simp add: bio_ok_def)
  note ov = own_view [OF inv o] and oD = ownD [OF o]
  have u: "unat (b_refcnt ?bf) = pin s n - 1"
    using own_buf(2) [OF ok o] ov(2) by (simp add: unat_minus_one)
  then have nz: "b_refcnt ?bf \<noteq> 0" using two by auto
  define t where "t = s\<lparr>bufs := (bufs s)[b := ?bf], disk := (disk s)(n := disk s n), dwrites := dwrites s\<rparr>"
  have "bunpin b s = Ok () t"
    using h by (simp add: bunpin_def run_kbind run_kthen acquire_Ok release_Ok set_buf_def t_def)
  moreover have "bio_abs t = abs_bunpin b (bio_abs s)"
    using own_upd(3) [OF ok o _ _ _ _ nz t_def] oD own_buf [OF ok o] o u ov(1)
    by (simp add: abs_bunpin_def bio_abs_def fun_upd_idem)
  ultimately show ?thesis
    using own_upd(1,2) [OF ok o _ _ _ _ nz t_def] oD own_buf [OF ok o] by simp
qed

lemma brelse_run:
  assumes ok: "bio_ok s" and o: "own s b = Some n"
  shows "\<exists>nx pv. brelse b s = Ok () (s\<lparr>slocks := (slocks s)(SBuf b := \<lparr>slk_locked = False, slk_pid = 0\<rparr>),
             procs := woken (ChSleep (SBuf b)) (curproc s) (procs s),
             bufs := (bufs s)[b := (bufs s ! b)\<lparr>b_refcnt := b_refcnt (bufs s ! b) - 1\<rparr>],
             b_next := nx, b_prev := pv\<rparr>) \<and> (\<exists>xs. is_ring nx pv xs)"
proof -
  obtain xs p where xs: "is_ring (b_next s) (b_prev s) xs" and p: "curproc s = Some p"
    and h: "LBcache \<notin> set (held s)" "LSleep (SBuf b) \<notin> set (held s)" "\<forall>i. LProc i \<notin> set (held s)"
    and len: "length (procs s) = NPROC" "length (bufs s) = NBUF"
    using ok by (auto simp: bio_ok_def bio_ctx_def bio_inv_def)
  note oD = ownD [OF o]
  let ?r = "b_refcnt (bufs s ! b) - 1"
  let ?s1 = "s\<lparr>slocks := (slocks s)(SBuf b := \<lparr>slk_locked = False, slk_pid = 0\<rparr>),
             procs := woken (ChSleep (SBuf b)) (curproc s) (procs s), held := LBcache # held s,
             bufs := (bufs s)[b := (bufs s ! b)\<lparr>b_refcnt := ?r\<rparr>]\<rparr>"
  have run: "brelse b s = kthen (kwhen (?r = 0) (lru_move b)) (release LBcache) ?s1"
    using oD h p len by (simp add: brelse_def run_kbind run_kthen holdingsleep_Ok releasesleep_Ok acquire_Ok set_buf_def)
  have "b \<in> set xs" using xs oD(1) by (simp add: is_ring_def)
  then obtain ys zs where yz: "xs = ys @ b # zs" by (meson split_list)
  show ?thesis
  proof (cases "?r = 0")
    case True
    obtain nx pv where l: "lru_move b ?s1 = Ok () (?s1\<lparr>b_next := nx, b_prev := pv\<rparr>)" and r: "is_ring nx pv (b # ys @ zs)"
      using lru_move_ring [of ?s1 ys b zs] xs yz by auto
    then show ?thesis using run True by (auto simp: run_kthen run_kbind release_Ok)
  next
    case False
    then show ?thesis using run xs
      by - (rule exI [of _ "b_next s"], rule exI [of _ "b_prev s"], auto simp: run_kthen run_kbind release_Ok)
  qed
qed

lemma brelse_law:
  assumes ok: "bio_ok s" and o: "own s b = Some n" and clean: "pin s n \<ge> 2 \<or> view s n = disk s n"
  shows "\<exists>t. brelse b s = Ok () t \<and> bio_ok t \<and> bio_frame s t \<and> bio_abs t = abs_brelse b (bio_abs s)"
proof -
  have inv: "bio_inv s" and ctx: "bio_ctx s" using ok by (auto simp: bio_ok_def)
  note ov = own_view [OF inv o] and oD = ownD [OF o] and c = own_caches [OF o]
  obtain nx pv where run: "brelse b s = Ok () (s\<lparr>slocks := (slocks s)(SBuf b := \<lparr>slk_locked = False, slk_pid = 0\<rparr>),
             procs := woken (ChSleep (SBuf b)) (curproc s) (procs s),
             bufs := (bufs s)[b := (bufs s ! b)\<lparr>b_refcnt := b_refcnt (bufs s ! b) - 1\<rparr>],
             b_next := nx, b_prev := pv\<rparr>)" (is "_ = Ok () ?t") and ring: "\<exists>xs. is_ring nx pv xs"
    using brelse_run [OF ok o] by blast
  define bf where "bf = (bufs s ! b)\<lparr>b_refcnt := b_refcnt (bufs s ! b) - 1\<rparr>"
  define t where "t = ?t"
  have bf: "b_dev bf = ROOTDEV" "b_blockno bf = n" "b_valid bf" "b_data bf = view s n"
    using oD ov by (auto simp: bf_def)
  have u: "unat (b_refcnt bf) = pin s n - 1"
    using own_buf(2) [OF ok o] ov(2) by (simp add: bf_def unat_minus_one)
  have bt: "bufs t = (bufs s)[b := bf]" by (simp add: t_def bf_def)
  have "b_refcnt bf = 0 \<Longrightarrow> view s n = disk s n" using u clean by auto
  then have okb: "buf_ok (disk t) (slk_locked (slocks t (SBuf b))) bf"
    using bf own_buf(1) [OF ok o] ov(1) by (auto simp: buf_ok_def t_def)
  have invt: "bio_inv t"
    by (rule inv_upd [OF inv c bt bf(1,2) _ _ _ okb]) (use inv ring in \<open>auto simp: t_def bio_inv_def\<close>)
  have f: "bio_frame s t" by (simp add: bio_frame_def t_def only_woken_woken)
  have mp: "mypid t = mypid s" by (rule bio_frame_mypid [OF f ctx])
  note au = abs_upd [OF inv c bt bf(1,2) _ _ mp invt]
  have "view t = view s" using au(1) bf by (auto simp: t_def fun_upd_idem)
  moreover have "pin t = (pin s)(n := pin s n - 1)" using au(2) u by (auto simp: t_def)
  moreover have "lkd t = (lkd s)(n := False)" using au(3) by (auto simp: t_def)
  moreover have "own t = (own s)(b := None)" using au(4) by (auto simp: t_def)
  ultimately have "bio_abs t = abs_brelse b (bio_abs s)" using o by (simp add: bio_abs_def abs_brelse_def t_def)
  moreover have "bio_ok t" using invt bio_frame_ctx [OF f ctx] by (simp add: bio_ok_def)
  ultimately show ?thesis using run f t_def by blast
qed

lemma unpinned_clean:
  assumes ok: "bio_ok s" and "pin s n = 0"
  shows "view s n = disk s n"
proof (cases "slot s n")
  case None
  then show ?thesis by (simp add: view_def)
next
  case (Some i)
  have inv: "bio_inv s" using ok by (simp add: bio_ok_def)
  have "caches s i n" using Some slot_Some [OF inv] by simp
  then have "buf_ok (disk s) (slk_locked (slocks s (SBuf i))) (bufs s ! i)" "b_blockno (bufs s ! i) = n"
    using bio_invD(3) [OF inv, of i] by (auto simp: caches_def)
  then show ?thesis using Some assms(2) by (auto simp: view_def pin_def buf_ok_def unat_eq_0)
qed

lemma view_size:
  assumes ok: "bio_ok s"
  shows "length (view s n) = BSIZE"
proof -
  have inv: "bio_inv s" using ok by (simp add: bio_ok_def)
  have "length (b_data (bufs s ! i)) = BSIZE" if "slot s n = Some i" for i
    using that slot_Some [OF inv, of n i] bio_invD(3) [OF inv, of i] by (simp add: caches_def buf_ok_def)
  then show ?thesis using bio_invD(2) [OF inv] by (simp add: view_def split: option.split)
qed

section \<open>The interface of the cache\<close>

definition pinned :: "bcache_abs \<Rightarrow> nat" where
  "pinned a = card {n. a_pin a n \<noteq> 0}"

text \<open>Block \<open>n\<close> can be read: nobody has it locked, and there is a buffer for it.\<close>

definition can_bread :: "u32 \<Rightarrow> bcache_abs \<Rightarrow> bool" where
  "can_bread n a \<longleftrightarrow> \<not> a_lkd a n \<and> a_pin a n < 2 ^ 32 - 1 \<and> (a_pin a n \<noteq> 0 \<or> pinned a < NBUF)"

locale buffer_cache =
  fixes rd :: "u32 \<Rightarrow> ('s, nat) op"
    and wr :: "nat \<Rightarrow> ('s, unit) op"
    and rel :: "nat \<Rightarrow> ('s, unit) op"
    and pn :: "nat \<Rightarrow> ('s, unit) op"
    and upn :: "nat \<Rightarrow> ('s, unit) op"
    and dat :: "nat \<Rightarrow> ('s, u8 list) op"
    and st :: "nat \<Rightarrow> u8 list \<Rightarrow> ('s, unit) op"
    and ok :: "'s \<Rightarrow> bool"
    and fr :: "'s \<Rightarrow> 's \<Rightarrow> bool"
    and ab :: "'s \<Rightarrow> bcache_abs"
  assumes rd_law: "ok s \<Longrightarrow> can_bread n (ab s) \<Longrightarrow>
      \<exists>b t. rd n s = Ok b t \<and> ok t \<and> fr s t \<and> a_own (ab s) b = None \<and> ab t = abs_bread b n (ab s)"
    and wr_law: "ok s \<Longrightarrow> a_own (ab s) b = Some n \<Longrightarrow>
      \<exists>t. wr b s = Ok () t \<and> ok t \<and> fr s t \<and> ab t = abs_bwrite b (ab s)"
    and rel_law: "ok s \<Longrightarrow> a_own (ab s) b = Some n \<Longrightarrow>
      a_pin (ab s) n \<ge> 2 \<or> a_view (ab s) n = a_disk (ab s) n \<Longrightarrow>
      \<exists>t. rel b s = Ok () t \<and> ok t \<and> fr s t \<and> ab t = abs_brelse b (ab s)"
    and pn_law: "ok s \<Longrightarrow> a_own (ab s) b = Some n \<Longrightarrow> a_pin (ab s) n < 2 ^ 32 - 1 \<Longrightarrow>
      \<exists>t. pn b s = Ok () t \<and> ok t \<and> fr s t \<and> ab t = abs_bpin b (ab s)"
    and upn_law: "ok s \<Longrightarrow> a_own (ab s) b = Some n \<Longrightarrow> a_pin (ab s) n \<ge> 2 \<Longrightarrow>
      \<exists>t. upn b s = Ok () t \<and> ok t \<and> fr s t \<and> ab t = abs_bunpin b (ab s)"
    and dat_law: "ok s \<Longrightarrow> a_own (ab s) b = Some n \<Longrightarrow> dat b s = Ok (a_view (ab s) n) s"
    and st_law: "ok s \<Longrightarrow> a_own (ab s) b = Some n \<Longrightarrow> length d = BSIZE \<Longrightarrow>
      \<exists>t. st b d s = Ok () t \<and> ok t \<and> fr s t \<and> ab t = abs_set b d (ab s)"
    and clean: "ok s \<Longrightarrow> a_pin (ab s) n = 0 \<Longrightarrow> a_view (ab s) n = a_disk (ab s) n"
    and sized: "ok s \<Longrightarrow> length (a_view (ab s) n) = BSIZE"
    and fr_trans: "fr s t \<Longrightarrow> fr t u \<Longrightarrow> fr s u"
begin

text \<open>Reading a block: the data is the client's view, and the cache is as before.\<close>

lemma read_block:
  assumes "ok s" and "can_bread n (ab s)"
  shows "\<exists>t. kbind (rd n) (\<lambda>b. kbind (dat b) (\<lambda>d. kthen (rel b) (f d))) s = f (a_view (ab s) n) t
           \<and> ok t \<and> fr s t \<and> ab t = ab s"
proof -
  obtain b t where r: "rd n s = Ok b t" "ok t" "fr s t" "a_own (ab s) b = None" "ab t = abs_bread b n (ab s)"
    using rd_law [OF assms] by blast
  have o: "a_own (ab t) b = Some n" using r by (simp add: abs_bread_def)
  have "a_pin (ab t) n \<ge> 2 \<or> a_view (ab t) n = a_disk (ab t) n"
    using clean [OF assms(1), of n] r(5) by (cases "a_pin (ab s) n") (auto simp: abs_bread_def)
  then obtain u where u: "rel b t = Ok () u" "ok u" "fr t u" "ab u = abs_brelse b (ab t)"
    using rel_law [OF r(2) o] by blast
  have "dat b t = Ok (a_view (ab s) n) t" using dat_law [OF r(2) o] r(5) by (simp add: abs_bread_def)
  moreover have "ab u = ab s"
    using u(4) r(4,5) assms(2) by (simp add: abs_brelse_def abs_bread_def can_bread_def fun_upd_idem)
  ultimately show ?thesis using r u by (auto simp: run_kbind run_kthen intro: fr_trans)
qed

text \<open>Changing a block and writing it through to the disk.\<close>

lemma write_block:
  assumes "ok s" and "can_bread n (ab s)" and "\<And>d. length d = BSIZE \<Longrightarrow> length (g d) = BSIZE"
  shows "\<exists>t. kbind (rd n) (\<lambda>b. kbind (dat b) (\<lambda>d. kthen (st b (g d)) (kthen (wr b) (rel b)))) s = Ok () t
           \<and> ok t \<and> fr s t \<and> ab t = (let d = g (a_view (ab s) n) in
               (ab s)\<lparr>a_view := (a_view (ab s))(n := d), a_disk := (a_disk (ab s))(n := d),
                      a_writes := a_writes (ab s) @ [(n, d)]\<rparr>)"
proof -
  let ?d = "g (a_view (ab s) n)"
  obtain b t where r: "rd n s = Ok b t" "ok t" "fr s t" "a_own (ab s) b = None" "ab t = abs_bread b n (ab s)"
    using rd_law [OF assms(1,2)] by blast
  have o: "a_own (ab t) b = Some n" using r by (simp add: abs_bread_def)
  have dt: "dat b t = Ok (a_view (ab s) n) t" using dat_law [OF r(2) o] r(5) by (simp add: abs_bread_def)
  have "length ?d = BSIZE" using assms(3) sized [OF assms(1)] by blast
  then obtain u where u: "st b ?d t = Ok () u" "ok u" "fr t u" "ab u = abs_set b ?d (ab t)"
    using st_law [OF r(2) o] by blast
  have ou: "a_own (ab u) b = Some n" using u(4) o by (simp add: abs_set_def)
  obtain v where v: "wr b u = Ok () v" "ok v" "fr u v" "ab v = abs_bwrite b (ab u)" using wr_law [OF u(2) ou] by blast
  have ov: "a_own (ab v) b = Some n" using v(4) ou by (simp add: abs_bwrite_def)
  have "a_view (ab v) n = a_disk (ab v) n" using v(4) ou by (simp add: abs_bwrite_def)
  then obtain w where w: "rel b v = Ok () w" "ok w" "fr v w" "ab w = abs_brelse b (ab v)"
    using rel_law [OF v(2) ov] by blast
  have "ab w = (let d = ?d in (ab s)\<lparr>a_view := (a_view (ab s))(n := d), a_disk := (a_disk (ab s))(n := d),
                      a_writes := a_writes (ab s) @ [(n, d)]\<rparr>)"
    using w(4) v(4) u(4) r(4,5) assms(2)
    by (simp add: abs_brelse_def abs_bread_def abs_set_def abs_bwrite_def can_bread_def fun_upd_idem Let_def)
  moreover have "fr s w" using r(3) u(3) v(3) w(3) by (blast intro: fr_trans)
  ultimately show ?thesis using r(1) dt u(1) v(1) w(1,2) by (simp add: run_kbind run_kthen)
qed

end

interpretation bcache: buffer_cache "bread ROOTDEV" bwrite brelse bpin bunpin bdata set_bdata bio_ok bio_frame bio_abs
proof
  fix s :: "'a kbio_scheme" and n b d
  show "bio_ok s \<Longrightarrow> can_bread n (bio_abs s) \<Longrightarrow> \<exists>b t. bread ROOTDEV n s = Ok b t \<and> bio_ok t \<and> bio_frame s t
      \<and> a_own (bio_abs s) b = None \<and> bio_abs t = abs_bread b n (bio_abs s)"
    using bread_law [of s n] by (simp add: can_bread_def bio_abs_def pinned_def)
  assume ok: "bio_ok s"
  show "a_own (bio_abs s) b = Some n \<Longrightarrow> bdata b s = Ok (a_view (bio_abs s) n) s"
    using bdata_law [OF ok] by (simp add: bio_abs_def)
  show "a_pin (bio_abs s) n = 0 \<Longrightarrow> a_view (bio_abs s) n = a_disk (bio_abs s) n"
    using unpinned_clean [OF ok] by (simp add: bio_abs_def)
  show "length (a_view (bio_abs s) n) = BSIZE" using view_size [OF ok] by (simp add: bio_abs_def)
  assume o: "a_own (bio_abs s) b = Some n"
  then have o: "own s b = Some n" by (simp add: bio_abs_def)
  show "\<exists>t. bwrite b s = Ok () t \<and> bio_ok t \<and> bio_frame s t \<and> bio_abs t = abs_bwrite b (bio_abs s)"
    by (rule bwrite_law [OF ok o])
  show "a_pin (bio_abs s) n \<ge> 2 \<or> a_view (bio_abs s) n = a_disk (bio_abs s) n \<Longrightarrow>
      \<exists>t. brelse b s = Ok () t \<and> bio_ok t \<and> bio_frame s t \<and> bio_abs t = abs_brelse b (bio_abs s)"
    using brelse_law [OF ok o] by (simp add: bio_abs_def)
  show "a_pin (bio_abs s) n < 2 ^ 32 - 1 \<Longrightarrow>
      \<exists>t. bpin b s = Ok () t \<and> bio_ok t \<and> bio_frame s t \<and> bio_abs t = abs_bpin b (bio_abs s)"
    using bpin_law [OF ok o] by (simp add: bio_abs_def)
  show "a_pin (bio_abs s) n \<ge> 2 \<Longrightarrow>
      \<exists>t. bunpin b s = Ok () t \<and> bio_ok t \<and> bio_frame s t \<and> bio_abs t = abs_bunpin b (bio_abs s)"
    using bunpin_law [OF ok o] by (simp add: bio_abs_def)
  show "length d = BSIZE \<Longrightarrow>
      \<exists>t. set_bdata b d s = Ok () t \<and> bio_ok t \<and> bio_frame s t \<and> bio_abs t = abs_set b d (bio_abs s)"
    by (rule set_bdata_law [OF ok o])
qed (rule bio_frame_trans)

section \<open>Initialisation\<close>

text \<open>The kernel's data segment is zero when \<^verbatim>\<open>binit\<close> runs.\<close>

definition buf0 :: buf where
  "buf0 = \<lparr>b_valid = False, b_disk = False, b_dev = 0, b_blockno = 0, b_refcnt = 0,
           b_data = replicate BSIZE 0\<rparr>"

lemma binit_ring:
  shows "\<exists>t nx pv sl. binit s = Ok () t \<and> t = s\<lparr>b_next := nx, b_prev := pv, slocks := sl\<rparr>
    \<and> is_ring nx pv (rev [0..<NBUF]) \<and> (\<forall>i<NBUF. \<not> slk_locked (sl (SBuf i)))"
proof -
  let ?s1 = "s\<lparr>b_prev := (b_prev s)(bhead := bhead), b_next := (b_next s)(bhead := bhead)\<rparr>"
  obtain nx pv sl where l: "kfor [0..<NBUF] binit_one ?s1 = Ok () (?s1\<lparr>b_next := nx, b_prev := pv, slocks := sl\<rparr>)"
      "linked nx pv (bhead # rev [0..<NBUF] @ [bhead])" "\<forall>i<NBUF. \<not> slk_locked (sl (SBuf i))"
    using binit_loop [of NBUF ?s1] by auto
  have "binit s = Ok () (s\<lparr>b_next := nx, b_prev := pv, slocks := sl\<rparr>)"
    using l(1) by (simp add: binit_def run_kthen run_kbind set_prev_def set_next_def)
  moreover have "is_ring nx pv (rev [0..<NBUF])" using l(2) by (auto simp: is_ring_def)
  ultimately show ?thesis using l(3) by blast
qed

lemma binit_inv:
  assumes "bufs s = replicate NBUF buf0" and "\<forall>n. length (disk s n) = BSIZE"
  shows "\<exists>t. binit s = Ok () t \<and> bio_inv t \<and> bufs t = bufs s \<and> disk t = disk s"
proof -
  obtain t nx pv sl where t: "binit s = Ok () t" "t = s\<lparr>b_next := nx, b_prev := pv, slocks := sl\<rparr>"
    "is_ring nx pv (rev [0..<NBUF])" "\<forall>i<NBUF. \<not> slk_locked (sl (SBuf i))"
    using binit_ring [of s] by blast
  have "bio_inv t"
    using assms t(3,4) by (auto simp: t(2) bio_inv_def buf_ok_def caches_def buf0_def ROOTDEV_def)
  then show ?thesis using t(1,2) by simp
qed

section \<open>A concrete ring\<close>

text \<open>The buffers in the order of their indices, as the witnesses use them.\<close>

definition ring_next :: "nat \<Rightarrow> nat" where
  "ring_next i = (if i = NBUF then 0 else i + 1)"

definition ring_prev :: "nat \<Rightarrow> nat" where
  "ring_prev i = (if i = 0 then NBUF else i - 1)"

lemma linked_upt: "linked ring_next ring_prev [a..<b] = True" if "b \<le> NBUF + 1"
  using that
proof (induction "b - a" arbitrary: a)
  case (Suc k)
  show ?case
  proof (cases "b - a \<le> 1")
    case True
    then have "[a..<b] = [] \<or> [a..<b] = [a]" using Suc(2) by (auto simp: upt_rec)
    then show ?thesis by auto
  next
    case False
    then have "[a..<b] = a # [Suc a..<b]" "[Suc a..<b] = Suc a # [Suc (Suc a)..<b]" using Suc(2) by (auto simp: upt_rec)
    moreover have "linked ring_next ring_prev [Suc a..<b]" using Suc(1) [of "Suc a"] Suc(2,3) by simp
    moreover have "ring_next a = Suc a" "ring_prev (Suc a) = a" using False Suc(3) by (auto simp: ring_next_def ring_prev_def)
    ultimately show ?thesis by simp
  qed
qed simp

lemma ring_upt: "is_ring ring_next ring_prev [0..<NBUF]"
proof -
  have "[0..<NBUF] @ [NBUF] = 0 # [1..<NBUF + 1]" by (simp add: NBUF_def upt_rec)
  moreover have "linked ring_next ring_prev [0..<NBUF + 1]" by (simp only: linked_upt)
  moreover have "[0..<NBUF + 1] = [0..<NBUF] @ [NBUF]" by simp
  moreover have "ring_next NBUF = 0" "ring_prev 0 = NBUF" by (simp_all add: ring_next_def ring_prev_def)
  ultimately show ?thesis unfolding is_ring_def by (auto simp: atLeast0LessThan)
qed

section \<open>What the lower layers leave alone\<close>

text \<open>
  The layers above the cache are the extension of the state record; no operation of the cache or
  below it changes them.
\<close>

named_theorems more_keeps "operations that leave the upper layers alone"

abbreviation above :: "('b \<Rightarrow> bool) \<Rightarrow> 'b kbio_scheme \<Rightarrow> bool" where
  "above P s \<equiv> P (kbio.more s)"

lemma keeps_option [keeps_intros]:
  "(x = None \<Longrightarrow> keeps I a) \<Longrightarrow> (\<And>v. x = Some v \<Longrightarrow> keeps I (f v)) \<Longrightarrow> keeps I (case x of None \<Rightarrow> a | Some v \<Rightarrow> f v)"
  by (cases x) auto

lemma keeps_Sleep [keeps_intros]: "keeps I Sleep"
  by (rule keepsI) simp

lemma keeps_Hang [keeps_intros]: "keeps I (\<lambda>s. Hang)"
  by (rule keepsI) simp

lemma keeps_kmod: "(\<And>s. I s \<Longrightarrow> I (f s)) \<Longrightarrow> keeps I (kmod f)"
  by (rule keepsI) auto

lemma above_acquire [more_keeps]: "keeps (above P) (acquire lk)"
  by (auto intro!: keepsI simp: acquire_def split: if_splits)

lemma above_release [more_keeps]: "keeps (above P) (release lk)"
  by (auto intro!: keepsI simp: release_def split: if_splits)

lemma above_holding [more_keeps]: "keeps (above P) (holding lk)"
  by (auto intro!: keepsI simp: holding_def)

lemma above_with_myproc [more_keeps]: "(\<And>p. keeps (above P) (f p)) \<Longrightarrow> keeps (above P) (with_myproc f)"
  unfolding with_myproc_def myproc_def by (intro keeps_intros)

lemma above_set_proc [more_keeps]: "keeps (above P) (set_proc i f)"
  unfolding set_proc_def by (rule keeps_kmod) simp

lemma above_sleep [more_keeps]: "keeps (above P) (sleep ch lk)"
  unfolding sleep_def sched_def by (intro more_keeps keeps_intros)

lemma above_wakeup [more_keeps]: "keeps (above P) (wakeup ch)"
  unfolding wakeup_def wakeup_one_def myproc_def by (intro more_keeps keeps_intros)

lemma above_slocks [more_keeps]:
  "keeps (above P) (acquiresleep l)" "keeps (above P) (releasesleep l)" "keeps (above P) (holdingsleep l)"
  unfolding acquiresleep_def releasesleep_def holdingsleep_def
  by (intro more_keeps keeps_intros keeps_kmod; simp)+

lemma above_set_buf [more_keeps]: "keeps (above P) (set_buf b f)"
  unfolding set_buf_def by (rule keeps_kmod) simp

lemma above_search [more_keeps]:
  "keeps (above P) (bget_cached k dev bn b)" "keeps (above P) (bget_unused k b)"
  by (induction k arbitrary: b; auto intro!: keeps_intros)+

lemma above_bget [more_keeps]: "keeps (above P) (bget dev bn)"
  unfolding bget_def by (intro more_keeps keeps_intros)

lemma above_disk_rw [more_keeps]: "keeps (above P) (disk_rw b w)"
  unfolding disk_rw_def by (intro more_keeps keeps_intros keeps_kmod) simp

lemma above_lru_move [more_keeps]: "keeps (above P) (lru_move b)"
  unfolding lru_move_def set_next_def set_prev_def by (intro more_keeps keeps_intros keeps_kmod; simp)

lemma above_bio [more_keeps]:
  "keeps (above P) (bread dev bn)" "keeps (above P) (bwrite b)" "keeps (above P) (brelse b)"
  "keeps (above P) (bpin b)" "keeps (above P) (bunpin b)" "keeps (above P) (bdata b)" "keeps (above P) (set_bdata b d)"
  unfolding bread_def bwrite_def brelse_def bpin_def bunpin_def bdata_def set_bdata_def
  by (intro more_keeps keeps_intros)+

section \<open>Properties\<close>

text \<open>A machine whose cache is empty, for the witnesses.\<close>

definition demo_bio :: kbio where
  "demo_bio = kmem.extend demo_mem \<lparr>bufs = replicate NBUF buf0, b_next = ring_next, b_prev = ring_prev,
     disk = (\<lambda>_. replicate BSIZE 7), dwrites = []\<rparr>"

lemma demo_bio_fields [simp]:
  "held demo_bio = []" "length (procs demo_bio) = NPROC" "curproc demo_bio = Some 0" "slk_locked (slocks demo_bio l) = False"
  "bufs demo_bio = replicate NBUF buf0" "b_next demo_bio = ring_next" "b_prev demo_bio = ring_prev"
  "disk demo_bio = (\<lambda>_. replicate BSIZE 7)"
  by (simp_all add: demo_bio_def demo_mem_def kmem.defs)

lemma demo_bio_ok: "bio_ok demo_bio"
  using ring_upt by (auto simp: bio_ok_def bio_inv_def bio_ctx_def buf_ok_def caches_def buf0_def ROOTDEV_def)

lemma demo_bio_slot [simp]: "slot demo_bio n = None"
  by (auto simp: slot_None caches_def buf0_def ROOTDEV_def)

lemma demo_bio_can_bread: "can_bread n (bio_abs demo_bio)"
  by (simp add: can_bread_def bio_abs_def lkd_def pin_def pinned_def NBUF_def)



text \<open>Writing and reading one block, the way the log and the file system do.\<close>

definition bput :: "u32 \<Rightarrow> u8 list \<Rightarrow> ('a kbio_scheme, unit) op" where
  "bput n d = kbind (bread ROOTDEV n) (\<lambda>b. kbind (bdata b) (\<lambda>_. kthen (set_bdata b d) (kthen (bwrite b) (brelse b))))"

definition bgetdata :: "u32 \<Rightarrow> ('a kbio_scheme, u8 list) op" where
  "bgetdata n = kbind (bread ROOTDEV n) (\<lambda>b. kbind (bdata b) (\<lambda>d. kthen (brelse b) (kret d)))"

text \<open>
  C20. A block that is written through the cache is on the disk, and reading it again returns what
  was written.
\<close>

theorem bwrite_bread_roundtrip:
  assumes "bio_ok s" and "can_bread n (bio_abs s)" and "length d = BSIZE"
  shows "\<exists>t u. bput n d s = Ok () t \<and> disk t n = d \<and> (\<forall>k. k \<noteq> n \<longrightarrow> disk t k = disk s k)
    \<and> bgetdata n t = Ok d u \<and> bio_abs u = bio_abs t"
proof -
  obtain t where t: "bput n d s = Ok () t" "bio_ok t"
      "bio_abs t = (bio_abs s)\<lparr>a_view := (view s)(n := d), a_disk := (disk s)(n := d), a_writes := dwrites s @ [(n, d)]\<rparr>"
    using bcache.write_block [OF assms(1,2), of "\<lambda>_. d"] assms(3)
    by (auto simp: bput_def bio_abs_def Let_def)
  have "can_bread n (bio_abs t)" using assms(2) by (simp add: t(3) can_bread_def pinned_def)
  from bcache.read_block [OF t(2) this, of kret] obtain u where
    u: "bgetdata n t = Ok (view t n) u" "bio_abs u = bio_abs t"
    by (auto simp: bgetdata_def bio_abs_def)
  have "view t n = d" "disk t = (disk s)(n := d)" using t(3) by (simp_all add: bio_abs_def)
  then show ?thesis using t(1) u by auto
qed

theorem bwrite_bread_roundtrip_witness:
  "\<exists>t u. bput 40 (replicate BSIZE 9) demo_bio = Ok () t \<and> bgetdata 40 t = Ok (replicate BSIZE 9) u"
  using bwrite_bread_roundtrip [OF demo_bio_ok demo_bio_can_bread, of "replicate BSIZE 9" 40] by auto

text \<open>
  C22. \<^verbatim>\<open>bget\<close> finds a cached block in its buffer; for a block that is not cached it takes
  the least recently used buffer without references; and when every buffer is in use it panics.
\<close>

theorem bget_recycles_lru:
  assumes "bio_ok s" and "is_ring (b_next s) (b_prev s) xs" and "\<not> lkd s n"
  shows "case slot s n of
      Some b \<Rightarrow> (\<exists>t. bget ROOTDEV n s = Ok b t \<and> b_refcnt (bufs t ! b) = b_refcnt (bufs s ! b) + 1)
    | None \<Rightarrow> (case find (\<lambda>i. b_refcnt (bufs s ! i) = 0) (rev xs) of
        Some b \<Rightarrow> (\<exists>t. bget ROOTDEV n s = Ok b t \<and> b_blockno (bufs t ! b) = n \<and> \<not> b_valid (bufs t ! b))
      | None \<Rightarrow> bget ROOTDEV n s = Panic ''bget: no buffers'')"
proof -
  have len: "length (bufs s) = NBUF" and xs: "set xs = {..<NBUF}"
    using assms(1,2) by (auto simp: bio_ok_def bio_inv_def is_ring_def)
  show ?thesis
  proof (cases "slot s n")
    case (Some b)
    then have "b < NBUF" using assms(1) slot_Some [of s n b] by (auto simp: bio_ok_def caches_def)
    then show ?thesis using Some bget_hit [OF assms(1) Some assms(3)] len by simp
  next
    case None
    show ?thesis
    proof (cases "find (\<lambda>i. b_refcnt (bufs s ! i) = 0) (rev xs)")
      case (Some b)
      have "b < NBUF" using find_SomeD [OF Some] xs by simp
      then show ?thesis using None Some bget_miss [OF assms(1) None assms(2) Some] len by simp
    next
      case none: None
      then have "\<forall>i<NBUF. b_refcnt (bufs s ! i) \<noteq> 0" using xs by (simp add: find_None_iff)
      then show ?thesis using None none bget_full [OF assms(1) None] by simp
    qed
  qed
qed

theorem bget_recycles_lru_witness:
  "\<exists>t. bget ROOTDEV 33 demo_bio = Ok 29 t \<and> b_blockno (bufs t ! 29) = 33"
proof -
  have "[0..<Suc 29] = [0..<29] @ [29]" by (subst upt_Suc) simp
  moreover have "NBUF = Suc 29" by (simp add: NBUF_def)
  ultimately have "rev [0..<NBUF] = 29 # rev [0..<29]" by (simp only: rev_append) simp
  then have "find (\<lambda>i. b_refcnt (bufs demo_bio ! i) = 0) (rev [0..<NBUF]) = Some 29"
    by (simp add: NBUF_def MAXOPBLOCKS_def buf0_def nth_replicate)
  then show ?thesis
    using bget_recycles_lru [OF demo_bio_ok, of "[0..<NBUF]" 33] ring_upt by (auto simp: lkd_def)
qed

end
