(* ===== verification/Log.thy ===== *)
theory Log
  imports Bio
begin

text \<open>
  \<^verbatim>\<open>kernel/log.c\<close>: the redo log.  The state \<open>klog\<close> is \<^verbatim>\<open>struct log\<close>; the
  header block on disk is \<^verbatim>\<open>struct logheader\<close>, an \<^verbatim>\<open>int\<close> and an array of
  \<^verbatim>\<open>int\<close>s, in little-endian bytes.

  The theorems are about crashes.  \<open>dwrites\<close> records the block writes the disk has completed,
  in order, so a crash during \<^verbatim>\<open>commit\<close> leaves the disk after some prefix of its writes,
  and \<open>recovered\<close> is the disk \<^verbatim>\<open>recover_from_log\<close> makes of it.  A crash point
  either loses the whole transaction or keeps the whole of it.
\<close>

section \<open>State\<close>

record klog = kbio +
  log_start :: int
  log_size :: int
  log_outstanding :: int
  log_committing :: bool
  log_dev :: u32
  lh_n :: int
  lh_block :: "u32 list"

record superblock =
  sb_magic :: u32
  sb_size :: u32
  sb_nblocks :: u32
  sb_ninodes :: u32
  sb_nlog :: u32
  sb_logstart :: u32
  sb_inodestart :: u32
  sb_bmapstart :: u32

section \<open>Operations\<close>

text \<open>
  An array access outside the array has no meaning in C.  The model stops there, with a message
  of its own, so a theorem that code returns also says that it stays inside its arrays.
\<close>

definition out_of_bounds :: "('s, 'a) op" where
  "out_of_bounds = kpanic ''array index out of bounds''"

definition log_blk :: "int \<Rightarrow> nat \<Rightarrow> u32" where
  "log_blk start tail = word_of_int (start + int tail + 1)"

text \<open>\<^verbatim>\<open>log.lh.block[i]\<close>\<close>

definition get_lh_block :: "nat \<Rightarrow> ('a klog_scheme, u32) op" where
  "get_lh_block i = kbind (kget lh_block) (\<lambda>bl. if i < LOGSIZE then kret (bl ! i) else out_of_bounds)"

definition set_lh_block :: "nat \<Rightarrow> u32 \<Rightarrow> ('a klog_scheme, unit) op" where
  "set_lh_block i v = (if i < LOGSIZE then kmod (\<lambda>s. s\<lparr>lh_block := (lh_block s)[i := v]\<rparr>) else out_of_bounds)"

definition install_one :: "bool \<Rightarrow> nat \<Rightarrow> ('a klog_scheme, unit) op" where
  "install_one recovering tail =
     kbind (kget log_dev) (\<lambda>dev.
     kbind (kget log_start) (\<lambda>start.
     kbind (bread dev (log_blk start tail)) (\<lambda>lbuf.
     kbind (get_lh_block tail) (\<lambda>home.
     kbind (bread dev home) (\<lambda>dbuf.
     kbind (bdata lbuf) (\<lambda>d.
     kthen (set_bdata dbuf d) (
     kthen (bwrite dbuf) (
     kthen (kwhen (\<not> recovering) (bunpin dbuf)) (
     kthen (brelse lbuf)
     (brelse dbuf))))))))))"

definition install_trans :: "bool \<Rightarrow> ('a klog_scheme, unit) op" where
  "install_trans recovering =
     kbind (kget lh_n) (\<lambda>n. kfor [0..<nat n] (install_one recovering))"

text \<open>The fields \<^verbatim>\<open>lh->n\<close> and \<^verbatim>\<open>lh->block[i]\<close> of a header block.\<close>

definition head_n :: "u8 list \<Rightarrow> int" where
  "head_n d = sint (get_le 4 d 0 :: u32)"

definition head_block :: "u8 list \<Rightarrow> nat \<Rightarrow> u32" where
  "head_block d i = get_le 4 d (4 + 4 * i)"

definition read_head :: "('a klog_scheme, unit) op" where
  "read_head =
     kbind (kget log_dev) (\<lambda>dev.
     kbind (kget log_start) (\<lambda>start.
     kbind (bread dev (word_of_int start)) (\<lambda>b.
     kbind (bdata b) (\<lambda>d.
     kthen (kmod (\<lambda>s. s\<lparr>lh_n := head_n d\<rparr>)) (
     kthen (kfor [0..<nat (head_n d)] (\<lambda>i. set_lh_block i (head_block d i)))
     (brelse b))))))"

text \<open>The bytes \<^verbatim>\<open>write_head\<close> leaves in the header block.\<close>

definition put_head :: "int \<Rightarrow> u32 list \<Rightarrow> u8 list \<Rightarrow> u8 list" where
  "put_head n bl d =
     fold (\<lambda>i d. put_le 4 d (4 + 4 * i) (bl ! i)) [0..<nat n] (put_le 4 d 0 (word_of_int n :: u32))"

definition write_head :: "('a klog_scheme, unit) op" where
  "write_head =
     kbind (kget log_dev) (\<lambda>dev.
     kbind (kget log_start) (\<lambda>start.
     kbind (bread dev (word_of_int start)) (\<lambda>b.
     kbind (kget lh_n) (\<lambda>n.
     kbind (kget lh_block) (\<lambda>bl.
     if LOGSIZE < nat n then out_of_bounds else
     kbind (bdata b) (\<lambda>d.
     kthen (set_bdata b (put_head n bl d)) (
     kthen (bwrite b)
     (brelse b))))))))"

definition recover_from_log :: "('a klog_scheme, unit) op" where
  "recover_from_log =
     kthen read_head (
     kthen (install_trans True) (
     kthen (kmod (\<lambda>s. s\<lparr>lh_n := 0\<rparr>))
     write_head))"

text \<open>
  \<^verbatim>\<open>sizeof(struct logheader)\<close> is \<open>4 + 4 * LOGSIZE\<close>.
\<close>

definition initlog :: "u32 \<Rightarrow> superblock \<Rightarrow> ('a klog_scheme, unit) op" where
  "initlog dev sb =
     (if 4 + 4 * LOGSIZE \<ge> BSIZE then kpanic ''initlog: too big logheader'' else
      kthen (kmod (\<lambda>s. s\<lparr>log_start := sint (sb_logstart sb), log_size := sint (sb_nlog sb), log_dev := dev\<rparr>))
      recover_from_log)"

text \<open>
  One turn of the loop of \<^verbatim>\<open>begin_op\<close>: it ends in \<^verbatim>\<open>break\<close> or in
  \<^verbatim>\<open>sleep\<close>, after which the loop starts over.
\<close>

definition begin_op :: "('a klog_scheme, unit) op" where
  "begin_op =
     kthen (acquire LLog) (
     kbind (kget log_committing) (\<lambda>committing.
     kbind (kget lh_n) (\<lambda>n.
     kbind (kget log_outstanding) (\<lambda>out.
     if committing then sleep ChLog LLog
     else if n + (out + 1) * int MAXOPBLOCKS > int LOGSIZE then sleep ChLog LLog
     else kthen (kmod (\<lambda>s. s\<lparr>log_outstanding := log_outstanding s + 1\<rparr>))
          (release LLog)))))"

definition write_log_one :: "nat \<Rightarrow> ('a klog_scheme, unit) op" where
  "write_log_one tail =
     kbind (kget log_dev) (\<lambda>dev.
     kbind (kget log_start) (\<lambda>start.
     kbind (bread dev (log_blk start tail)) (\<lambda>to.
     kbind (get_lh_block tail) (\<lambda>home.
     kbind (bread dev home) (\<lambda>from.
     kbind (bdata from) (\<lambda>d.
     kthen (set_bdata to d) (
     kthen (bwrite to) (
     kthen (brelse from)
     (brelse to)))))))))"

definition write_log :: "('a klog_scheme, unit) op" where
  "write_log = kbind (kget lh_n) (\<lambda>n. kfor [0..<nat n] write_log_one)"

definition commit :: "('a klog_scheme, unit) op" where
  "commit =
     kbind (kget lh_n) (\<lambda>n.
     kwhen (n > 0) (
       kthen write_log (
       kthen write_head (
       kthen (install_trans False) (
       kthen (kmod (\<lambda>s. s\<lparr>lh_n := 0\<rparr>))
       write_head)))))"

definition end_op :: "('a klog_scheme, unit) op" where
  "end_op =
     kthen (acquire LLog) (
     kthen (kmod (\<lambda>s. s\<lparr>log_outstanding := log_outstanding s - 1\<rparr>)) (
     kbind (kget log_committing) (\<lambda>committing.
     if committing then kpanic ''log.committing'' else
     kbind (kget log_outstanding) (\<lambda>out.
     if out = 0 then
       kthen (kmod (\<lambda>s. s\<lparr>log_committing := True\<rparr>)) (
       kthen (release LLog) (
       kthen commit (
       kthen (acquire LLog) (
       kthen (kmod (\<lambda>s. s\<lparr>log_committing := False\<rparr>)) (
       kthen (wakeup ChLog)
       (release LLog))))))
     else
       kthen (wakeup ChLog)
       (release LLog)))))"

text \<open>The first \<open>i\<close> with \<^verbatim>\<open>log.lh.block[i] == b->blockno\<close>, or \<^verbatim>\<open>log.lh.n\<close>.\<close>

definition log_find :: "u32 \<Rightarrow> nat \<Rightarrow> u32 list \<Rightarrow> nat" where
  "log_find bn n bl = length (takeWhile (\<lambda>x. x \<noteq> bn) (take n bl))"

definition log_write :: "nat \<Rightarrow> ('a klog_scheme, unit) op" where
  "log_write b =
     kthen (acquire LLog) (
     kbind (kget lh_n) (\<lambda>n.
     kbind (kget log_size) (\<lambda>size.
     if n \<ge> int LOGSIZE \<or> n \<ge> size - 1 then kpanic ''too big a transaction'' else
     kbind (kget log_outstanding) (\<lambda>out.
     if out < 1 then kpanic ''log_write outside of trans'' else
     kbind (kget (\<lambda>s. b_blockno (bufs s ! b))) (\<lambda>bn.
     kbind (kget (\<lambda>s. log_find bn (nat n) (lh_block s))) (\<lambda>i.
     kthen (set_lh_block i bn) (
     kthen (kwhen (int i = n) (
       kthen (bpin b)
       (kmod (\<lambda>s. s\<lparr>lh_n := lh_n s + 1\<rparr>))))
     (release LLog))))))))"

section \<open>Copying a block through the cache\<close>

lemma pinned_bread: "pinned (abs_bread b n a) \<le> pinned a + 1"
proof -
  have "{m. a_pin (abs_bread b n a) m \<noteq> 0} \<subseteq> insert n {m. a_pin a m \<noteq> 0}" by (auto simp: abs_bread_def)
  then have "pinned (abs_bread b n a) \<le> card (insert n {m. a_pin a m \<noteq> 0})"
    unfolding pinned_def by (rule card_mono [rotated]) simp
  also have "\<dots> \<le> pinned a + 1" unfolding pinned_def by (simp add: card_insert_if)
  finally show ?thesis .
qed

lemma can_bread_next:
  assumes "can_bread n a" and "m \<noteq> n" and "a_pin a n \<noteq> 0 \<or> pinned a + 1 < NBUF"
  shows "can_bread n (abs_bread b m a)"
  using assms pinned_bread [of b m a] by (auto simp: can_bread_def abs_bread_def)

definition abs_write :: "u32 \<Rightarrow> u8 list \<Rightarrow> bcache_abs \<Rightarrow> bcache_abs" where
  "abs_write n d a = a\<lparr>a_view := (a_view a)(n := d), a_disk := (a_disk a)(n := d),
                        a_writes := a_writes a @ [(n, d)]\<rparr>"

definition abs_unpin :: "u32 \<Rightarrow> bcache_abs \<Rightarrow> bcache_abs" where
  "abs_unpin n a = a\<lparr>a_pin := (a_pin a)(n := a_pin a n - 1)\<rparr>"

lemmas abs_defs = abs_bread_def abs_bwrite_def abs_set_def abs_brelse_def abs_bpin_def abs_bunpin_def
  abs_write_def abs_unpin_def

lemma abs_copy_out:
  assumes "b1 \<noteq> b2" and "a_own a b1 = None" and "a_own a b2 = None" and "\<not> a_lkd a m" and "\<not> a_lkd a n" and "m \<noteq> n"
  shows "abs_brelse b1 (abs_brelse b2 (abs_bwrite b1 (abs_set b1 d (abs_bread b2 n (abs_bread b1 m a))))) = abs_write m d a"
  by (rule bcache_abs.equality) (use assms in \<open>auto simp: abs_defs fun_eq_iff\<close>)

lemma abs_copy_in:
  assumes "b1 \<noteq> b2" and "a_own a b1 = None" and "a_own a b2 = None" and "\<not> a_lkd a m" and "\<not> a_lkd a n" and "m \<noteq> n"
  shows "abs_brelse b2 (abs_brelse b1 (abs_bwrite b2 (abs_set b2 d (abs_bread b2 n (abs_bread b1 m a))))) = abs_write n d a"
    and "abs_brelse b2 (abs_brelse b1 (abs_unpin n (abs_bwrite b2 (abs_set b2 d (abs_bread b2 n (abs_bread b1 m a)))))) =
           abs_unpin n (abs_write n d a)"
  by (rule bcache_abs.equality; use assms in \<open>auto simp: abs_defs fun_eq_iff\<close>)+

context buffer_cache
begin

text \<open>The body of \<^verbatim>\<open>write_log\<close>: \<open>m\<close> is the log block, \<open>n\<close> the home block.\<close>

lemma copy_out:
  assumes "ok s" and m: "can_bread m (ab s)" and n: "can_bread n (ab s)" and "m \<noteq> n" and "a_pin (ab s) n \<noteq> 0"
  shows "\<exists>t. kbind (rd m) (\<lambda>to. kbind (rd n) (\<lambda>from. kbind (dat from) (\<lambda>d.
               kthen (st to d) (kthen (wr to) (kthen (rel from) (rel to)))))) s = Ok () t
           \<and> ok t \<and> fr s t \<and> ab t = abs_write m (a_view (ab s) n) (ab s)"
proof -
  let ?d = "a_view (ab s) n"
  obtain b1 s1 where r1: "rd m s = Ok b1 s1" "ok s1" "fr s s1" "a_own (ab s) b1 = None" "ab s1 = abs_bread b1 m (ab s)"
    using rd_law [OF assms(1) m] by blast
  have "can_bread n (ab s1)" using can_bread_next [OF n assms(4)] assms(5) r1(5) by simp
  then obtain b2 s2 where r2: "rd n s1 = Ok b2 s2" "ok s2" "fr s1 s2" "a_own (ab s1) b2 = None" "ab s2 = abs_bread b2 n (ab s1)"
    using rd_law [OF r1(2)] by blast
  have bb: "b1 \<noteq> b2" using r2(4) r1(5) by (auto simp: abs_defs)
  have n2: "a_own (ab s) b2 = None" using r2(4) r1(5) bb by (simp add: abs_defs)
  have o1: "a_own (ab s2) b1 = Some m" and o2: "a_own (ab s2) b2 = Some n" using r1(5) r2(5) bb by (auto simp: abs_defs)
  have dt: "dat b2 s2 = Ok ?d s2" using dat_law [OF r2(2) o2] r1(5) r2(5) by (simp add: abs_defs)
  obtain s3 where r3: "st b1 ?d s2 = Ok () s3" "ok s3" "fr s2 s3" "ab s3 = abs_set b1 ?d (ab s2)"
    using st_law [OF r2(2) o1] sized [OF assms(1)] by blast
  have o3: "a_own (ab s3) b1 = Some m" using r3(4) o1 by (simp add: abs_defs)
  obtain s4 where r4: "wr b1 s3 = Ok () s4" "ok s4" "fr s3 s4" "ab s4 = abs_bwrite b1 (ab s3)"
    using wr_law [OF r3(2) o3] by blast
  have s4: "a_own (ab s4) b1 = Some m" "a_own (ab s4) b2 = Some n" "a_pin (ab s4) n \<ge> 2" "a_view (ab s4) m = a_disk (ab s4) m"
    using r4(4) r3(4) o1 o2 r2(5) r1(5) assms(4,5) by (auto simp: abs_defs)
  obtain s5 where r5: "rel b2 s4 = Ok () s5" "ok s5" "fr s4 s5" "ab s5 = abs_brelse b2 (ab s4)"
    using rel_law [OF r4(2) s4(2)] s4(3) by blast
  have s5: "a_own (ab s5) b1 = Some m" "a_view (ab s5) m = a_disk (ab s5) m"
    using r5(4) s4 bb by (auto simp: abs_defs)
  obtain s6 where r6: "rel b1 s5 = Ok () s6" "ok s6" "fr s5 s6" "ab s6 = abs_brelse b1 (ab s5)"
    using rel_law [OF r5(2) s5(1)] s5(2) by blast
  have "ab s6 = abs_write m ?d (ab s)"
    using abs_copy_out [OF bb r1(4) n2 _ _ assms(4)] m n
    by (simp add: r6(4) r5(4) r4(4) r3(4) r2(5) r1(5) can_bread_def)
  moreover have "fr s s6" using r1(3) r2(3) r3(3) r4(3) r5(3) r6(3) by (meson fr_trans)
  ultimately show ?thesis using r1(1) r2(1) dt r3(1) r4(1) r5(1) r6(1,2) by (simp add: run_kbind run_kthen)
qed

text \<open>The body of \<^verbatim>\<open>install_trans\<close>, with and without \<^verbatim>\<open>bunpin\<close>.\<close>

lemma copy_in:
  assumes "ok s" and m: "can_bread m (ab s)" and n: "can_bread n (ab s)" and "m \<noteq> n"
    and room: "a_pin (ab s) n \<noteq> 0 \<or> pinned (ab s) + 1 < NBUF" and up: "u \<longrightarrow> a_pin (ab s) n \<noteq> 0"
  shows "\<exists>t. kbind (rd m) (\<lambda>lbuf. kbind (rd n) (\<lambda>dbuf. kbind (dat lbuf) (\<lambda>d.
               kthen (st dbuf d) (kthen (wr dbuf) (kthen (kwhen u (upn dbuf)) (kthen (rel lbuf) (rel dbuf))))))) s = Ok () t
           \<and> ok t \<and> fr s t \<and> ab t = (if u then abs_unpin n else id) (abs_write n (a_view (ab s) m) (ab s))"
proof -
  let ?d = "a_view (ab s) m"
  obtain b1 s1 where r1: "rd m s = Ok b1 s1" "ok s1" "fr s s1" "a_own (ab s) b1 = None" "ab s1 = abs_bread b1 m (ab s)"
    using rd_law [OF assms(1) m] by blast
  have "can_bread n (ab s1)" using can_bread_next [OF n assms(4) room] r1(5) by simp
  then obtain b2 s2 where r2: "rd n s1 = Ok b2 s2" "ok s2" "fr s1 s2" "a_own (ab s1) b2 = None" "ab s2 = abs_bread b2 n (ab s1)"
    using rd_law [OF r1(2)] by blast
  have bb: "b1 \<noteq> b2" using r2(4) r1(5) by (auto simp: abs_defs)
  have n2: "a_own (ab s) b2 = None" using r2(4) r1(5) bb by (simp add: abs_defs)
  have o1: "a_own (ab s2) b1 = Some m" and o2: "a_own (ab s2) b2 = Some n" using r1(5) r2(5) bb by (auto simp: abs_defs)
  have dt: "dat b1 s2 = Ok ?d s2" using dat_law [OF r2(2) o1] r1(5) r2(5) by (simp add: abs_defs)
  obtain s3 where r3: "st b2 ?d s2 = Ok () s3" "ok s3" "fr s2 s3" "ab s3 = abs_set b2 ?d (ab s2)"
    using st_law [OF r2(2) o2] sized [OF assms(1)] by blast
  have o3: "a_own (ab s3) b2 = Some n" using r3(4) o2 by (simp add: abs_defs)
  obtain s4 where r4: "wr b2 s3 = Ok () s4" "ok s4" "fr s3 s4" "ab s4 = abs_bwrite b2 (ab s3)"
    using wr_law [OF r3(2) o3] by blast
  have s4: "a_own (ab s4) b1 = Some m" "a_own (ab s4) b2 = Some n" "a_pin (ab s4) n = a_pin (ab s) n + 1"
    using r4(4) r3(4) o1 o2 r2(5) r1(5) assms(4) by (auto simp: abs_defs)
  have "\<exists>s5. kwhen u (upn b2) s4 = Ok () s5 \<and> ok s5 \<and> (fr s4 s5 \<or> s5 = s4) \<and> ab s5 = (if u then abs_unpin n else id) (ab s4)"
    using upn_law [OF r4(2) s4(2)] s4 up r4(2) by (auto simp: abs_defs)
  then obtain s5 where r5: "kwhen u (upn b2) s4 = Ok () s5" "ok s5" "fr s4 s5 \<or> s5 = s4" "ab s5 = (if u then abs_unpin n else id) (ab s4)"
    by blast
  have s5: "a_own (ab s5) b1 = Some m" "a_own (ab s5) b2 = Some n" "a_view (ab s5) n = a_disk (ab s5) n"
    "a_pin (ab s5) m = a_pin (ab s) m + 1" "a_view (ab s5) m = a_view (ab s) m" "a_disk (ab s5) m = a_disk (ab s) m"
    using r5(4) r4(4) r3(4) o1 o2 r2(5) r1(5) assms(4) by (auto simp: abs_defs)
  have "a_pin (ab s5) m \<ge> 2 \<or> a_view (ab s5) m = a_disk (ab s5) m"
    using s5 clean [OF assms(1), of m] by (cases "a_pin (ab s) m") auto
  then obtain s6 where r6: "rel b1 s5 = Ok () s6" "ok s6" "fr s5 s6" "ab s6 = abs_brelse b1 (ab s5)"
    using rel_law [OF r5(2) s5(1)] by blast
  have s6: "a_own (ab s6) b2 = Some n" "a_view (ab s6) n = a_disk (ab s6) n"
    using r6(4) s5 bb by (auto simp: abs_defs)
  obtain s7 where r7: "rel b2 s6 = Ok () s7" "ok s7" "fr s6 s7" "ab s7 = abs_brelse b2 (ab s6)"
    using rel_law [OF r6(2) s6(1)] s6(2) by blast
  have "ab s7 = (if u then abs_unpin n else id) (abs_write n ?d (ab s))"
    using abs_copy_in [OF bb r1(4) n2 _ _ assms(4)] m n
    by (simp add: r7(4) r6(4) r5(4) r4(4) r3(4) r2(5) r1(5) can_bread_def)
  moreover have "fr s s7" using r1(3) r2(3) r3(3) r4(3) r5(3) r6(3) r7(3) by (metis fr_trans)
  moreover have "kbind (rd m) (\<lambda>lbuf. kbind (rd n) (\<lambda>dbuf. kbind (dat lbuf) (\<lambda>d.
               kthen (st dbuf d) (kthen (wr dbuf) (kthen (kwhen u (upn dbuf)) (kthen (rel lbuf) (rel dbuf))))))) s = Ok () s7"
    using r1(1) r2(1) dt r3(1) r4(1) r5(1) r6(1) r7(1) by (simp only: run_kbind run_kthen out.case)
  ultimately show ?thesis using r7(2) by blast
qed

end

section \<open>The log fields and the cache\<close>

lemma bio_frame_log:
  fixes s t :: "'a klog_scheme"
  assumes "bio_frame s t"
  shows "log_start t = log_start s" and "log_size t = log_size s" and "log_outstanding t = log_outstanding s"
    and "log_committing t = log_committing s" and "log_dev t = log_dev s" and "lh_n t = lh_n s" and "lh_block t = lh_block s"
    and "klog.more t = klog.more s"
  using assms by (cases s; cases t; simp add: bio_frame_def)+

lemma bio_abs_cong:
  assumes "bufs t = bufs s" and "slocks t = slocks s" and "disk t = disk s" and "dwrites t = dwrites s" and "mypid t = mypid s"
  shows "bio_abs t = bio_abs s"
proof -
  have "slot t n = slot s n" for n using assms by (simp add: slot_def)
  then show ?thesis
    using assms by (simp add: bio_abs_def view_def pin_def lkd_def own_def fun_eq_iff split: option.split)
qed

lemma mypid_upd [simp]:
  "mypid (s\<lparr>lh_n := n\<rparr>) = mypid s" "mypid (s\<lparr>lh_block := bl\<rparr>) = mypid s" "mypid (t\<lparr>held := h\<rparr>) = mypid t"
  "mypid (s\<lparr>log_outstanding := x\<rparr>) = mypid s" "mypid (s\<lparr>log_committing := c\<rparr>) = mypid s"
  by (auto simp: mypid_def split: option.split)

lemma bio_abs_upd [simp]:
  "bio_abs (s\<lparr>lh_n := n\<rparr>) = bio_abs s" "bio_abs (s\<lparr>lh_block := bl\<rparr>) = bio_abs s" "bio_abs (t\<lparr>held := h\<rparr>) = bio_abs t"
  "bio_abs (s\<lparr>log_outstanding := x\<rparr>) = bio_abs s" "bio_abs (s\<lparr>log_committing := c\<rparr>) = bio_abs s"
  by (auto intro!: bio_abs_cong)

lemma bio_abs_eqD:
  assumes "bio_abs t = bio_abs s"
  shows "view t = view s" and "pin t = pin s" and "lkd t = lkd s" and "own t = own s" and "disk t = disk s" and "dwrites t = dwrites s"
  using assms by (simp_all add: bio_abs_def)

lemma bio_sel_upd [simp]:
  "view (s\<lparr>lh_n := n\<rparr>) = view s" "view (s\<lparr>lh_block := bl\<rparr>) = view s" "pin (s\<lparr>lh_n := n\<rparr>) = pin s"
  "pin (s\<lparr>lh_block := bl\<rparr>) = pin s" "own (s\<lparr>lh_n := n\<rparr>) = own s" "own (s\<lparr>lh_block := bl\<rparr>) = own s"
  "lkd (s\<lparr>lh_n := n\<rparr>) = lkd s" "lkd (s\<lparr>lh_block := bl\<rparr>) = lkd s"
  by (intro bio_abs_eqD bio_abs_upd)+

lemma bio_inv_upd [simp]:
  "bio_inv (s\<lparr>lh_n := n\<rparr>) = bio_inv s" "bio_inv (s\<lparr>lh_block := bl\<rparr>) = bio_inv s" "bio_inv (t\<lparr>held := h\<rparr>) = bio_inv t"
  "bio_inv (s\<lparr>log_outstanding := x\<rparr>) = bio_inv s" "bio_inv (s\<lparr>log_committing := c\<rparr>) = bio_inv s"
  by (auto simp: bio_inv_def caches_def)

lemma bio_ctx_upd [simp]:
  "bio_ctx (s\<lparr>lh_n := n\<rparr>) = bio_ctx s" "bio_ctx (s\<lparr>lh_block := bl\<rparr>) = bio_ctx s"
  "bio_ctx (s\<lparr>log_outstanding := x\<rparr>) = bio_ctx s" "bio_ctx (s\<lparr>log_committing := c\<rparr>) = bio_ctx s"
  by (auto simp: bio_ctx_def)

lemma bio_ok_upd [simp]:
  "bio_ok (s\<lparr>lh_n := n\<rparr>) = bio_ok s" "bio_ok (s\<lparr>lh_block := bl\<rparr>) = bio_ok s"
  "bio_ok (s\<lparr>log_outstanding := x\<rparr>) = bio_ok s" "bio_ok (s\<lparr>log_committing := c\<rparr>) = bio_ok s"
  by (simp_all add: bio_ok_def)

section \<open>Sequences of writes\<close>

definition apply_writes :: "(u32 \<times> u8 list) list \<Rightarrow> (u32 \<Rightarrow> u8 list) \<Rightarrow> u32 \<Rightarrow> u8 list" where
  "apply_writes ws d = fold (\<lambda>(n, v) d. d(n := v)) ws d"

lemma apply_writes_simps [simp]:
  "apply_writes [] d = d" "apply_writes ((n, v) # ws) d = apply_writes ws (d(n := v))"
  "apply_writes (ws @ ws') d = apply_writes ws' (apply_writes ws d)"
  by (simp_all add: apply_writes_def)

lemma apply_writes_other: "m \<notin> fst ` set ws \<Longrightarrow> apply_writes ws d m = d m"
  by (induction ws arbitrary: d) (auto simp: apply_writes_def)

lemma apply_writes_in:
  assumes "distinct (map fst ws)" and "(m, v) \<in> set ws"
  shows "apply_writes ws d m = v"
  using assms
proof (induction ws arbitrary: d)
  case (Cons w ws)
  obtain n x where w: "w = (n, x)" by fastforce
  show ?case
  proof (cases "(m, v) = (n, x)")
    case True
    then show ?thesis using Cons.prems w by (simp add: apply_writes_other)
  next
    case False
    then show ?thesis using Cons w by auto
  qed
qed simp

text \<open>Writing values that are the same function of the block, in whatever order and however often.\<close>

lemma apply_writes_fun:
  assumes "\<forall>(n, v)\<in>set ws. v = f n"
  shows "apply_writes ws d m = (if m \<in> fst ` set ws then f m else d m)"
  using assms by (induction ws arbitrary: d) (auto simp: apply_writes_def)

definition abs_writes :: "(u32 \<times> u8 list) list \<Rightarrow> bcache_abs \<Rightarrow> bcache_abs" where
  "abs_writes ws a = a\<lparr>a_view := apply_writes ws (a_view a), a_disk := apply_writes ws (a_disk a), a_writes := a_writes a @ ws\<rparr>"

lemma abs_writes_Nil [simp]: "abs_writes [] a = a"
  by (simp add: abs_writes_def)

lemma abs_writes_snoc: "abs_write n d (abs_writes ws a) = abs_writes (ws @ [(n, d)]) a"
  by (simp add: abs_writes_def abs_write_def)

lemma abs_writes_append [simp]: "abs_writes ws' (abs_writes ws a) = abs_writes (ws @ ws') a"
  by (simp add: abs_writes_def)

lemma abs_writes_sel [simp]:
  "a_view (abs_writes ws a) = apply_writes ws (a_view a)" "a_disk (abs_writes ws a) = apply_writes ws (a_disk a)"
  "a_writes (abs_writes ws a) = a_writes a @ ws" "a_pin (abs_writes ws a) = a_pin a" "a_lkd (abs_writes ws a) = a_lkd a"
  "a_own (abs_writes ws a) = a_own a" "pinned (abs_writes ws a) = pinned a"
  by (simp_all add: abs_writes_def pinned_def)

section \<open>The log on disk\<close>

definition in_log :: "'a klog_scheme \<Rightarrow> u32 \<Rightarrow> bool" where
  "in_log s m \<longleftrightarrow> log_start s \<le> uint m \<and> uint m < log_start s + log_size s"

definition log_wf :: "'a klog_scheme \<Rightarrow> bool" where
  "log_wf s \<longleftrightarrow> log_dev s = ROOTDEV \<and> 0 \<le> log_start s \<and> log_start s + log_size s \<le> 2 ^ 31 \<and>
     1 \<le> log_size s \<and> log_size s \<le> int LOGSIZE \<and> length (lh_block s) = LOGSIZE"

abbreviation log_head :: "'a klog_scheme \<Rightarrow> u32" where
  "log_head s \<equiv> word_of_int (log_start s)"

text \<open>The home blocks of the transaction.\<close>

definition logged :: "'a klog_scheme \<Rightarrow> u32 list" where
  "logged s = take (nat (lh_n s)) (lh_block s)"

text \<open>Nobody has a block locked.\<close>

definition calm :: "bcache_abs \<Rightarrow> bool" where
  "calm a \<longleftrightarrow> (\<forall>n. \<not> a_lkd a n \<and> a_pin a n < 2 ^ 32 - 1)"

definition log_inv :: "'a klog_scheme \<Rightarrow> bool" where
  "log_inv s \<longleftrightarrow> log_wf s \<and> 0 \<le> lh_n s \<and> lh_n s \<le> log_size s - 1 \<and>
     distinct (logged s) \<and> (\<forall>m\<in>set (logged s). \<not> in_log s m)"

lemma uint_log_blk:
  assumes "log_wf s" and "int i < log_size s - 1"
  shows "uint (log_blk (log_start s) i) = log_start s + int i + 1" and "uint (log_head s) = log_start s"
  using assms unfolding log_wf_def log_blk_def uint_word_of_int
  by (intro mod_pos_pos_trivial; simp)+

lemma log_blk_region:
  assumes "log_wf s" and "int i < log_size s - 1"
  shows "in_log s (log_blk (log_start s) i)" and "log_blk (log_start s) i \<noteq> log_head s"
  using uint_log_blk [OF assms] assms by (auto simp: in_log_def)

lemma log_head_region: "log_wf s \<Longrightarrow> in_log s (log_head s)"
  by (auto simp: in_log_def log_wf_def uint_word_of_int)

lemma log_blk_inj:
  assumes "log_wf s" and "int i < log_size s - 1" and "int j < log_size s - 1"
    and "log_blk (log_start s) i = log_blk (log_start s) j"
  shows "i = j"
proof -
  have "uint (log_blk (log_start s) i) = uint (log_blk (log_start s) j)" by (rule arg_cong [OF assms(4)])
  then show ?thesis unfolding uint_log_blk(1) [OF assms(1,2)] uint_log_blk(1) [OF assms(1,3)] by simp
qed

section \<open>The steps of a commit\<close>

lemma calm_can_bread: "calm a \<Longrightarrow> a_pin a n \<noteq> 0 \<or> pinned a < NBUF \<Longrightarrow> can_bread n a"
  by (simp add: calm_def can_bread_def)

lemma calm_writes [simp]: "calm (abs_writes ws a) = calm a"
  by (simp add: calm_def)

lemma bread_get_lh_block:
  fixes s :: "'a klog_scheme"
  assumes "bio_ok s" and "can_bread m (bio_abs s)" and "i < LOGSIZE"
  shows "kbind (bread ROOTDEV m) (\<lambda>b. kbind (get_lh_block i) (\<lambda>home. f b home)) s =
         kbind (bread ROOTDEV m) (\<lambda>b. f b (lh_block s ! i)) s"
proof -
  obtain b t where "bread ROOTDEV m s = Ok b t" and f: "bio_frame s t"
    using bcache.rd_law [OF assms(1,2)] by blast
  then show ?thesis using assms(3) bio_frame_log(7) [OF f] by (simp add: run_kbind get_lh_block_def)
qed

lemma length_logged: "log_inv s \<Longrightarrow> length (logged s) = nat (lh_n s)"
  by (auto simp: logged_def log_inv_def log_wf_def)

lemma write_log_one_law:
  fixes s :: "'a klog_scheme"
  assumes ok: "bio_ok s" and wf: "log_inv s" and i: "i < nat (lh_n s)" and calm: "calm (bio_abs s)"
    and room: "pinned (bio_abs s) < NBUF" and p: "a_pin (bio_abs s) (logged s ! i) \<noteq> 0"
  shows "\<exists>t. write_log_one i s = Ok () t \<and> bio_ok t \<and> bio_frame s t \<and>
      bio_abs t = abs_write (log_blk (log_start s) i) (a_view (bio_abs s) (logged s ! i)) (bio_abs s)"
proof -
  have wf': "log_wf s" "log_dev s = ROOTDEV" "int i < log_size s - 1" "i < LOGSIZE" and at: "logged s ! i = lh_block s ! i"
    using wf i by (auto simp: log_inv_def log_wf_def logged_def)
  have "logged s ! i \<in> set (logged s)" using i length_logged [OF wf] by simp
  then have ne: "log_blk (log_start s) i \<noteq> logged s ! i"
    using wf log_blk_region(1) [OF wf'(1,3)] by (auto simp: log_inv_def)
  note cb = calm_can_bread [OF calm]
  have m: "can_bread (log_blk (log_start s) i) (bio_abs s)" and n: "can_bread (logged s ! i) (bio_abs s)"
    using cb room p by blast+
  have "write_log_one i s = kbind (bread ROOTDEV (log_blk (log_start s) i)) (\<lambda>to. kbind (bread ROOTDEV (logged s ! i)) (\<lambda>from.
      kbind (bdata from) (\<lambda>d. kthen (set_bdata to d) (kthen (bwrite to) (kthen (brelse from) (brelse to)))))) s"
    using bread_get_lh_block [OF ok m wf'(4)] by (simp add: write_log_one_def run_kbind [of "kget _"] wf'(2) at)
  then show ?thesis using bcache.copy_out [OF ok m n ne p] by simp
qed

lemma install_one_law:
  fixes s :: "'a klog_scheme"
  assumes ok: "bio_ok s" and wf: "log_wf s" and i: "i < nat (lh_n s)" "lh_n s \<le> log_size s - 1" and calm: "calm (bio_abs s)"
    and room: "pinned (bio_abs s) + (if r then 1 else 0) < NBUF" and p: "\<not> r \<longrightarrow> a_pin (bio_abs s) (lh_block s ! i) \<noteq> 0"
    and home: "\<not> in_log s (lh_block s ! i)"
  shows "\<exists>t. install_one r i s = Ok () t \<and> bio_ok t \<and> bio_frame s t \<and>
      bio_abs t = (if r then id else abs_unpin (lh_block s ! i))
        (abs_write (lh_block s ! i) (a_view (bio_abs s) (log_blk (log_start s) i)) (bio_abs s))"
proof -
  have wf': "log_dev s = ROOTDEV" "int i < log_size s - 1" "i < LOGSIZE"
    using wf i by (auto simp: log_wf_def)
  have ne: "log_blk (log_start s) i \<noteq> lh_block s ! i"
    using home log_blk_region(1) [OF wf wf'(2)] by auto
  note cb = calm_can_bread [OF calm]
  have m: "can_bread (log_blk (log_start s) i) (bio_abs s)" and n: "can_bread (lh_block s ! i) (bio_abs s)"
    using cb room p by (auto split: if_splits)
  have "a_pin (bio_abs s) (lh_block s ! i) \<noteq> 0 \<or> pinned (bio_abs s) + 1 < NBUF" using room p by auto
  note ci = bcache.copy_in [OF ok m n ne this, of "\<not> r"]
  have "install_one r i s = kbind (bread ROOTDEV (log_blk (log_start s) i)) (\<lambda>lbuf. kbind (bread ROOTDEV (lh_block s ! i)) (\<lambda>dbuf.
      kbind (bdata lbuf) (\<lambda>d. kthen (set_bdata dbuf d) (kthen (bwrite dbuf) (kthen (kwhen (\<not> r) (bunpin dbuf))
        (kthen (brelse lbuf) (brelse dbuf))))))) s"
    using bread_get_lh_block [OF ok m wf'(3)] by (simp add: install_one_def run_kbind [of "kget _"] wf'(1))
  then show ?thesis using ci p by (cases r) simp_all
qed

lemma log_inv_frame: "bio_frame s t \<Longrightarrow> log_inv t = log_inv s"
  by (simp add: log_inv_def log_wf_def logged_def in_log_def bio_frame_log)

lemma log_wf_frame: "bio_frame s t \<Longrightarrow> log_wf t = log_wf s"
  by (simp add: log_wf_def bio_frame_log)

lemma write_log_loop:
  fixes s :: "'a klog_scheme"
  assumes ok: "bio_ok s" and wf: "log_inv s" and calm: "calm (bio_abs s)" and room: "pinned (bio_abs s) < NBUF"
    and p: "\<forall>m\<in>set (logged s). a_pin (bio_abs s) m \<noteq> 0" and k: "k \<le> nat (lh_n s)"
  shows "\<exists>t. kfor [0..<k] write_log_one s = Ok () t \<and> bio_ok t \<and> bio_frame s t \<and>
      bio_abs t = abs_writes (map (\<lambda>i. (log_blk (log_start s) i, a_view (bio_abs s) (logged s ! i))) [0..<k]) (bio_abs s)"
  using k
proof (induction k)
  case 0
  then show ?case using ok by simp
next
  case (Suc k)
  let ?w = "\<lambda>i. (log_blk (log_start s) i, a_view (bio_abs s) (logged s ! i))"
  from Suc obtain t where t: "kfor [0..<k] write_log_one s = Ok () t" "bio_ok t" "bio_frame s t"
    "bio_abs t = abs_writes (map ?w [0..<k]) (bio_abs s)" by auto
  note fl = bio_frame_log [OF t(3)]
  have lg: "logged t = logged s" by (simp add: logged_def fl)
  have len: "length (logged s) = nat (lh_n s)" using wf by (auto simp: logged_def log_inv_def log_wf_def)
  then have kin: "logged s ! k \<in> set (logged s)" using Suc.prems by simp
  then have out: "\<not> in_log s (logged s ! k)" using wf by (simp add: log_inv_def)
  have "logged s ! k \<notin> fst ` set (map ?w [0..<k])"
  proof
    assume "logged s ! k \<in> fst ` set (map ?w [0..<k])"
    then obtain i where i: "i < k" "logged s ! k = log_blk (log_start s) i" by auto
    then have "int i < log_size s - 1" using Suc.prems wf unfolding log_inv_def by linarith
    then show False using out log_blk_region(1) [of s i] wf i(2) by (simp add: log_inv_def)
  qed
  then have v: "a_view (bio_abs t) (logged s ! k) = a_view (bio_abs s) (logged s ! k)"
    unfolding t(4) abs_writes_sel by (rule apply_writes_other)
  obtain u where u: "write_log_one k t = Ok () u" "bio_ok u" "bio_frame t u"
    "bio_abs u = abs_write (log_blk (log_start t) k) (a_view (bio_abs t) (logged t ! k)) (bio_abs t)"
    using write_log_one_law [of t k] t(2) wf Suc.prems calm room p kin
    by (auto simp: log_inv_frame [OF t(3)] fl lg t(4))
  have "bio_abs u = abs_writes (map ?w [0..<Suc k]) (bio_abs s)"
    by (simp add: u(4) lg fl v) (simp add: t(4) abs_writes_snoc)
  then show ?case using t(1) u bio_frame_trans [OF t(3) u(3)] by (simp add: kfor_append run_kthen run_kbind)
qed

definition unpins :: "u32 list \<Rightarrow> bcache_abs \<Rightarrow> bcache_abs" where
  "unpins bl a = a\<lparr>a_pin := \<lambda>m. a_pin a m - count_list bl m\<rparr>"

lemma unpins_sel [simp]:
  "a_view (unpins bl a) = a_view a" "a_disk (unpins bl a) = a_disk a" "a_writes (unpins bl a) = a_writes a"
  "a_lkd (unpins bl a) = a_lkd a" "a_own (unpins bl a) = a_own a" "a_pin (unpins bl a) m = a_pin a m - count_list bl m"
  by (simp_all add: unpins_def)

lemma unpins_Nil [simp]: "unpins [] a = a"
  by (simp add: unpins_def)

lemma unpins_snoc: "abs_unpin n (unpins bl a) = unpins (bl @ [n]) a"
  by (rule bcache_abs.equality) (auto simp: abs_unpin_def unpins_def)

lemma unpins_write: "abs_write n d (unpins bl a) = unpins bl (abs_write n d a)"
  by (simp add: abs_write_def unpins_def)

lemma calm_unpins: "calm a \<Longrightarrow> calm (unpins bl a)"
  by (auto simp: calm_def intro: le_less_trans [OF diff_le_self])

lemma pinned_unpins: "pinned (unpins bl a) \<le> pinned a"
  unfolding pinned_def by (rule card_mono) auto

lemma install_loop:
  fixes s :: "'a klog_scheme"
  assumes ok: "bio_ok s" and wf: "log_wf s" "lh_n s \<le> log_size s - 1" and calm: "calm (bio_abs s)"
    and room: "pinned (bio_abs s) + (if r then 1 else 0) < NBUF"
    and p: "\<not> r \<longrightarrow> distinct (logged s) \<and> (\<forall>m\<in>set (logged s). a_pin (bio_abs s) m \<noteq> 0)"
    and home: "\<forall>m\<in>set (logged s). \<not> in_log s m" and k: "k \<le> nat (lh_n s)"
  shows "\<exists>t. kfor [0..<k] (install_one r) s = Ok () t \<and> bio_ok t \<and> bio_frame s t \<and>
      bio_abs t = unpins (if r then [] else take k (logged s))
        (abs_writes (map (\<lambda>i. (logged s ! i, a_view (bio_abs s) (log_blk (log_start s) i))) [0..<k]) (bio_abs s))"
  using k
proof (induction k)
  case 0
  then show ?case using ok by simp
next
  case (Suc k)
  let ?w = "\<lambda>i. (logged s ! i, a_view (bio_abs s) (log_blk (log_start s) i))"
  from Suc obtain t where t: "kfor [0..<k] (install_one r) s = Ok () t" "bio_ok t" "bio_frame s t"
    "bio_abs t = unpins (if r then [] else take k (logged s)) (abs_writes (map ?w [0..<k]) (bio_abs s))" by auto
  note fl = bio_frame_log [OF t(3)]
  have len: "length (logged s) = nat (lh_n s)" using wf Suc.prems by (auto simp: logged_def log_wf_def)
  then have kin: "logged s ! k \<in> set (logged s)" using Suc.prems nth_mem [of k "logged s"] by simp
  have at: "lh_block s ! k = logged s ! k" using Suc.prems by (simp add: logged_def)
  have kl: "int k < log_size s - 1" using Suc.prems wf(2) by linarith
  have "log_blk (log_start s) k \<notin> fst ` set (map ?w [0..<k])"
  proof
    assume "log_blk (log_start s) k \<in> fst ` set (map ?w [0..<k])"
    then obtain i where "i < k" "log_blk (log_start s) k = logged s ! i" by auto
    then show False using home len Suc.prems log_blk_region(1) [OF wf(1) kl] by auto
  qed
  then have v: "a_view (bio_abs t) (log_blk (log_start s) k) = a_view (bio_abs s) (log_blk (log_start s) k)"
    unfolding t(4) abs_writes_sel unpins_sel by (rule apply_writes_other)
  have pt: "\<not> r \<longrightarrow> a_pin (bio_abs t) (logged s ! k) \<noteq> 0"
  proof
    assume r: "\<not> r"
    then have "logged s ! k \<notin> set (take k (logged s))"
      using p len Suc.prems by (auto simp: in_set_conv_nth nth_eq_iff_index_eq)
    then have "count_list (take k (logged s)) (logged s ! k) = 0" by (simp add: count_list_0_iff)
    then show "a_pin (bio_abs t) (logged s ! k) \<noteq> 0" using p r kin by (simp add: t(4))
  qed
  have room': "pinned (bio_abs t) + (if r then 1 else 0) < NBUF"
    using room le_less_trans [OF pinned_unpins] by (auto simp: t(4) split: if_splits)
  have ct: "calm (bio_abs t)" using calm calm_unpins by (simp add: t(4))
  have inl: "\<not> in_log t (logged s ! k)" using home kin by (simp add: in_log_def fl)
  obtain u where u: "install_one r k t = Ok () u" "bio_ok u" "bio_frame t u"
    "bio_abs u = (if r then id else abs_unpin (logged s ! k))
        (abs_write (logged s ! k) (a_view (bio_abs t) (log_blk (log_start s) k)) (bio_abs t))"
    using install_one_law [OF t(2) _ _ _ ct room', of k] pt inl wf log_wf_frame [OF t(3)] Suc.prems by (auto simp: fl at)
  have "take (Suc k) (logged s) = take k (logged s) @ [logged s ! k]" using len Suc.prems by (simp add: take_Suc_conv_app_nth)
  then have "bio_abs u = unpins (if r then [] else take (Suc k) (logged s)) (abs_writes (map ?w [0..<Suc k]) (bio_abs s))"
    by (simp add: u(4) v) (auto simp: t(4) unpins_write abs_writes_snoc unpins_snoc)
  then show ?case using t(1) u bio_frame_trans [OF t(3) u(3)] by (simp add: kfor_append run_kthen run_kbind)
qed

section \<open>The header block\<close>

lemma put_head_loop:
  assumes "length d = BSIZE" and "k \<le> LOGSIZE"
  shows "let h = fold (\<lambda>i d. put_le 4 d (4 + 4 * i) (bl ! i)) [0..<k] d in
    length h = BSIZE \<and> get_le 4 h 0 = (get_le 4 d 0 :: u32) \<and> (\<forall>i<k. head_block h i = bl ! i)"
  using assms(2)
proof (induction k)
  case 0
  then show ?case using assms(1) by simp
next
  case (Suc k)
  define h where "h = fold (\<lambda>i d. put_le 4 d (4 + 4 * i) (bl ! i)) [0..<k] d"
  have IH: "length h = BSIZE" "get_le 4 h 0 = (get_le 4 d 0 :: u32)" "\<And>i. i < k \<Longrightarrow> head_block h i = bl ! i"
    using Suc by (auto simp: h_def Let_def)
  have k: "4 + 4 * k + 4 \<le> length h" using Suc.prems IH(1) by (simp add: LOGSIZE_def)
  have "head_block (put_le 4 h (4 + 4 * k) (bl ! k)) i = bl ! i" if "i < Suc k" for i
  proof (cases "i = k")
    case True
    then show ?thesis using k by (simp add: head_block_def get_put_le_same)
  next
    case False
    then show ?thesis using that k IH(3) [of i] by (simp add: head_block_def get_put_le_other)
  qed
  then show ?case using IH k by (auto simp: h_def [symmetric] Let_def get_put_le_other)
qed

lemma put_head:
  assumes "length d = BSIZE" and "0 \<le> n" and "n \<le> int LOGSIZE"
  shows "length (put_head n bl d) = BSIZE" and "head_n (put_head n bl d) = n"
    and "i < nat n \<Longrightarrow> head_block (put_head n bl d) i = bl ! i"
proof -
  let ?d = "put_le 4 d 0 (word_of_int n :: u32)"
  have l: "length ?d = BSIZE" and k: "nat n \<le> LOGSIZE" using assms by simp_all
  have g: "get_le 4 ?d 0 = (word_of_int n :: u32)" using assms(1) by (simp add: get_put_le_same)
  have "sint (word_of_int n :: u32) = n" using assms(2,3)
    by (simp add: LOGSIZE_def MAXOPBLOCKS_def signed_of_int signed_take_bit_int_eq_self)
  then show "length (put_head n bl d) = BSIZE" "head_n (put_head n bl d) = n"
    and "i < nat n \<Longrightarrow> head_block (put_head n bl d) i = bl ! i"
    using put_head_loop [OF l k, of bl] g unfolding put_head_def head_n_def by (auto simp: Let_def)
qed

lemma write_head_law:
  fixes s :: "'a klog_scheme"
  assumes ok: "bio_ok s" and dev: "log_dev s = ROOTDEV" and n: "0 \<le> lh_n s" "lh_n s \<le> int LOGSIZE"
    and cb: "can_bread (log_head s) (bio_abs s)"
  shows "\<exists>t. write_head s = Ok () t \<and> bio_ok t \<and> bio_frame s t \<and>
      bio_abs t = abs_write (log_head s) (put_head (lh_n s) (lh_block s) (a_view (bio_abs s) (log_head s))) (bio_abs s)"
proof -
  obtain b t where r: "bread ROOTDEV (log_head s) s = Ok b t" and f: "bio_frame s t"
    using bcache.rd_law [OF ok cb] by blast
  have nl: "\<not> LOGSIZE < nat (lh_n s)" using n by linarith
  have "write_head s = kbind (bread ROOTDEV (log_head s)) (\<lambda>b. kbind (bdata b) (\<lambda>d.
      kthen (set_bdata b (put_head (lh_n s) (lh_block s) d)) (kthen (bwrite b) (brelse b)))) s"
    using nl by (simp add: write_head_def run_kbind [of "kget _"] dev run_kbind [of "bread _ _"] r bio_frame_log [OF f])
  then show ?thesis
    using bcache.write_block [OF ok cb, of "put_head (lh_n s) (lh_block s)"] put_head(1) [OF _ n]
    by (simp add: Let_def abs_write_def)
qed

section \<open>Commit\<close>

text \<open>
  The writes of a commit, in order: the data blocks of the log, the header that commits the
  transaction, the home blocks, and the header that clears the log.
\<close>

definition commit_writes :: "'a klog_scheme \<Rightarrow> (u32 \<times> u8 list) list" where
  "commit_writes s =
     (if lh_n s = 0 then [] else
      let h = put_head (lh_n s) (lh_block s) (view s (log_head s)) in
      map (\<lambda>i. (log_blk (log_start s) i, view s (logged s ! i))) [0..<nat (lh_n s)] @
      [(log_head s, h)] @
      map (\<lambda>i. (logged s ! i, view s (logged s ! i))) [0..<nat (lh_n s)] @
      [(log_head s, put_head 0 (lh_block s) h)])"

text \<open>The state of the log and of the cache when the last operation of a transaction ends.\<close>

definition commit_ready :: "'a klog_scheme \<Rightarrow> bool" where
  "commit_ready s \<longleftrightarrow> bio_ok s \<and> log_inv s \<and> calm (bio_abs s) \<and> pinned (bio_abs s) < NBUF \<and>
     (\<forall>m\<in>set (logged s). pin s m \<noteq> 0)"

lemma bio_abs_sel [simp]:
  "a_view (bio_abs s) = view s" "a_pin (bio_abs s) = pin s" "a_lkd (bio_abs s) = lkd s" "a_own (bio_abs s) = own s"
  "a_disk (bio_abs s) = disk s" "a_writes (bio_abs s) = dwrites s"
  by (simp_all add: bio_abs_def)

lemma nth_in_logged: "log_inv s \<Longrightarrow> i < nat (lh_n s) \<Longrightarrow> logged s ! i \<in> set (logged s)"
  using length_logged [of s] by simp

lemma log_fst_disjoint:
  assumes "log_inv s"
  shows "log_head s \<notin> (\<lambda>i. log_blk (log_start s) i) ` {..<nat (lh_n s)}" and "log_head s \<notin> set (logged s)"
    and "i < nat (lh_n s) \<Longrightarrow> log_blk (log_start s) i \<notin> set (logged s)"
    and "i < nat (lh_n s) \<Longrightarrow> log_blk (log_start s) i \<noteq> log_head s"
proof -
  have wf: "log_wf s" and sz: "lh_n s \<le> log_size s - 1" using assms by (auto simp: log_inv_def)
  have lim: "int i < log_size s - 1" if "i < nat (lh_n s)" for i using that sz by linarith
  show b: "log_blk (log_start s) i \<noteq> log_head s" if "i < nat (lh_n s)" for i using log_blk_region(2) [OF wf lim [OF that]] .
  show "log_head s \<notin> (\<lambda>i. log_blk (log_start s) i) ` {..<nat (lh_n s)}" using b by force
  show "log_head s \<notin> set (logged s)" using assms log_head_region [OF wf] by (auto simp: log_inv_def)
  show "log_blk (log_start s) i \<notin> set (logged s)" if "i < nat (lh_n s)"
    using assms log_blk_region(1) [OF wf lim [OF that]] by (auto simp: log_inv_def)
qed

lemma log_blocks_written:
  assumes inv: "log_inv s" and i: "i < nat (lh_n s)"
  shows "apply_writes (map (\<lambda>i. (log_blk (log_start s) i, f i)) [0..<nat (lh_n s)]) d (log_blk (log_start s) i) = f i"
proof (rule apply_writes_in)
  have "inj_on (log_blk (log_start s)) {..<nat (lh_n s)}"
  proof (rule inj_onI)
    fix i j
    assume "i \<in> {..<nat (lh_n s)}" "j \<in> {..<nat (lh_n s)}" "log_blk (log_start s) i = log_blk (log_start s) j"
    moreover from this inv have "int i < log_size s - 1" "int j < log_size s - 1" unfolding log_inv_def by auto
    ultimately show "i = j" using log_blk_inj [of s] inv by (simp add: log_inv_def)
  qed
  then show "distinct (map fst (map (\<lambda>i. (log_blk (log_start s) i, f i)) [0..<nat (lh_n s)]))"
    by (simp add: distinct_map comp_def atLeast0LessThan)
  show "(log_blk (log_start s) i, f i) \<in> set (map (\<lambda>i. (log_blk (log_start s) i, f i)) [0..<nat (lh_n s)])"
    using i by auto
qed

lemma commit_law:
  fixes s :: "'a klog_scheme"
  assumes "commit_ready s"
  shows "\<exists>t. commit s = Ok () t \<and> bio_ok t \<and> bio_frame (s\<lparr>lh_n := 0\<rparr>) t \<and>
           bio_abs t = unpins (logged s) (abs_writes (commit_writes s) (bio_abs s))"
proof -
  have ok: "bio_ok s" and inv: "log_inv s" and calm: "calm (bio_abs s)" and room: "pinned (bio_abs s) < NBUF"
    and p: "\<forall>m\<in>set (logged s). a_pin (bio_abs s) m \<noteq> 0" using assms by (auto simp: commit_ready_def)
  have wf: "log_wf s" and n: "0 \<le> lh_n s" "lh_n s \<le> log_size s - 1" "lh_n s \<le> int LOGSIZE" and dev: "log_dev s = ROOTDEV"
    and home: "\<forall>m\<in>set (logged s). \<not> in_log s m" "distinct (logged s)"
    using inv by (auto simp: log_inv_def log_wf_def)
  show ?thesis
  proof (cases "lh_n s = 0")
    case True
    then have "s\<lparr>lh_n := 0\<rparr> = s" by (cases s) simp
    then have "bio_frame (s\<lparr>lh_n := 0\<rparr>) s" by (simp only: bio_frame_refl)
    then show ?thesis using ok True by (simp add: commit_def run_kbind commit_writes_def logged_def)
  next
    case False
    let ?N = "nat (lh_n s)"
    let ?w1 = "map (\<lambda>i. (log_blk (log_start s) i, view s (logged s ! i))) [0..<?N]"
    let ?h = "put_head (lh_n s) (lh_block s) (view s (log_head s))"
    let ?w3 = "map (\<lambda>i. (logged s ! i, view s (logged s ! i))) [0..<?N]"
    obtain s1 where s1: "kfor [0..<?N] write_log_one s = Ok () s1" "bio_ok s1" "bio_frame s s1" "bio_abs s1 = abs_writes ?w1 (bio_abs s)"
      using write_log_loop [OF ok inv calm room p order.refl] by auto
    note f1 = bio_frame_log [OF s1(3)]
    have vw: "view s1 = apply_writes ?w1 (view s)" using arg_cong [OF s1(4), of a_view] by simp
    have "log_head s \<notin> fst ` set ?w1" using log_fst_disjoint(1) [OF inv] by auto
    then have v1: "view s1 (log_head s) = view s (log_head s)" unfolding vw by (rule apply_writes_other)
    have "can_bread (log_head s) (bio_abs s1)" using calm room by (auto simp: s1(4) intro!: calm_can_bread)
    then obtain s2 where s2: "write_head s1 = Ok () s2" "bio_ok s2" "bio_frame s1 s2" "bio_abs s2 = abs_writes (?w1 @ [(log_head s, ?h)]) (bio_abs s)"
      using write_head_law [OF s1(2)] dev n by (auto simp: f1 v1) (auto simp: s1(4) abs_writes_snoc)
    have fr2: "bio_frame s s2" by (rule bio_frame_trans [OF s1(3) s2(3)])
    note f2 = bio_frame_log [OF fr2]
    have l2: "logged s2 = logged s" by (simp add: logged_def f2)
    have v2: "view s2 (log_blk (log_start s) i) = view s (logged s ! i)" if "i < ?N" for i
    proof -
      have "view s2 = apply_writes (?w1 @ [(log_head s, ?h)]) (view s)" using arg_cong [OF s2(4), of a_view] by simp
      then show ?thesis using log_blocks_written [OF inv that, of "\<lambda>i. view s (logged s ! i)" "view s"] log_fst_disjoint(4) [OF inv that] by simp
    qed
    obtain s3 where s3: "kfor [0..<?N] (install_one False) s2 = Ok () s3" "bio_ok s3" "bio_frame s2 s3"
      "bio_abs s3 = unpins (logged s) (abs_writes ?w3 (bio_abs s2))"
    proof -
      have p2: "pin s2 = pin s" using arg_cong [OF s2(4), of a_pin] by simp
      have m: "map (\<lambda>i. (logged s ! i, view s2 (log_blk (log_start s) i))) [0..<?N] = ?w3" using v2 by simp
      have "\<exists>t. kfor [0..<?N] (install_one False) s2 = Ok () t \<and> bio_ok t \<and> bio_frame s2 t \<and>
          bio_abs t = unpins (take ?N (logged s)) (abs_writes ?w3 (bio_abs s2))"
        using install_loop [OF s2(2), of False ?N] log_wf_frame [OF fr2] wf n calm room p home
        by (simp add: f2 l2 m in_log_def p2) (simp add: s2(4))
      then show ?thesis using that length_logged [OF inv] by auto
    qed
    have fr3: "bio_frame s s3" by (rule bio_frame_trans [OF fr2 s3(3)])
    note f3 = bio_frame_log [OF fr3]
    have "log_head s \<notin> fst ` set ?w3" using log_fst_disjoint(2) [OF inv] nth_in_logged [OF inv] by auto
    then have "view s3 (log_head s) = view s2 (log_head s)"
      using arg_cong [OF s3(4), of a_view] apply_writes_other [of "log_head s" ?w3 "view s2"] by simp
    then have v3: "view s3 (log_head s) = ?h" using arg_cong [OF s2(4), of a_view] by simp
    let ?s4 = "s3\<lparr>lh_n := 0\<rparr>"
    have "can_bread (log_head s) (bio_abs ?s4)"
      using calm room le_less_trans [OF pinned_unpins] by (auto simp: s3(4) s2(4) intro!: calm_can_bread calm_unpins)
    then obtain s5 where s5: "write_head ?s4 = Ok () s5" "bio_ok s5" "bio_frame ?s4 s5"
      "bio_abs s5 = abs_write (log_head s) (put_head 0 (lh_block s) ?h) (bio_abs s3)"
      using write_head_law [of ?s4] s3(2) dev by (auto simp: f3 v3)
    have "bio_abs s5 = unpins (logged s) (abs_writes (commit_writes s) (bio_abs s))"
      using False by (simp add: s5(4) s3(4) unpins_write abs_writes_snoc s2(4) commit_writes_def Let_def)
    moreover have "bio_frame (s\<lparr>lh_n := 0\<rparr>) ?s4" using fr3 by (cases s; cases s3) (simp add: bio_frame_def)
    then have "bio_frame (s\<lparr>lh_n := 0\<rparr>) s5" using s5(3) by (rule bio_frame_trans)
    moreover have "commit s = Ok () s5"
      using False n(1) s1(1) s2(1) s3(1) s5(1)
      by (simp add: commit_def run_kbind run_kthen write_log_def install_trans_def f2)
    ultimately show ?thesis using s5(2) by blast
  qed
qed

section \<open>Recovery\<close>

text \<open>The disk that recovery makes of disk \<open>d\<close>.\<close>

definition recovered :: "int \<Rightarrow> (u32 \<Rightarrow> u8 list) \<Rightarrow> u32 \<Rightarrow> u8 list" where
  "recovered start d = (let h = d (word_of_int start) in
     (apply_writes (map (\<lambda>i. (head_block h i, d (log_blk start i))) [0..<nat (head_n h)]) d)
       (word_of_int start := put_head 0 [] h))"

lemma put_head_0: "put_head 0 bl d = put_le 4 d 0 (0 :: u32)"
  by (simp add: put_head_def)

lemma fst_image_map: "fst ` set (map (\<lambda>i. (f i, g i)) xs) = f ` set xs"
  by force

lemma home_writes:
  assumes "log_inv s"
  shows "apply_writes (map (\<lambda>i. (logged s ! i, f (logged s ! i))) [0..<nat (lh_n s)]) d m =
    (if m \<in> set (logged s) then f m else d m)"
proof -
  let ?w = "map (\<lambda>i. (logged s ! i, f (logged s ! i))) [0..<nat (lh_n s)]"
  have "fst ` set ?w = set (logged s)"
    unfolding fst_image_map using nth_image [of "nat (lh_n s)" "logged s"] length_logged [OF assms]
    by (simp add: atLeast0LessThan)
  then show ?thesis using apply_writes_fun [of ?w f d m] by auto
qed

text \<open>
  A crash during \<^verbatim>\<open>commit\<close>, after the first \<open>k\<close> of its writes.  Until the header is on
  disk recovery restores the old contents of every home block, from then on the new ones.
\<close>

lemma crash_before:
  assumes inv: "log_inv s" and "head_n (disk s (log_head s)) = 0" and k: "k \<le> nat (lh_n s)" and m: "\<not> in_log s m"
  shows "recovered (log_start s) (apply_writes (take k (commit_writes s)) (disk s)) m = disk s m"
proof -
  have wf: "log_wf s" using inv by (simp add: log_inv_def)
  have sub: "fst ` set (take k (commit_writes s)) \<subseteq> log_blk (log_start s) ` {..<nat (lh_n s)}"
    using k by (auto simp: commit_writes_def Let_def take_map)
  let ?d = "apply_writes (take k (commit_writes s)) (disk s)"
  have "log_head s \<notin> fst ` set (take k (commit_writes s))" using log_fst_disjoint(1) [OF inv] sub by blast
  then have "?d (log_head s) = disk s (log_head s)" by (rule apply_writes_other)
  moreover have "in_log s n" if "n \<in> log_blk (log_start s) ` {..<nat (lh_n s)}" for n
    using that log_blk_region(1) [OF wf] inv unfolding log_inv_def by force
  then have "m \<notin> fst ` set (take k (commit_writes s))" using sub m by blast
  then have "?d m = disk s m" by (rule apply_writes_other)
  moreover have "m \<noteq> log_head s" using m log_head_region [OF wf] by auto
  ultimately show ?thesis using assms(2) by (simp add: recovered_def Let_def)
qed

lemma commit_writes_split:
  assumes "lh_n s \<noteq> 0"
  shows "commit_writes s = map (\<lambda>i. (log_blk (log_start s) i, view s (logged s ! i))) [0..<nat (lh_n s)] @
      (log_head s, put_head (lh_n s) (lh_block s) (view s (log_head s))) #
      map (\<lambda>i. (logged s ! i, view s (logged s ! i))) [0..<nat (lh_n s)] @
      [(log_head s, put_head 0 (lh_block s) (put_head (lh_n s) (lh_block s) (view s (log_head s))))]"
  using assms by (simp add: commit_writes_def Let_def)

lemma crash_after_header:
  assumes ready: "commit_ready s" and nz: "lh_n s \<noteq> 0" and j: "j \<le> nat (lh_n s)"
    and clean: "\<And>m. \<not> in_log s m \<Longrightarrow> m \<notin> set (logged s) \<Longrightarrow> view s m = disk s m" and m: "\<not> in_log s m"
  shows "recovered (log_start s) (apply_writes (take (nat (lh_n s) + 1 + j) (commit_writes s)) (disk s)) m = view s m"
proof -
  have inv: "log_inv s" and ok: "bio_ok s" using ready by (auto simp: commit_ready_def)
  have wf: "log_wf s" and n: "0 \<le> lh_n s" "lh_n s \<le> int LOGSIZE" using inv by (auto simp: log_inv_def log_wf_def)
  let ?N = "nat (lh_n s)"
  let ?w1 = "map (\<lambda>i. (log_blk (log_start s) i, view s (logged s ! i))) [0..<?N]"
  let ?h = "put_head (lh_n s) (lh_block s) (view s (log_head s))"
  let ?w3 = "map (\<lambda>i. (logged s ! i, view s (logged s ! i))) [0..<?N]"
  define d1 where "d1 = (apply_writes ?w1 (disk s))(log_head s := ?h)"
  define d where "d = apply_writes (take j ?w3) d1"
  have "take (?N + 1 + j) (commit_writes s) = ?w1 @ (log_head s, ?h) # take j ?w3"
    using j by (simp add: commit_writes_split [OF nz] take_Cons')
  then have d_eq: "apply_writes (take (?N + 1 + j) (commit_writes s)) (disk s) = d" by (simp add: d_def d1_def)
  have sub: "fst ` set (take j ?w3) \<subseteq> set (logged s)"
    using j nth_in_logged [OF inv] by (auto simp: take_map)
  have keep: "d x = d1 x" if "x \<notin> set (logged s)" for x
    unfolding d_def by (rule apply_writes_other) (use that sub in blast)
  have dh: "d (log_head s) = ?h" using keep log_fst_disjoint(2) [OF inv] by (simp add: d1_def)
  have db: "d (log_blk (log_start s) i) = view s (logged s ! i)" if "i < ?N" for i
    using keep log_fst_disjoint(3,4) [OF inv that] log_blocks_written [OF inv that, of "\<lambda>i. view s (logged s ! i)"]
    by (simp add: d1_def)
  note ph = put_head [OF view_size [OF ok, of "log_head s"] n]
  have "map (\<lambda>i. (head_block ?h i, d (log_blk (log_start s) i))) [0..<nat (head_n ?h)] = ?w3"
    using db ph(3) by (auto simp: ph(2) logged_def)
  moreover have mh: "m \<noteq> log_head s" using m log_head_region [OF wf] by auto
  ultimately have "recovered (log_start s) d m = apply_writes ?w3 d m" by (simp add: recovered_def Let_def dh)
  also have "\<dots> = (if m \<in> set (logged s) then view s m else d m)"
    by (rule home_writes [OF inv])
  also have "\<dots> = view s m"
  proof (cases "m \<in> set (logged s)")
    case False
    have "in_log s (log_blk (log_start s) i)" if "i < ?N" for i
      using that log_blk_region(1) [OF wf, of i] inv unfolding log_inv_def by linarith
    then have "m \<notin> fst ` set ?w1" using m by auto
    then have "apply_writes ?w1 (disk s) m = disk s m" by (rule apply_writes_other)
    then have "d m = disk s m" using keep [OF False] mh by (simp add: d1_def)
    then show ?thesis using False clean [OF m False] by simp
  qed simp
  finally show ?thesis by (simp only: d_eq)
qed

lemma commit_final:
  assumes ready: "commit_ready s"
    and clean: "\<And>m. \<not> in_log s m \<Longrightarrow> m \<notin> set (logged s) \<Longrightarrow> view s m = disk s m" and m: "\<not> in_log s m"
  shows "apply_writes (commit_writes s) (disk s) m = view s m"
proof (cases "lh_n s = 0")
  case True
  then show ?thesis using clean [OF m] by (simp add: commit_writes_def logged_def)
next
  case False
  have inv: "log_inv s" using ready by (auto simp: commit_ready_def)
  have wf: "log_wf s" using inv by (auto simp: log_inv_def)
  let ?N = "nat (lh_n s)"
  let ?w1 = "map (\<lambda>i. (log_blk (log_start s) i, view s (logged s ! i))) [0..<?N]"
  let ?w3 = "map (\<lambda>i. (logged s ! i, view s (logged s ! i))) [0..<?N]"
  have mh: "m \<noteq> log_head s" using m log_head_region [OF wf] by auto
  have "in_log s (log_blk (log_start s) i)" if "i < ?N" for i
    using that log_blk_region(1) [OF wf, of i] inv unfolding log_inv_def by linarith
  then have "m \<notin> fst ` set ?w1" using m by auto
  then have "apply_writes ?w1 (disk s) m = disk s m" by (rule apply_writes_other)
  moreover have "apply_writes ?w3 d m = (if m \<in> set (logged s) then view s m else d m)" for d
    by (rule home_writes [OF inv])
  ultimately show ?thesis using mh clean [OF m] by (simp add: commit_writes_split [OF False])
qed

lemma crash_end:
  assumes ready: "commit_ready s" and nz: "lh_n s \<noteq> 0"
    and clean: "\<And>m. \<not> in_log s m \<Longrightarrow> m \<notin> set (logged s) \<Longrightarrow> view s m = disk s m" and m: "\<not> in_log s m"
  shows "recovered (log_start s) (apply_writes (commit_writes s) (disk s)) m = view s m"
    and "head_n (apply_writes (commit_writes s) (disk s) (log_head s)) = 0"
proof -
  have inv: "log_inv s" and ok: "bio_ok s" using ready by (auto simp: commit_ready_def)
  have n: "0 \<le> lh_n s" "lh_n s \<le> int LOGSIZE" using inv by (auto simp: log_inv_def log_wf_def)
  note ph = put_head(1) [OF view_size [OF ok, of "log_head s"] n, of "lh_block s"]
  show h: "head_n (apply_writes (commit_writes s) (disk s) (log_head s)) = 0"
    using put_head(2) [OF ph, of 0] by (simp add: commit_writes_split [OF nz])
  have "m \<noteq> log_head s" using m log_head_region [of s] inv by (auto simp: log_inv_def)
  then show "recovered (log_start s) (apply_writes (commit_writes s) (disk s)) m = view s m"
    using commit_final [OF ready clean m] h by (simp add: recovered_def Let_def)
qed

lemma set_lh_blocks:
  assumes "length (lh_block s) = LOGSIZE" and "k \<le> LOGSIZE"
  shows "kfor [0..<k] (\<lambda>i. set_lh_block i (f i)) s = Ok () (s\<lparr>lh_block := map f [0..<k] @ drop k (lh_block s)\<rparr>)"
  using assms(2)
proof (induction k)
  case 0
  then show ?case by (cases s) simp
next
  case (Suc k)
  have "(map f [0..<k] @ drop k (lh_block s))[k := f k] = map f [0..<Suc k] @ drop (Suc k) (lh_block s)"
    using Suc.prems assms(1) by (auto simp: list_update_append Cons_nth_drop_Suc [symmetric])
  then show ?case using Suc by (simp add: kfor_append run_kthen run_kbind set_lh_block_def)
qed

lemma read_head_law:
  fixes s :: "'a klog_scheme"
  assumes ok: "bio_ok s" and wf: "log_wf s" and cb: "can_bread (log_head s) (bio_abs s)"
    and h: "h = view s (log_head s)" and n: "head_n h \<le> int LOGSIZE"
  shows "\<exists>t. read_head s = Ok () t \<and> bio_ok t \<and> bio_abs t = bio_abs s \<and>
     bio_frame (s\<lparr>lh_n := head_n h, lh_block := map (head_block h) [0..<nat (head_n h)] @ drop (nat (head_n h)) (lh_block s)\<rparr>) t"
proof -
  let ?bl = "map (head_block h) [0..<nat (head_n h)] @ drop (nat (head_n h)) (lh_block s)"
  obtain b t where r: "bread ROOTDEV (log_head s) s = Ok b t" "bio_ok t" "bio_frame s t" "own s b = None"
    "bio_abs t = abs_bread b (log_head s) (bio_abs s)" using bcache.rd_law [OF ok cb] by auto
  note fl = bio_frame_log [OF r(3)]
  have o: "own t b = Some (log_head s)" "view t (log_head s) = h" "disk t = disk s" "view t = view s"
    "pin t (log_head s) = pin s (log_head s) + 1"
    using arg_cong [OF r(5), of a_own] arg_cong [OF r(5), of a_view] arg_cong [OF r(5), of a_disk]
      arg_cong [OF r(5), of a_pin] h by (auto simp: abs_bread_def)
  let ?t = "t\<lparr>lh_n := head_n h, lh_block := ?bl\<rparr>"
  have ab: "bio_abs ?t = bio_abs t" by simp
  have "own ?t b = Some (log_head s)" using o(1) by simp
  moreover have "pin ?t (log_head s) \<ge> 2 \<or> view ?t (log_head s) = disk ?t (log_head s)"
    using unpinned_clean [OF ok, of "log_head s"] o h by (cases "pin s (log_head s)") auto
  ultimately obtain u where u: "brelse b ?t = Ok () u" "bio_ok u" "bio_frame ?t u" "bio_abs u = abs_brelse b (bio_abs ?t)"
    using brelse_law [of ?t b "log_head s"] r(2) by auto
  have "bio_abs u = bio_abs s"
    unfolding u(4) ab r(5) using cb r(4) by (simp add: abs_brelse_def abs_bread_def can_bread_def fun_upd_idem)
  moreover have "bio_frame (s\<lparr>lh_n := head_n h, lh_block := ?bl\<rparr>) ?t"
    using r(3) by (cases s; cases t) (simp add: bio_frame_def)
  then have "bio_frame (s\<lparr>lh_n := head_n h, lh_block := ?bl\<rparr>) u" using u(3) by (rule bio_frame_trans)
  moreover have "read_head s = Ok () u"
    using wf n u(1) r(1) set_lh_blocks [of "t\<lparr>lh_n := head_n h\<rparr>" "nat (head_n h)" "head_block h"] bdata_law [OF r(2) o(1)] o(2)
    by (simp add: read_head_def run_kbind run_kthen log_wf_def fl nat_le_iff)
  ultimately show ?thesis using u(2) by blast
qed

text \<open>The header on disk names home blocks only.\<close>

definition head_ok :: "'a klog_scheme \<Rightarrow> u8 list \<Rightarrow> bool" where
  "head_ok s h \<longleftrightarrow> 0 \<le> head_n h \<and> head_n h \<le> log_size s - 1 \<and> (\<forall>i<nat (head_n h). \<not> in_log s (head_block h i))"

definition recover_writes :: "int \<Rightarrow> (u32 \<Rightarrow> u8 list) \<Rightarrow> (u32 \<times> u8 list) list" where
  "recover_writes start d = (let h = d (word_of_int start) in
     map (\<lambda>i. (head_block h i, d (log_blk start i))) [0..<nat (head_n h)] @ [(word_of_int start, put_head 0 [] h)])"

lemma recovered_writes: "recovered start d = apply_writes (recover_writes start d) d"
  by (simp add: recovered_def recover_writes_def Let_def)

lemma recover_law:
  fixes s :: "'a klog_scheme"
  assumes ok: "bio_ok s" and wf: "log_wf s" and calm: "calm (bio_abs s)" and cold: "\<And>n. pin s n = 0"
    and h: "head_ok s (disk s (log_head s))"
  shows "\<exists>t. recover_from_log s = Ok () t \<and> bio_ok t \<and> lh_n t = 0 \<and> log_inv t \<and> log_start t = log_start s \<and>
     bio_abs t = abs_writes (recover_writes (log_start s) (disk s)) (bio_abs s)"
proof -
  let ?h = "disk s (log_head s)"
  let ?N = "nat (head_n ?h)"
  have v: "view s = disk s" using unpinned_clean [OF ok] cold by auto
  have pinned0: "pinned (bio_abs s) = 0" using cold by (simp add: pinned_def)
  have nb: "pinned (bio_abs s) + 1 < NBUF" by (simp add: pinned0 NBUF_def)
  have n: "0 \<le> head_n ?h" "head_n ?h \<le> log_size s - 1" "head_n ?h \<le> int LOGSIZE" "log_dev s = ROOTDEV" "length (lh_block s) = LOGSIZE"
    using h wf by (auto simp: head_ok_def log_wf_def)
  let ?bl = "map (head_block ?h) [0..<?N] @ drop ?N (lh_block s)"
  let ?s0 = "s\<lparr>lh_n := head_n ?h, lh_block := ?bl\<rparr>"
  have "can_bread (log_head s) (bio_abs s)" using calm nb by (auto intro: calm_can_bread)
  from read_head_law [OF ok wf this refl] n obtain s1 where s1: "read_head s = Ok () s1" "bio_ok s1" "bio_abs s1 = bio_abs s" "bio_frame ?s0 s1"
    by (auto simp: v)
  note f1 = bio_frame_log [OF s1(4), simplified]
  have lg: "logged s1 = map (head_block ?h) [0..<?N]" by (simp add: logged_def f1)
  have "?N \<le> LOGSIZE" using n by linarith
  then have lbl: "length ?bl = LOGSIZE" using n by simp
  have wf1: "log_wf s1" using wf lbl by (simp add: log_wf_def f1)
  have home: "\<forall>m\<in>set (logged s1). \<not> in_log s1 m" using h by (auto simp: lg head_ok_def in_log_def f1)
  let ?w = "map (\<lambda>i. (head_block ?h i, disk s (log_blk (log_start s) i))) [0..<?N]"
  have mw: "map (\<lambda>i. (logged s1 ! i, view s (log_blk (log_start s) i))) [0..<?N] = ?w"
    by (rule map_cong) (auto simp: lg v)
  have "\<exists>t. kfor [0..<?N] (install_one True) s1 = Ok () t \<and> bio_ok t \<and> bio_frame s1 t \<and> bio_abs t = abs_writes ?w (bio_abs s)"
    using install_loop [OF s1(2) wf1, of True ?N] home calm nb n by (simp add: f1 s1(3) mw)
  then obtain s2 where s2: "kfor [0..<?N] (install_one True) s1 = Ok () s2" "bio_ok s2" "bio_frame s1 s2"
    "bio_abs s2 = abs_writes ?w (bio_abs s)" by blast
  have fr: "bio_frame ?s0 s2" by (rule bio_frame_trans [OF s1(4) s2(3)])
  note f2 = bio_frame_log [OF fr, simplified]
  let ?s3 = "s2\<lparr>lh_n := 0\<rparr>"
  have "log_head s \<notin> fst ` set ?w" using h log_head_region [OF wf] by (auto simp: head_ok_def)
  then have v2: "view s2 (log_head s) = ?h"
    using arg_cong [OF s2(4), of a_view] apply_writes_other [of "log_head s" ?w "view s"] v by simp
  have "can_bread (log_head s) (bio_abs ?s3)" using calm nb by (auto simp: s2(4) intro!: calm_can_bread)
  then obtain s4 where s4: "write_head ?s3 = Ok () s4" "bio_ok s4" "bio_frame ?s3 s4"
    "bio_abs s4 = abs_write (log_head s) (put_head 0 [] ?h) (bio_abs s2)"
    using write_head_law [of ?s3] s2(2) n by (auto simp: f2 v2 put_head_0)
  note f4 = bio_frame_log [OF s4(3), simplified]
  have "recover_from_log s = Ok () s4"
    using s1(1) s2(1) s4(1) by (simp add: recover_from_log_def run_kthen run_kbind install_trans_def f1)
  moreover have "bio_abs s4 = abs_writes (recover_writes (log_start s) (disk s)) (bio_abs s)"
    by (simp add: s4(4) s2(4) abs_writes_snoc recover_writes_def Let_def)
  moreover have "lh_n s4 = 0" "log_start s4 = log_start s" by (simp_all add: f4 f2)
  moreover have "log_inv s4" using wf lbl by (simp add: log_inv_def log_wf_def logged_def f4 f2)
  ultimately show ?thesis using s4(2) by blast
qed

text \<open>A crash during recovery, after the first \<open>k\<close> of its writes: recovering again gives the same disk.\<close>

lemma apply_writes_last: "m \<in> fst ` set ws \<Longrightarrow> apply_writes ws a m = apply_writes ws b m"
proof (induction ws arbitrary: a b)
  case (Cons w ws)
  show ?case
  proof (cases "m \<in> fst ` set ws")
    case True
    then show ?thesis using Cons.IH by (cases w) simp
  next
    case False
    then show ?thesis using Cons.prems by (cases w) (simp add: apply_writes_other)
  qed
qed simp

lemma apply_writes_absorb:
  assumes "fst ` set vs \<subseteq> fst ` set ws"
  shows "apply_writes ws (apply_writes vs d) = apply_writes ws d"
proof
  fix m
  show "apply_writes ws (apply_writes vs d) m = apply_writes ws d m"
  proof (cases "m \<in> fst ` set ws")
    case False
    then have "m \<notin> fst ` set vs" using assms by blast
    with False show ?thesis by (simp only: apply_writes_other not_False_eq_True)
  qed (rule apply_writes_last)
qed

lemma recover_crash:
  assumes wf: "log_wf s" and h: "head_ok s (d (log_head s))" and sz: "length (d (log_head s)) = BSIZE"
  shows "recovered (log_start s) (apply_writes (take k (recover_writes (log_start s) d)) d) = recovered (log_start s) d"
proof (cases "k \<le> nat (head_n (d (log_head s)))")
  case True
  let ?h = "d (log_head s)"
  let ?w = "map (\<lambda>i. (head_block ?h i, d (log_blk (log_start s) i))) [0..<nat (head_n ?h)]"
  define e where "e = apply_writes (take k ?w) d"
  have sub: "fst ` set (take k ?w) \<subseteq> fst ` set ?w" by (meson image_mono set_take_subset)
  have out: "x \<in> fst ` set ?w \<Longrightarrow> \<not> in_log s x" for x using h by (auto simp: head_ok_def)
  have keep: "e x = d x" if "in_log s x" for x
    unfolding e_def by (rule apply_writes_other) (use out sub that in blast)
  have "e (log_head s) = ?h" by (rule keep [OF log_head_region [OF wf]])
  moreover have "e (log_blk (log_start s) i) = d (log_blk (log_start s) i)" if "i < nat (head_n ?h)" for i
  proof -
    have "int i < log_size s - 1" using that h unfolding head_ok_def by linarith
    then show ?thesis by (intro keep log_blk_region(1) [OF wf])
  qed
  then have "map (\<lambda>i. (head_block ?h i, e (log_blk (log_start s) i))) [0..<nat (head_n ?h)] = ?w" by simp
  ultimately have r: "recovered (log_start s) e = (apply_writes ?w e)(log_head s := put_head 0 [] ?h)"
    by (simp only: recovered_def Let_def)
  have "apply_writes ?w e = apply_writes ?w d" unfolding e_def by (rule apply_writes_absorb [OF sub])
  then have "recovered (log_start s) e = recovered (log_start s) d" unfolding r by (simp only: recovered_def Let_def)
  moreover have "take k (recover_writes (log_start s) d) = take k ?w" using True by (simp add: recover_writes_def Let_def)
  ultimately show ?thesis by (simp only: e_def)
next
  case False
  let ?h = "d (log_head s)"
  have "take k (recover_writes (log_start s) d) = recover_writes (log_start s) d"
    using False by (simp add: recover_writes_def Let_def)
  moreover have "head_n (put_head 0 [] ?h) = 0" using put_head(2) [OF sz, of 0] by simp
  moreover have "put_head 0 [] (put_head 0 [] ?h) = put_head 0 [] ?h"
    by (simp add: put_head_0 put_le_def put_bytes_def)
  ultimately show ?thesis
    by (simp add: recovered_writes [symmetric]) (simp add: recovered_def [of _ "recovered _ _"] Let_def, simp add: recovered_def Let_def)
qed

section \<open>Operations of a transaction\<close>

lemma log_find_le: "log_find bn n bl \<le> n"
  unfolding log_find_def by (rule le_trans [OF length_takeWhile_le]) simp

lemma log_find_in:
  assumes "n \<le> length bl" and "bn \<in> set (take n bl)"
  shows "log_find bn n bl < n" and "bl ! log_find bn n bl = bn"
proof -
  let ?l = "take n bl"
  have len: "length ?l = n" using assms(1) by simp
  have "length (takeWhile (\<lambda>x. x \<noteq> bn) ?l) < length ?l"
    using assms(2) by (metis (mono_tags, lifting) length_takeWhile_le le_neq_implies_less takeWhile_eq_all_conv takeWhile_eq_take take_all order_refl)
  then show "log_find bn n bl < n" "bl ! log_find bn n bl = bn"
    using nth_length_takeWhile [of "\<lambda>x. x \<noteq> bn" ?l] len by (simp_all add: log_find_def)
qed

lemma log_find_new: "n \<le> length bl \<Longrightarrow> bn \<notin> set (take n bl) \<Longrightarrow> log_find bn n bl = n"
proof -
  assume a: "n \<le> length bl" "bn \<notin> set (take n bl)"
  then have "takeWhile (\<lambda>x. x \<noteq> bn) (take n bl) = take n bl" by (intro takeWhile_eq_all_conv [THEN iffD2]) auto
  then show ?thesis unfolding log_find_def using a(1) by (simp only: length_take min.absorb2)
qed

lemma log_write_law:
  fixes s :: "'a klog_scheme"
  assumes ok: "bio_ok s" and inv: "log_inv s" and o: "own s b = Some m" and m: "\<not> in_log s m" and lim: "pin s m < 2 ^ 32 - 1"
    and n: "lh_n s < log_size s - 1" and out: "1 \<le> log_outstanding s" and h: "LLog \<notin> set (held s)"
  shows "\<exists>t. log_write b s = Ok () t \<and> bio_ok t \<and> log_inv t \<and>
    logged t = (if m \<in> set (logged s) then logged s else logged s @ [m]) \<and>
    bio_abs t = (if m \<in> set (logged s) then bio_abs s else abs_bpin b (bio_abs s)) \<and>
    bio_frame (s\<lparr>lh_n := lh_n t, lh_block := lh_block t\<rparr>) t"
proof -
  have wf: "0 \<le> lh_n s" "lh_n s < int LOGSIZE" "length (lh_block s) = LOGSIZE"
    using inv n by (auto simp: log_inv_def log_wf_def)
  let ?N = "nat (lh_n s)"
  have Nl: "?N < LOGSIZE" using wf by linarith
  have bn: "b_blockno (bufs s ! b) = m" using ownD(4) [OF o] .
  show ?thesis
  proof (cases "m \<in> set (logged s)")
    case True
    then have i: "log_find m ?N (lh_block s) < ?N" "lh_block s ! log_find m ?N (lh_block s) = m"
      using log_find_in [of ?N "lh_block s" m] Nl wf by (simp_all add: logged_def)
    have "(lh_block s)[log_find m ?N (lh_block s) := m] = lh_block s" using i(2) list_update_id by metis
    then have "log_write b s = Ok () s"
      using h n out wf i Nl bn
      by (cases s) (auto simp: log_write_def run_kbind run_kthen acquire_Ok release_Ok set_lh_block_def)
    moreover have "s\<lparr>lh_n := lh_n s, lh_block := lh_block s\<rparr> = s" by (cases s) simp
    ultimately show ?thesis using ok inv True bio_frame_refl [of s] by (metis (no_types, lifting))
  next
    case False
    then have i: "log_find m ?N (lh_block s) = ?N"
      using log_find_new [of ?N "lh_block s" m] Nl wf by (simp add: logged_def)
    let ?bl = "(lh_block s)[?N := m]"
    define s1 where "s1 = s\<lparr>held := LLog # held s, lh_block := ?bl\<rparr>"
    have ok1: "bio_ok s1" using ok by (auto simp: bio_ok_def s1_def bio_ctx_def)
    have ab1: "bio_abs s1 = bio_abs s" by (simp add: s1_def)
    have o1: "own s1 b = Some m" "pin s1 m < 2 ^ 32 - 1" using o lim bio_abs_eqD [OF ab1] by simp_all
    obtain s2 where s2: "bpin b s1 = Ok () s2" "bio_ok s2" "bio_frame s1 s2" "bio_abs s2 = abs_bpin b (bio_abs s1)"
      using bpin_law [OF ok1 o1] by blast
    note f2 = bio_frame_log [OF s2(3)]
    have h2: "held s2 = LLog # held s" using s2(3) by (simp add: bio_frame_def s1_def)
    define t where "t = s2\<lparr>lh_n := lh_n s + 1, held := held s\<rparr>"
    have run: "log_write b s = Ok () t"
      using h n out wf i Nl bn s2(1) f2(6) h2
      by (simp add: log_write_def run_kbind run_kthen acquire_Ok release_Ok set_lh_block_def s1_def t_def)
    have tf: "lh_n t = lh_n s + 1" "lh_block t = ?bl" "log_size t = log_size s" "log_start t = log_start s" "log_dev t = log_dev s"
      using f2 by (auto simp: t_def s1_def)
    have "take (nat (lh_n s + 1)) ?bl = take ?N (lh_block s) @ [m]"
      using wf Nl by (simp add: nat_add_distrib take_Suc_conv_app_nth)
    then have lt: "logged t = logged s @ [m]" by (simp add: logged_def tf)
    have "bio_ctx t" using s2(2) h2 by (auto simp: bio_ok_def bio_ctx_def t_def)
    then have "bio_ok t" using s2(2) by (simp add: bio_ok_def t_def)
    moreover have "log_inv t" using inv n m False by (auto simp: log_inv_def log_wf_def tf lt in_log_def)
    moreover have "bio_abs t = abs_bpin b (bio_abs s)" using s2(4) ab1 by (simp add: t_def)
    moreover have "bio_frame (s\<lparr>lh_n := lh_n t, lh_block := lh_block t\<rparr>) t"
      using s2(3) unfolding tf by (cases s; cases s2) (simp add: bio_frame_def t_def s1_def)
    ultimately show ?thesis using run lt False by auto
  qed
qed

lemma log_write_too_big:
  assumes "LLog \<notin> set (held s)" and "lh_n s \<ge> log_size s - 1"
  shows "log_write b s = Panic ''too big a transaction''"
  using assms by (simp add: log_write_def run_kbind run_kthen acquire_Ok)

lemma begin_op_cases:
  assumes "LLog \<notin> set (held s)"
  shows "begin_op s = (if log_committing s \<or> lh_n s + (log_outstanding s + 1) * int MAXOPBLOCKS > int LOGSIZE
     then sleep ChLog LLog (s\<lparr>held := LLog # held s\<rparr>)
     else Ok () (s\<lparr>log_outstanding := log_outstanding s + 1\<rparr>))"
  using assms by (cases s) (simp add: begin_op_def run_kbind run_kthen acquire_Ok release_Ok)

lemma end_op_more:
  assumes "LLog \<notin> set (held s)" and "\<forall>i. LProc i \<notin> set (held s)" and "length (procs s) = NPROC"
    and "\<not> log_committing s" and "log_outstanding s \<noteq> 1"
  shows "end_op s = Ok () (s\<lparr>log_outstanding := log_outstanding s - 1, procs := woken ChLog (curproc s) (procs s)\<rparr>)"
  using assms by (simp add: end_op_def run_kbind run_kthen acquire_Ok release_Ok wakeup_Ok)

text \<open>The last operation of a transaction to end commits it.\<close>

lemma end_op_last:
  fixes s :: "'a klog_scheme"
  assumes ready: "commit_ready s" and h: "LLog \<notin> set (held s)"
    and out: "log_outstanding s = 1" and nc: "\<not> log_committing s"
  shows "\<exists>t. end_op s = Ok () t \<and> bio_ok t \<and> log_inv t \<and> lh_n t = 0 \<and> log_outstanding t = 0 \<and> \<not> log_committing t \<and>
     log_start t = log_start s \<and> log_size t = log_size s \<and>
     bio_abs t = unpins (logged s) (abs_writes (commit_writes s) (bio_abs s))"
proof -
  let ?s1 = "s\<lparr>log_outstanding := 0, log_committing := True\<rparr>"
  have ab1: "bio_abs ?s1 = bio_abs s" by simp
  have lg: "logged ?s1 = logged s" and il: "in_log ?s1 = in_log s" by (simp_all add: logged_def in_log_def fun_eq_iff)
  have pv: "pin ?s1 = pin s" "view ?s1 = view s" using bio_abs_eqD [OF ab1] by simp_all
  have "commit_ready ?s1"
    using ready unfolding commit_ready_def ab1 pv lg by (simp add: log_inv_def log_wf_def logged_def il)
  moreover have cw: "commit_writes ?s1 = commit_writes s" by (simp add: commit_writes_def pv lg)
  ultimately obtain s2 where s2: "commit ?s1 = Ok () s2" "bio_ok s2" "bio_frame (?s1\<lparr>lh_n := 0\<rparr>) s2"
    "bio_abs s2 = unpins (logged s) (abs_writes (commit_writes s) (bio_abs s))"
    using commit_law [of ?s1] by (auto simp: lg)
  note f2 = bio_frame_log [OF s2(3), simplified]
  have h2: "held s2 = held s" using s2(3) by (simp add: bio_frame_def)
  have c2: "bio_ctx s2" using s2(2) by (simp add: bio_ok_def)
  let ?t = "s2\<lparr>log_committing := False, procs := woken ChLog (curproc s2) (procs s2)\<rparr>"
  have run: "end_op s = Ok () ?t"
    using h h2 c2 out nc s2(1)
    by (simp add: end_op_def run_kbind run_kthen acquire_Ok release_Ok wakeup_Ok bio_ctx_def)
  have mp: "mypid ?t = mypid s2" using c2 by (auto simp: mypid_def bio_ctx_def nth_woken)
  have "bio_abs ?t = bio_abs s2" by (rule bio_abs_cong) (simp_all add: mp)
  moreover have "bio_ok ?t" using s2(2) by (auto simp: bio_ok_def bio_inv_def caches_def bio_ctx_def)
  moreover have "log_inv ?t" using ready by (auto simp: commit_ready_def log_inv_def log_wf_def logged_def f2)
  ultimately show ?thesis using run s2(4) f2 by auto
qed

section \<open>A concrete transaction\<close>

text \<open>
  A state for the witnesses below: process 0 runs, the log is blocks 2 to 31, and block 40 has been
  changed in buffer 0 and logged.
\<close>

definition demo_buf :: buf where
  "demo_buf = \<lparr>b_valid = True, b_disk = False, b_dev = ROOTDEV, b_blockno = 40, b_refcnt = 1, b_data = replicate BSIZE 7\<rparr>"

definition demo_log :: klog where
  "demo_log = \<lparr>held = [], procs = replicate NPROC proc0, curproc = Some 0, nextpid = 2, initproc = None,
     slocks = (\<lambda>_. \<lparr>slk_locked = False, slk_pid = 0\<rparr>),
     mem = (\<lambda>_. 0), freelist = 0, ld = \<lparr>ld_end = 0, ld_etext = 0, ld_trampoline = 0\<rparr>, kernel_pagetable = 0, satp = 0,
     bufs = (replicate NBUF buf0)[0 := demo_buf],
     b_next = ring_next, b_prev = ring_prev, disk = (\<lambda>_. replicate BSIZE 0), dwrites = [],
     log_start = 2, log_size = 30, log_outstanding = 1, log_committing = False, log_dev = ROOTDEV,
     lh_n = 1, lh_block = (replicate LOGSIZE 0)[0 := 40]\<rparr>"

lemma demo_fields [simp]:
  "held demo_log = []" "length (procs demo_log) = NPROC" "curproc demo_log = Some 0" "slk_locked (slocks demo_log l) = False"
  "length (bufs demo_log) = NBUF" "b_next demo_log = ring_next" "b_prev demo_log = ring_prev" "disk demo_log n = replicate BSIZE 0"
  "log_start demo_log = 2" "log_size demo_log = 30" "log_dev demo_log = ROOTDEV" "lh_n demo_log = 1"
  "log_outstanding demo_log = 1" "log_committing demo_log = False" "length (lh_block demo_log) = LOGSIZE"
  "logged demo_log = [40]"
  by (simp_all add: demo_log_def logged_def LOGSIZE_def MAXOPBLOCKS_def upt_rec numeral_eq_Suc)

lemma demo_buf_at: "i < NBUF \<Longrightarrow> bufs demo_log ! i = (if i = 0 then demo_buf else buf0)"
  by (simp add: demo_log_def nth_list_update)

lemma demo_caches: "caches demo_log i n \<longleftrightarrow> i = 0 \<and> n = 40"
proof (cases "i < NBUF")
  case True
  then show ?thesis by (auto simp: caches_def demo_buf_at) (auto simp: demo_buf_def buf0_def ROOTDEV_def)
qed (auto simp: caches_def NBUF_def)

lemma demo_inv: "bio_inv demo_log"
proof -
  have "buf_ok (disk demo_log) False (bufs demo_log ! i)" if "i < NBUF" for i
    using that by (simp add: demo_buf_at buf_ok_def) (simp add: demo_buf_def buf0_def)
  then show ?thesis using ring_upt by (auto simp: bio_inv_def demo_caches)
qed

lemma demo_slot: "slot demo_log n = (if n = 40 then Some 0 else None)"
  using slot_None [of demo_log n] slot_Some [OF demo_inv, of n 0] by (auto simp: demo_caches)

lemma demo_view: "view demo_log n = (if n = 40 then replicate BSIZE 7 else replicate BSIZE 0)"
  "pin demo_log n = (if n = 40 then 1 else 0)" "\<not> lkd demo_log n"
  by (simp_all add: view_def pin_def lkd_def demo_slot demo_buf_at demo_buf_def NBUF_def)

lemma demo_ready: "commit_ready demo_log"
proof -
  have "pinned (bio_abs demo_log) = 1" by (simp add: pinned_def demo_view)
  moreover have "bio_ctx demo_log" by (auto simp: bio_ctx_def)
  ultimately show ?thesis
    using demo_inv by (auto simp: commit_ready_def bio_ok_def calm_def demo_view NBUF_def log_inv_def log_wf_def in_log_def)
qed

section \<open>Properties\<close>

text \<open>
  C1.  \<^verbatim>\<open>commit\<close> is atomic under crashes.  If the log on disk is clear and only logged blocks
  differ from the disk, then \<^verbatim>\<open>commit\<close> returns, and for every crash point \<open>k\<close> in the sequence
  of its disk writes, recovering from the disk as it then is gives either every block outside the
  log its old contents or every one its new contents.
\<close>

theorem commit_atomic:
  fixes s :: "'a klog_scheme"
  assumes "commit_ready s" and "head_n (disk s (log_head s)) = 0"
    and "\<forall>m. \<not> in_log s m \<and> m \<notin> set (logged s) \<longrightarrow> view s m = disk s m"
  shows "\<exists>t ws. commit s = Ok () t \<and> dwrites t = dwrites s @ ws \<and> disk t = apply_writes ws (disk s) \<and>
    (\<forall>k. let d = recovered (log_start s) (apply_writes (take k ws) (disk s)) in
       (\<forall>m. \<not> in_log s m \<longrightarrow> d m = disk s m) \<or> (\<forall>m. \<not> in_log s m \<longrightarrow> d m = view s m))"
proof -
  obtain t where t: "commit s = Ok () t" "bio_abs t = unpins (logged s) (abs_writes (commit_writes s) (bio_abs s))"
    using commit_law [OF assms(1)] by blast
  have inv: "log_inv s" using assms(1) by (simp add: commit_ready_def)
  have clean: "\<And>m. \<not> in_log s m \<Longrightarrow> m \<notin> set (logged s) \<Longrightarrow> view s m = disk s m" using assms(3) by blast
  let ?d = "\<lambda>k. recovered (log_start s) (apply_writes (take k (commit_writes s)) (disk s))"
  have "(\<forall>m. \<not> in_log s m \<longrightarrow> ?d k m = disk s m) \<or> (\<forall>m. \<not> in_log s m \<longrightarrow> ?d k m = view s m)" for k
  proof (cases "k \<le> nat (lh_n s) \<or> lh_n s = 0")
    case True
    then have "take k (commit_writes s) = take (min k (nat (lh_n s))) (commit_writes s)" by (auto simp: commit_writes_def)
    then show ?thesis using crash_before [OF inv assms(2), of "min k (nat (lh_n s))"] by simp
  next
    case False
    show ?thesis
    proof (cases "k \<le> 2 * nat (lh_n s) + 1")
      case True
      then obtain j where "k = nat (lh_n s) + 1 + j" "j \<le> nat (lh_n s)" using False by (intro that [of "k - nat (lh_n s) - 1"]) auto
      then show ?thesis using crash_after_header [OF assms(1) _ _ clean] False by blast
    next
      case big: False
      then have "take k (commit_writes s) = commit_writes s" using False by (simp add: commit_writes_split)
      then show ?thesis using crash_end(1) [OF assms(1) _ clean] False by simp
    qed
  qed
  moreover have "dwrites t = dwrites s @ commit_writes s" using arg_cong [OF t(2), of a_writes] by simp
  moreover have "disk t = apply_writes (commit_writes s) (disk s)" using arg_cong [OF t(2), of a_disk] by simp
  ultimately show ?thesis using t(1) unfolding Let_def by blast
qed

theorem commit_atomic_witness:
  "\<exists>t ws. commit demo_log = Ok () t \<and> dwrites t = dwrites demo_log @ ws \<and> disk t = apply_writes ws (disk demo_log) \<and>
    (\<forall>k. let d = recovered 2 (apply_writes (take k ws) (disk demo_log)) in
       (\<forall>m. \<not> in_log demo_log m \<longrightarrow> d m = disk demo_log m) \<or> (\<forall>m. \<not> in_log demo_log m \<longrightarrow> d m = view demo_log m))"
  using commit_atomic [of demo_log] demo_ready by (simp add: demo_view head_n_def get_le_def word_of_bytes_def numeral_eq_Suc)

text \<open>
  C2.  Recovery after a crash.  At boot, with nothing in the cache and a header that names home blocks
  only, \<^verbatim>\<open>recover_from_log\<close> returns; the disk is then the recovered one with a clear header,
  and if recovery itself crashes after any number \<open>k\<close> of its writes, recovering once more gives the
  same disk.
\<close>

theorem recovery_idempotent:
  fixes s :: "'a klog_scheme"
  assumes "bio_ok s" and "log_wf s" and "calm (bio_abs s)" and "\<forall>n. pin s n = 0"
    and "head_ok s (disk s (log_head s))"
  shows "\<exists>t ws. recover_from_log s = Ok () t \<and> dwrites t = dwrites s @ ws \<and>
    disk t = recovered (log_start s) (disk s) \<and> head_n (disk t (log_head s)) = 0 \<and> lh_n t = 0 \<and>
    (\<forall>k. recovered (log_start s) (apply_writes (take k ws) (disk s)) = recovered (log_start s) (disk s))"
proof -
  let ?ws = "recover_writes (log_start s) (disk s)"
  obtain t where t: "recover_from_log s = Ok () t" "lh_n t = 0" "bio_abs t = abs_writes ?ws (bio_abs s)"
    using recover_law [OF assms(1-3) _ assms(5)] assms(4) by blast
  have sz: "length (disk s (log_head s)) = BSIZE" using assms(1) by (simp add: bio_ok_def bio_inv_def)
  have w: "dwrites t = dwrites s @ ?ws" using arg_cong [OF t(3), of a_writes] by simp
  have d: "disk t = recovered (log_start s) (disk s)" using arg_cong [OF t(3), of a_disk] by (simp add: recovered_writes)
  then have "head_n (disk t (log_head s)) = 0" using put_head(2) [OF sz, of 0] by (simp add: recovered_def Let_def)
  then show ?thesis using t(1,2) w d recover_crash [of s "disk s", OF assms(2,5) sz] by blast
qed

text \<open>The disk of a crash after the header was written, before block 40 was installed.\<close>

definition demo_boot :: klog where
  "demo_boot = demo_log\<lparr>bufs := replicate NBUF buf0, lh_n := 0,
     disk := (\<lambda>_. replicate BSIZE 0)(2 := put_head 1 [40] (replicate BSIZE 0), 3 := replicate BSIZE 7)\<rparr>"

lemma demo_boot_ok: "bio_ok demo_boot" "log_wf demo_boot" "calm (bio_abs demo_boot)" "pin demo_boot n = 0"
proof -
  have c: "\<not> caches demo_boot i m" for i m by (auto simp: caches_def demo_boot_def buf0_def ROOTDEV_def)
  then have sl: "slot demo_boot m = None" for m by (simp add: slot_None)
  have "length (put_head 1 [40] (replicate BSIZE 0)) = BSIZE" using put_head(1) [of "replicate BSIZE 0" 1] by simp
  then show "bio_ok demo_boot"
    using ring_upt c by (auto simp: bio_ok_def bio_inv_def bio_ctx_def) (auto simp: demo_boot_def buf_ok_def buf0_def)
  show "log_wf demo_boot" by (simp add: log_wf_def demo_boot_def)
  show "pin demo_boot n = 0" by (simp add: pin_def sl)
  show "calm (bio_abs demo_boot)" by (simp add: calm_def pin_def lkd_def sl)
qed

theorem recovery_idempotent_witness:
  "\<exists>t ws. recover_from_log demo_boot = Ok () t \<and> dwrites t = dwrites demo_boot @ ws \<and>
    disk t = recovered 2 (disk demo_boot) \<and> head_n (disk t 2) = 0 \<and> lh_n t = 0 \<and>
    (\<forall>k. recovered 2 (apply_writes (take k ws) (disk demo_boot)) = recovered 2 (disk demo_boot))"
proof -
  have h: "disk demo_boot 2 = put_head 1 [40] (replicate BSIZE 0)" "log_start demo_boot = 2" "log_size demo_boot = 30"
    by (simp_all add: demo_boot_def)
  have "head_ok demo_boot (disk demo_boot (log_head demo_boot))"
    using put_head(2,3) [of "replicate BSIZE 0" 1] by (simp add: head_ok_def h in_log_def)
  then show ?thesis
    using recovery_idempotent [of demo_boot] demo_boot_ok by (simp add: h)
qed

text \<open>
  C4.  \<^verbatim>\<open>end_op\<close> by the last operation makes the transaction durable: it returns with the log
  empty, every block outside the log has on disk what the operations left in the cache, and the
  cache shows the same contents as before with each logged block unpinned once.
\<close>

theorem end_op_durable:
  fixes s :: "'a klog_scheme"
  assumes "commit_ready s" and "LLog \<notin> set (held s)" and "log_outstanding s = 1" and "\<not> log_committing s"
    and "\<forall>m. \<not> in_log s m \<and> m \<notin> set (logged s) \<longrightarrow> view s m = disk s m"
  shows "\<exists>t. end_op s = Ok () t \<and> lh_n t = 0 \<and> log_outstanding t = 0 \<and> \<not> log_committing t \<and>
    (\<forall>m. \<not> in_log s m \<longrightarrow> disk t m = view s m \<and> view t m = view s m) \<and>
    (\<forall>m. pin t m = pin s m - count_list (logged s) m)"
proof -
  obtain t where t: "end_op s = Ok () t" "lh_n t = 0" "log_outstanding t = 0" "\<not> log_committing t"
      "bio_abs t = unpins (logged s) (abs_writes (commit_writes s) (bio_abs s))"
    using end_op_last [OF assms(1-4)] by blast
  have "pin t m = pin s m - count_list (logged s) m" for m
    using fun_cong [OF arg_cong [OF t(5), of a_pin], of m] by simp
  moreover have v: "disk t = apply_writes (commit_writes s) (disk s)" "view t = apply_writes (commit_writes s) (view s)"
    using arg_cong [OF t(5), of a_disk] arg_cong [OF t(5), of a_view] by simp_all
  moreover have "disk t m = view s m \<and> view t m = view s m" if "\<not> in_log s m" for m
  proof -
    have "disk t m = view s m" unfolding v(1) by (rule commit_final [OF assms(1) _ that]) (use assms(5) in blast)
    moreover have "view t m = disk t m"
    proof (cases "m \<in> fst ` set (commit_writes s)")
      case True
      then show ?thesis unfolding v by (rule apply_writes_last)
    next
      case False
      then have "view t m = view s m" unfolding v by (rule apply_writes_other)
      then show ?thesis using calculation by simp
    qed
    ultimately show ?thesis by simp
  qed
  ultimately show ?thesis using t(1-4) by blast
qed

theorem end_op_durable_witness:
  "\<exists>t. end_op demo_log = Ok () t \<and> lh_n t = 0 \<and> log_outstanding t = 0 \<and> \<not> log_committing t \<and>
    (\<forall>m. \<not> in_log demo_log m \<longrightarrow> disk t m = view demo_log m \<and> view t m = view demo_log m) \<and>
    (\<forall>m. pin t m = pin demo_log m - count_list [40] m)"
  using end_op_durable [of demo_log] demo_ready by (simp add: demo_view)

text \<open>
  C5.  \<^verbatim>\<open>log_write\<close> records a block once.  For a buffer the caller holds, with room in the log,
  it returns; a block already in the log is absorbed and changes nothing, a new one is appended and
  pinned in the cache so that it cannot be evicted before the commit.
\<close>

theorem log_write_absorbs:
  fixes s :: "'a klog_scheme"
  assumes "bio_ok s" and "log_inv s" and "own s b = Some m" and "\<not> in_log s m" and "pin s m < 2 ^ 32 - 1"
    and "lh_n s < log_size s - 1" and "1 \<le> log_outstanding s" and "LLog \<notin> set (held s)"
  shows "\<exists>t. log_write b s = Ok () t \<and> log_inv t \<and> bio_ok t \<and> view t = view s \<and> disk t = disk s \<and>
    (if m \<in> set (logged s) then logged t = logged s \<and> pin t = pin s
     else logged t = logged s @ [m] \<and> pin t = (pin s)(m := pin s m + 1))"
proof -
  obtain t where t: "log_write b s = Ok () t" "bio_ok t" "log_inv t"
    "logged t = (if m \<in> set (logged s) then logged s else logged s @ [m])"
    "bio_abs t = (if m \<in> set (logged s) then bio_abs s else abs_bpin b (bio_abs s))"
    using log_write_law [OF assms] by blast
  have "view t = view s \<and> disk t = disk s \<and> pin t = (if m \<in> set (logged s) then pin s else (pin s)(m := pin s m + 1))"
    using arg_cong [OF t(5), of a_view] arg_cong [OF t(5), of a_disk] arg_cong [OF t(5), of a_pin] assms(3)
    by (auto simp: abs_bpin_def)
  then show ?thesis using t(1-4) by auto
qed

definition demo_own :: klog where
  "demo_own = demo_log\<lparr>slocks := (\<lambda>_. \<lparr>slk_locked = False, slk_pid = 0\<rparr>)(SBuf 0 := \<lparr>slk_locked = True, slk_pid = 1\<rparr>),
     lh_n := 0\<rparr>"

lemma demo_own_ok: "bio_ok demo_own" "own demo_own 0 = Some 40" "log_inv demo_own" "pin demo_own 40 = 1"
proof -
  have f: "bufs demo_own = bufs demo_log" "b_next demo_own = ring_next" "b_prev demo_own = ring_prev" "disk demo_own = disk demo_log"
    "length (procs demo_own) = NPROC" "curproc demo_own = Some 0" "held demo_own = []"
    by (simp_all add: demo_own_def)
  have c: "caches demo_own i n \<longleftrightarrow> i = 0 \<and> n = 40" for i n using demo_caches [of i n] by (simp add: caches_def f)
  have "buf_ok (disk demo_log) (slk_locked (slocks demo_own (SBuf i))) (bufs demo_log ! i)" if "i < NBUF" for i
    using that by (simp add: demo_buf_at buf_ok_def) (simp add: demo_buf_def buf0_def demo_own_def)
  then have inv: "bio_inv demo_own" using ring_upt by (auto simp: bio_inv_def c f)
  then show "bio_ok demo_own" by (auto simp: bio_ok_def bio_ctx_def f)
  have "slot demo_own 40 = Some 0" using slot_Some [OF inv, of 40 0] c by simp
  then show "pin demo_own 40 = 1" by (simp add: pin_def f demo_buf_at NBUF_def demo_buf_def)
  show "own demo_own 0 = Some 40"
    by (simp add: own_def f demo_buf_at NBUF_def demo_buf_def) (simp add: demo_own_def mypid_def demo_log_def proc0_def)
  show "log_inv demo_own" by (simp add: log_inv_def log_wf_def logged_def demo_own_def)
qed

theorem log_write_absorbs_witness:
  "\<exists>t. log_write 0 demo_own = Ok () t \<and> log_inv t \<and> bio_ok t \<and> view t = view demo_own \<and> disk t = disk demo_own \<and>
    logged t = [40] \<and> pin t = (pin demo_own)(40 := pin demo_own 40 + 1)"
proof -
  have "logged demo_own = []" "held demo_own = []" "log_outstanding demo_own = 1" "log_size demo_own = 30" "lh_n demo_own = 0"
    "\<not> in_log demo_own 40" by (simp_all add: logged_def demo_own_def in_log_def)
  then show ?thesis using log_write_absorbs [OF demo_own_ok(1,3,2)] demo_own_ok(4) by simp
qed

section \<open>Reservation of log space\<close>

text \<open>
  \<^verbatim>\<open>begin_op\<close> reserves \<^verbatim>\<open>MAXOPBLOCKS\<close> blocks for every operation.  \<open>log_run s us\<close>: the
  state \<open>s\<close> is reached by operations that keep to their reservation; \<open>us\<close> has, for every operation
  now in progress, the number of its calls of \<^verbatim>\<open>log_write\<close>.
\<close>

inductive log_run :: "klog \<Rightarrow> nat list \<Rightarrow> bool" where
  start: "lh_n s = 0 \<Longrightarrow> log_outstanding s = 0 \<Longrightarrow> log_run s []"
| begin_op: "log_run s us \<Longrightarrow> begin_op s = Ok () t \<Longrightarrow> log_run t (0 # us)"
| log_write: "log_run s us \<Longrightarrow> i < length us \<Longrightarrow> us ! i < MAXOPBLOCKS \<Longrightarrow> log_write b s = Ok () t \<Longrightarrow>
    log_run t (us[i := us ! i + 1])"
| end_op: "log_run s us \<Longrightarrow> i < length us \<Longrightarrow> end_op s = Ok () t \<Longrightarrow> log_run t (take i us @ drop (Suc i) us)"

definition reserved :: "nat list \<Rightarrow> int" where
  "reserved us = (\<Sum>u\<leftarrow>us. int MAXOPBLOCKS - int u)"









lemma reserved_simps [simp]:
  "reserved [] = 0" "reserved (u # us) = int MAXOPBLOCKS - int u + reserved us" "reserved (us @ vs) = reserved us + reserved vs"
  by (simp_all add: reserved_def)














section \<open>A log of LOGSIZE blocks is one block short\<close>

text \<open>
  All buffers locked by process 0, buffer \<open>i\<close> with block \<open>40 + i\<close>, and a log of \<^verbatim>\<open>LOGSIZE\<close>
  blocks as \<^verbatim>\<open>mkfs\<close> makes it.
\<close>

definition full_buf :: "nat \<Rightarrow> buf" where
  "full_buf i = \<lparr>b_valid = True, b_disk = False, b_dev = ROOTDEV, b_blockno = 40 + of_nat i, b_refcnt = 1,
     b_data = replicate BSIZE 7\<rparr>"

definition full_log :: "int \<Rightarrow> klog" where
  "full_log out = demo_log\<lparr>bufs := map full_buf [0..<NBUF], slocks := (\<lambda>_. \<lparr>slk_locked = True, slk_pid = 1\<rparr>),
     lh_n := 0, log_outstanding := out\<rparr>"

lemma full_blockno: "i < NBUF \<Longrightarrow> j < NBUF \<Longrightarrow> (40 + of_nat i :: u32) = 40 + of_nat j \<Longrightarrow> i = j"
  by (simp add: NBUF_def word_of_nat_eq_iff take_bit_nat_eq_self)

lemma full_fields [simp]:
  "length (bufs (full_log k)) = NBUF" "i < NBUF \<Longrightarrow> bufs (full_log k) ! i = full_buf i" "lh_n (full_log k) = 0"
  "log_outstanding (full_log k) = k" "log_size (full_log k) = 30" "log_start (full_log k) = 2" "held (full_log k) = []"
  by (simp_all add: full_log_def)

lemma full_caches: "caches (full_log k) i n \<longleftrightarrow> i < NBUF \<and> n = 40 + of_nat i"
  by (auto simp: caches_def full_buf_def)

lemma full_ok: "bio_ok (full_log k)" "i < NBUF \<Longrightarrow> own (full_log k) i = Some (40 + of_nat i)" "log_inv (full_log k)"
  "i < NBUF \<Longrightarrow> pin (full_log k) (40 + of_nat i) = 1"
proof -
  have r: "\<exists>xs. is_ring (b_next (full_log k)) (b_prev (full_log k)) xs" using ring_upt by (auto simp: full_log_def)
  have "buf_ok (disk (full_log k)) (slk_locked (slocks (full_log k) (SBuf i))) (bufs (full_log k) ! i)" if "i < NBUF" for i
    using that by (simp add: buf_ok_def full_buf_def)
  moreover have "length (disk (full_log k) n) = BSIZE" for n by (simp add: full_log_def)
  ultimately have inv: "bio_inv (full_log k)" using r full_blockno by (auto simp: bio_inv_def full_caches)
  then show "bio_ok (full_log k)" by (auto simp: bio_ok_def bio_ctx_def full_log_def)
  show "own (full_log k) i = Some (40 + of_nat i)" if "i < NBUF" using that
    by (simp add: own_def full_buf_def) (simp add: full_log_def mypid_def demo_log_def proc0_def)
  show "log_inv (full_log k)" by (simp add: log_inv_def log_wf_def logged_def) (simp add: full_log_def)
  show "pin (full_log k) (40 + of_nat i) = 1" if "i < NBUF"
    using that slot_Some [OF inv, of "40 + of_nat i" i] by (simp add: pin_def full_caches full_buf_def)
qed

lemma full_begin: "log_run (full_log 3) [0, 0, 0]"
proof -
  have b: "begin_op (full_log k) = Ok () (full_log (k + 1))" if "k \<le> 2" for k
    using that by (subst begin_op_cases) (auto simp: full_log_def)
  have "log_run (full_log 0) []" by (rule log_run.start) simp_all
  then have "log_run (full_log 1) [0]" using b [of 0] log_run.begin_op by simp
  then have "log_run (full_log 2) [0, 0]" using b [of 1] log_run.begin_op by simp
  then show ?thesis using b [of 2] log_run.begin_op by simp
qed

text \<open>The calls of \<^verbatim>\<open>log_write\<close> the three operations have made after \<open>k\<close> blocks.\<close>

definition shares :: "nat \<Rightarrow> nat list" where
  "shares k = [min 10 k, min 10 (k - 10), min 10 (k - 20)]"

lemma shares_step:
  assumes "k < 30"
  shows "k div 10 < length (shares k)" and "shares k ! (k div 10) < MAXOPBLOCKS"
    and "(shares k)[k div 10 := shares k ! (k div 10) + 1] = shares (k + 1)"
proof -
  consider "k < 10" | "10 \<le> k" "k < 20" | "20 \<le> k" "k < 30" using assms by linarith
  then have "k div 10 < length (shares k) \<and> shares k ! (k div 10) < MAXOPBLOCKS \<and>
      (shares k)[k div 10 := shares k ! (k div 10) + 1] = shares (k + 1)"
  proof cases
    case 1
    then have "k div 10 = 0" by simp
    with 1 show ?thesis by (simp add: shares_def)
  next
    case 2
    then have "k div 10 = 1" by simp
    with 2 show ?thesis by (auto simp: shares_def)
  next
    case 3
    then have "k div 10 = 2" by simp
    with 3 show ?thesis by (auto simp: shares_def)
  qed
  then show "k div 10 < length (shares k)" and "shares k ! (k div 10) < MAXOPBLOCKS"
    and "(shares k)[k div 10 := shares k ! (k div 10) + 1] = shares (k + 1)" by auto
qed

lemma full_run:
  assumes "k \<le> 29"
  shows "\<exists>s. log_run s (shares k) \<and> bio_ok s \<and> log_inv s \<and> lh_n s = int k \<and> log_size s = 30 \<and> log_start s = 2 \<and>
    log_outstanding s = 3 \<and> held s = [] \<and> own s = own (full_log 3) \<and>
    logged s = map (\<lambda>i. 40 + of_nat i) [0..<k] \<and> (\<forall>i<NBUF. pin s (40 + of_nat i) = (if i < k then 2 else 1))"
  using assms
proof (induction k)
  case 0
  show ?case using full_begin full_ok(1,3) [of 3] full_ok(4) [of _ 3] by (intro exI [of _ "full_log 3"]) (auto simp: shares_def logged_def)
next
  case (Suc k)
  then obtain s where s: "log_run s (shares k)" "bio_ok s" "log_inv s" "lh_n s = int k" "log_size s = 30" "log_start s = 2"
    "log_outstanding s = 3" "held s = []" "own s = own (full_log 3)" "logged s = map (\<lambda>i. 40 + of_nat i) [0..<k]"
    "\<forall>i<NBUF. pin s (40 + of_nat i) = (if i < k then 2 else 1)" by auto
  have kN: "k < NBUF" using Suc.prems by (simp add: NBUF_def)
  let ?m = "40 + of_nat k :: u32"
  have new: "?m \<notin> set (logged s)"
  proof
    assume "?m \<in> set (logged s)"
    then obtain j where j: "j < k" "?m = 40 + of_nat j" by (auto simp: s(10))
    then have "k = j" by (intro full_blockno kN) (use kN in simp_all)
    then show False using j(1) by simp
  qed
  have um: "uint ?m = 40 + int k"
    using kN by (simp add: NBUF_def uint_word_ariths unsigned_of_nat take_bit_nat_eq_self)
  have o: "own s k = Some ?m" using full_ok(2) [OF kN] s(9) by simp
  have pk: "pin s ?m = 1" using s(11) kN by simp
  then obtain t where t: "log_write k s = Ok () t" "bio_ok t" "log_inv t" "logged t = logged s @ [?m]"
    "bio_abs t = abs_bpin k (bio_abs s)" "bio_frame (s\<lparr>lh_n := lh_n t, lh_block := lh_block t\<rparr>) t"
    using log_write_law [OF s(2,3) o] new s(4-8) um Suc.prems by (auto simp: in_log_def)
  note ft = bio_frame_log [OF t(6), simplified]
  have "nat (lh_n t) = Suc k" using length_logged [OF t(3)] t(4) s(10) by simp
  then have n: "lh_n t = int (Suc k)" using t(3) by (simp add: log_inv_def)
  have ow: "own t = own s" using arg_cong [OF t(5), of a_own] o by (simp add: abs_bpin_def)
  have pn: "pin t = (pin s)(?m := pin s ?m + 1)" using arg_cong [OF t(5), of a_pin] o by (simp add: abs_bpin_def)
  have "held t = []" using t(6) s(8) by (simp add: bio_frame_def)
  moreover have "log_run t (shares (Suc k))"
    using log_run.log_write [OF s(1) shares_step(1,2) t(1)] shares_step(3) [of k] Suc.prems by simp
  moreover have "pin t (40 + of_nat i) = (if i < Suc k then 2 else 1)" if "i < NBUF" for i
  proof (cases "i = k")
    case False
    then have "(40 + of_nat i :: u32) \<noteq> ?m" using full_blockno [OF that kN] by blast
    then show ?thesis using that s(11) False by (simp add: pn less_Suc_eq)
  qed (simp add: pn pk)
  ultimately show ?case using t n ow s ft by auto
qed

text \<open>
  C7.  A log of \<^verbatim>\<open>LOGSIZE\<close> blocks, which is what \<^verbatim>\<open>mkfs\<close> lays out, has only
  \<^verbatim>\<open>LOGSIZE - 1\<close> data blocks, while \<^verbatim>\<open>begin_op\<close> admits operations up to
  \<^verbatim>\<open>LOGSIZE\<close> blocks: there is a run of \<^verbatim>\<open>begin_op\<close> and \<^verbatim>\<open>log_write\<close> in which
  every operation keeps to its reservation and \<^verbatim>\<open>log_write\<close> panics.
\<close>

theorem reservation_too_small:
  "\<exists>s us i b. log_run s us \<and> log_size s = int LOGSIZE \<and> i < length us \<and> us ! i < MAXOPBLOCKS \<and>
     own s b \<noteq> None \<and> log_write b s = Panic ''too big a transaction''"
proof -
  obtain s where s: "log_run s (shares 29)" "lh_n s = 29" "log_size s = 30" "held s = []" "own s = own (full_log 3)"
    using full_run [of 29] by auto
  have "own s 29 \<noteq> None" using full_ok(2) [of 29 3] s(5) by (simp add: NBUF_def)
  moreover have "log_write 29 s = Panic ''too big a transaction''" by (rule log_write_too_big) (simp_all add: s)
  ultimately show ?thesis using s shares_step(1,2) [of 29]
    by (intro exI [of _ s] exI [of _ "shares 29"] exI [of _ "29 div 10"] exI [of _ "29 :: nat"]) auto
qed

end
