(* ===== verification/Vm.thy ===== *)
theory Vm
  imports Kalloc
begin

text \<open>
  \<^verbatim>\<open>kernel/vm.c\<close>: Sv39 page tables.  A page table is a page of memory with 512 entries of
  eight bytes; \<^verbatim>\<open>pte_t *\<close> is an address, and 0 is the null pointer.  All entries are read and
  written in memory, as the hardware does.

  Kernel objects (buffers, \<^verbatim>\<open>struct stat\<close>, arrays on the stack) are not in the memory of the
  model, so \<^verbatim>\<open>copyout\<close> takes the bytes at \<^verbatim>\<open>src\<close> and \<^verbatim>\<open>copyin\<close> and
  \<^verbatim>\<open>copyinstr\<close> return the bytes they have stored at \<^verbatim>\<open>dst\<close>, also when they fail
  half-way.

  The theory \<open>Vm_Tables\<close> gives the function from virtual pages to entries that a table
  represents, and \<open>Vm_User\<close> the user bytes; the theorems about the operations are there.
\<close>

section \<open>Page-table entries in memory\<close>

definition read_pte :: "u64 \<Rightarrow> ('a kmem_scheme, u64) op" where
  "read_pte a = kget (\<lambda>s. load64 (mem s) a)"

definition write_pte :: "u64 \<Rightarrow> u64 \<Rightarrow> ('a kmem_scheme, unit) op" where
  "write_pte a v = kmod (\<lambda>s. s\<lparr>mem := store64 (mem s) a v\<rparr>)"

text \<open>\<^verbatim>\<open>&pagetable[PX(level, va)]\<close>\<close>

definition pte_addr :: "u64 \<Rightarrow> nat \<Rightarrow> u64 \<Rightarrow> u64" where
  "pte_addr pagetable level va = pagetable + 8 * PX level va"

definition zero_page :: "u64 \<Rightarrow> ('a kmem_scheme, unit) op" where
  "zero_page pa = kmod (\<lambda>s. s\<lparr>mem := memset pa 0 (ucast PGSIZE) (mem s)\<rparr>)"

section \<open>Walking and mapping\<close>

text \<open>One turn of the loop of \<^verbatim>\<open>walk\<close>; \<^const>\<open>None\<close> is \<^verbatim>\<open>return 0\<close>.\<close>

definition walk_level :: "u64 \<Rightarrow> u64 \<Rightarrow> bool \<Rightarrow> nat \<Rightarrow> ('a kmem_scheme, u64 option) op" where
  "walk_level pagetable va alloc level =
     (let pte = pte_addr pagetable level va in
      kbind (read_pte pte) (\<lambda>v.
      if v AND PTE_V \<noteq> 0 then kret (Some (PTE2PA v)) else
      if \<not> alloc then kret None else
      kbind kalloc (\<lambda>pg.
      if pg = 0 then kret None else
      kthen (zero_page pg) (
      kthen (write_pte pte (PA2PTE pg OR PTE_V))
      (kret (Some pg))))))"

definition walk :: "u64 \<Rightarrow> u64 \<Rightarrow> bool \<Rightarrow> ('a kmem_scheme, u64) op" where
  "walk pagetable va alloc =
     (if va \<ge> MAXVA then kpanic ''walk'' else
      kbind (walk_level pagetable va alloc 2) (\<lambda>r2. case r2 of None \<Rightarrow> kret 0 | Some pt1 \<Rightarrow>
      kbind (walk_level pt1 va alloc 1) (\<lambda>r1. case r1 of None \<Rightarrow> kret 0 | Some pt0 \<Rightarrow>
      kret (pte_addr pt0 0 va))))"

definition walkaddr :: "u64 \<Rightarrow> u64 \<Rightarrow> ('a kmem_scheme, u64) op" where
  "walkaddr pagetable va =
     (if va \<ge> MAXVA then kret 0 else
      kbind (walk pagetable va False) (\<lambda>pte.
      if pte = 0 then kret 0 else
      kbind (read_pte pte) (\<lambda>v.
      if v AND PTE_V = 0 then kret 0 else
      if v AND PTE_U = 0 then kret 0 else
      kret (PTE2PA v))))"

text \<open>The loop of \<^verbatim>\<open>mappages\<close>; the first argument bounds its turns.\<close>

primrec mappages_loop :: "nat \<Rightarrow> u64 \<Rightarrow> u64 \<Rightarrow> u64 \<Rightarrow> u64 \<Rightarrow> u64 \<Rightarrow> ('a kmem_scheme, int) op" where
  "mappages_loop 0 pagetable a lst pa perm = (\<lambda>s. Hang)"
| "mappages_loop (Suc k) pagetable a lst pa perm =
     kbind (walk pagetable a True) (\<lambda>pte.
     if pte = 0 then kret (- 1) else
     kbind (read_pte pte) (\<lambda>v.
     if v AND PTE_V \<noteq> 0 then kpanic ''mappages: remap'' else
     kthen (write_pte pte (PA2PTE pa OR perm OR PTE_V)) (
     if a = lst then kret 0
     else mappages_loop k pagetable (a + PGSIZE) lst (pa + PGSIZE) perm)))"

definition mappages :: "u64 \<Rightarrow> u64 \<Rightarrow> u64 \<Rightarrow> u64 \<Rightarrow> u64 \<Rightarrow> ('a kmem_scheme, int) op" where
  "mappages pagetable va sz pa perm =
     (if sz = 0 then kpanic ''mappages: size'' else
      let a = PGROUNDDOWN va; lst = PGROUNDDOWN (va + sz - 1) in
      mappages_loop (unat (lst - a) div 4096 + 1) pagetable a lst pa perm)"

definition kvmmap :: "u64 \<Rightarrow> u64 \<Rightarrow> u64 \<Rightarrow> u64 \<Rightarrow> u64 \<Rightarrow> ('a kmem_scheme, unit) op" where
  "kvmmap kpgtbl va pa sz perm =
     kbind (mappages kpgtbl va sz pa perm) (\<lambda>r. if r \<noteq> 0 then kpanic ''kvmmap'' else kret ())"

definition proc_mapstack :: "u64 \<Rightarrow> nat \<Rightarrow> ('a kmem_scheme, unit) op" where
  "proc_mapstack kpgtbl p =
     kbind kalloc (\<lambda>pa.
     if pa = 0 then kpanic ''kalloc'' else
     kvmmap kpgtbl (KSTACK p) pa PGSIZE (PTE_R OR PTE_W))"

definition proc_mapstacks :: "u64 \<Rightarrow> ('a kmem_scheme, unit) op" where
  "proc_mapstacks kpgtbl = kfor [0..<NPROC] (proc_mapstack kpgtbl)"

definition kvmmake :: "('a kmem_scheme, u64) op" where
  "kvmmake =
     kbind kalloc (\<lambda>kpgtbl.
     kthen (zero_page kpgtbl) (
     kbind (kget ld) (\<lambda>l.
     kthen (kvmmap kpgtbl UART0 UART0 PGSIZE (PTE_R OR PTE_W)) (
     kthen (kvmmap kpgtbl VIRTIO0 VIRTIO0 PGSIZE (PTE_R OR PTE_W)) (
     kthen (kvmmap kpgtbl PLIC PLIC 0x400000 (PTE_R OR PTE_W)) (
     kthen (kvmmap kpgtbl KERNBASE KERNBASE (ld_etext l - KERNBASE) (PTE_R OR PTE_X)) (
     kthen (kvmmap kpgtbl (ld_etext l) (ld_etext l) (PHYSTOP - ld_etext l) (PTE_R OR PTE_W)) (
     kthen (kvmmap kpgtbl TRAMPOLINE (ld_trampoline l) PGSIZE (PTE_R OR PTE_X)) (
     kthen (proc_mapstacks kpgtbl)
     (kret kpgtbl))))))))))"

definition kvminit :: "('a kmem_scheme, unit) op" where
  "kvminit = kbind kvmmake (\<lambda>p. kmod (\<lambda>s. s\<lparr>kernel_pagetable := p\<rparr>))"

definition MAKE_SATP :: "u64 \<Rightarrow> u64" where
  "MAKE_SATP pagetable = push_bit 60 8 OR drop_bit 12 pagetable"

definition kvminithart :: "('a kmem_scheme, unit) op" where
  "kvminithart = kmod (\<lambda>s. s\<lparr>satp := MAKE_SATP (kernel_pagetable s)\<rparr>)"

section \<open>User page tables\<close>

primrec uvmunmap_loop :: "nat \<Rightarrow> u64 \<Rightarrow> u64 \<Rightarrow> u64 \<Rightarrow> bool \<Rightarrow> ('a kmem_scheme, unit) op" where
  "uvmunmap_loop 0 pagetable a lim do_free = (\<lambda>s. Hang)"
| "uvmunmap_loop (Suc k) pagetable a lim do_free =
     (if \<not> a < lim then kret () else
      kbind (walk pagetable a False) (\<lambda>pte.
      if pte = 0 then kpanic ''uvmunmap: walk'' else
      kbind (read_pte pte) (\<lambda>v.
      if v AND PTE_V = 0 then kpanic ''uvmunmap: not mapped'' else
      if PTE_FLAGS v = PTE_V then kpanic ''uvmunmap: not a leaf'' else
      kthen (kwhen do_free (kfree (PTE2PA v))) (
      kthen (write_pte pte 0)
      (uvmunmap_loop k pagetable (a + PGSIZE) lim do_free)))))"

definition uvmunmap :: "u64 \<Rightarrow> u64 \<Rightarrow> u64 \<Rightarrow> bool \<Rightarrow> ('a kmem_scheme, unit) op" where
  "uvmunmap pagetable va npages do_free =
     (if va mod PGSIZE \<noteq> 0 then kpanic ''uvmunmap: not aligned'' else
      uvmunmap_loop (unat npages + 1) pagetable va (va + npages * PGSIZE) do_free)"

definition uvmcreate :: "('a kmem_scheme, u64) op" where
  "uvmcreate =
     kbind kalloc (\<lambda>pagetable.
     if pagetable = 0 then kret 0 else
     kthen (zero_page pagetable) (kret pagetable))"

definition write_bytes :: "u64 \<Rightarrow> u8 list \<Rightarrow> mem \<Rightarrow> mem" where
  "write_bytes a bs m = (\<lambda>x. if unat (x - a) < length bs then bs ! unat (x - a) else m x)"

text \<open>\<^verbatim>\<open>src\<close> is the array \<^verbatim>\<open>initcode\<close> of \<^verbatim>\<open>proc.c\<close>; its length is \<^verbatim>\<open>sz\<close>.\<close>

definition uvminit :: "u64 \<Rightarrow> u8 list \<Rightarrow> ('a kmem_scheme, unit) op" where
  "uvminit pagetable src =
     (if length src \<ge> 4096 then kpanic ''inituvm: more than a page'' else
      kbind kalloc (\<lambda>pg.
      kthen (zero_page pg) (
      kbind (mappages pagetable 0 PGSIZE pg (PTE_W OR PTE_R OR PTE_X OR PTE_U)) (\<lambda>_.
      kmod (\<lambda>s. s\<lparr>mem := write_bytes pg src (mem s)\<rparr>)))))"

text \<open>\<^verbatim>\<open>int npages\<close> keeps the low 32 bits of the quotient; the call extends its sign.\<close>

definition uvmdealloc :: "u64 \<Rightarrow> u64 \<Rightarrow> u64 \<Rightarrow> ('a kmem_scheme, u64) op" where
  "uvmdealloc pagetable oldsz newsz =
     (if newsz \<ge> oldsz then kret oldsz else
      kthen (kwhen (PGROUNDUP newsz < PGROUNDUP oldsz)
        (uvmunmap pagetable (PGROUNDUP newsz)
           (scast (ucast ((PGROUNDUP oldsz - PGROUNDUP newsz) div PGSIZE) :: u32)) True))
      (kret newsz))"

primrec uvmalloc_loop :: "nat \<Rightarrow> u64 \<Rightarrow> u64 \<Rightarrow> u64 \<Rightarrow> u64 \<Rightarrow> ('a kmem_scheme, u64) op" where
  "uvmalloc_loop 0 pagetable a oldsz newsz = (\<lambda>s. Hang)"
| "uvmalloc_loop (Suc k) pagetable a oldsz newsz =
     (if \<not> a < newsz then kret newsz else
      kbind kalloc (\<lambda>pg.
      if pg = 0 then kthen (uvmdealloc pagetable a oldsz) (kret 0) else
      kthen (zero_page pg) (
      kbind (mappages pagetable a PGSIZE pg (PTE_W OR PTE_X OR PTE_R OR PTE_U)) (\<lambda>r.
      if r \<noteq> 0 then
        kthen (kfree pg) (
        kthen (uvmdealloc pagetable a oldsz) (kret 0))
      else uvmalloc_loop k pagetable (a + PGSIZE) oldsz newsz))))"

definition uvmalloc :: "u64 \<Rightarrow> u64 \<Rightarrow> u64 \<Rightarrow> ('a kmem_scheme, u64) op" where
  "uvmalloc pagetable oldsz newsz =
     (if newsz < oldsz then kret oldsz else
      uvmalloc_loop (unat newsz div 4096 + 2) pagetable (PGROUNDUP oldsz) (PGROUNDUP oldsz) newsz)"

text \<open>
  \<^verbatim>\<open>freewalk\<close> calls itself once per level of the table; the first argument bounds the depth
  of the recursion.  A table of three levels needs 3.
\<close>

definition freewalk_entry :: "(u64 \<Rightarrow> ('a kmem_scheme, unit) op) \<Rightarrow> u64 \<Rightarrow> nat \<Rightarrow> ('a kmem_scheme, unit) op" where
  "freewalk_entry rec pagetable i =
     (let a = pagetable + 8 * of_nat i in
      kbind (read_pte a) (\<lambda>pte.
      if pte AND PTE_V \<noteq> 0 \<and> pte AND (PTE_R OR PTE_W OR PTE_X) = 0 then
        kthen (rec (PTE2PA pte)) (write_pte a 0)
      else if pte AND PTE_V \<noteq> 0 then kpanic ''freewalk: leaf''
      else kret ()))"

primrec freewalk_depth :: "nat \<Rightarrow> u64 \<Rightarrow> ('a kmem_scheme, unit) op" where
  "freewalk_depth 0 pagetable = (\<lambda>s. Hang)"
| "freewalk_depth (Suc d) pagetable =
     kthen (kfor [0..<512] (freewalk_entry (freewalk_depth d) pagetable)) (kfree pagetable)"

definition freewalk :: "u64 \<Rightarrow> ('a kmem_scheme, unit) op" where
  "freewalk pagetable = freewalk_depth 32 pagetable"

definition uvmfree :: "u64 \<Rightarrow> u64 \<Rightarrow> ('a kmem_scheme, unit) op" where
  "uvmfree pagetable sz =
     kthen (kwhen (sz > 0) (uvmunmap pagetable 0 (PGROUNDUP sz div PGSIZE) True))
     (freewalk pagetable)"

primrec uvmcopy_loop :: "nat \<Rightarrow> u64 \<Rightarrow> u64 \<Rightarrow> u64 \<Rightarrow> u64 \<Rightarrow> ('a kmem_scheme, int) op" where
  "uvmcopy_loop 0 old new i sz = (\<lambda>s. Hang)"
| "uvmcopy_loop (Suc k) old new i sz =
     (if \<not> i < sz then kret 0 else
      kbind (walk old i False) (\<lambda>pte.
      if pte = 0 then kpanic ''uvmcopy: pte should exist'' else
      kbind (read_pte pte) (\<lambda>v.
      if v AND PTE_V = 0 then kpanic ''uvmcopy: page not present'' else
      let err = kthen (uvmunmap new 0 (i div PGSIZE) True) (kret (- 1)) in
      kbind kalloc (\<lambda>pg.
      if pg = 0 then err else
      kthen (kmod (\<lambda>s. s\<lparr>mem := memmove pg (PTE2PA v) (ucast PGSIZE) (mem s)\<rparr>)) (
      kbind (mappages new i PGSIZE pg (PTE_FLAGS v)) (\<lambda>r.
      if r \<noteq> 0 then kthen (kfree pg) err
      else uvmcopy_loop k old new (i + PGSIZE) sz))))))"

definition uvmcopy :: "u64 \<Rightarrow> u64 \<Rightarrow> u64 \<Rightarrow> ('a kmem_scheme, int) op" where
  "uvmcopy old new sz = uvmcopy_loop (unat sz div 4096 + 2) old new 0 sz"

definition uvmclear :: "u64 \<Rightarrow> u64 \<Rightarrow> ('a kmem_scheme, unit) op" where
  "uvmclear pagetable va =
     kbind (walk pagetable va False) (\<lambda>pte.
     if pte = 0 then kpanic ''uvmclear'' else
     kbind (read_pte pte) (\<lambda>v. write_pte pte (v AND NOT PTE_U)))"

section \<open>Copying between user and kernel\<close>

text \<open>Bytes from \<open>va\<close> to the end of its page, at most \<open>len\<close>.\<close>

definition page_part :: "u64 \<Rightarrow> u64 \<Rightarrow> u64" where
  "page_part va len = (let n = PGSIZE - (va - PGROUNDDOWN va) in if n > len then len else n)"

primrec copyout_loop :: "nat \<Rightarrow> u64 \<Rightarrow> u64 \<Rightarrow> u8 list \<Rightarrow> ('a kmem_scheme, int) op" where
  "copyout_loop 0 pagetable dstva src = (\<lambda>s. Hang)"
| "copyout_loop (Suc k) pagetable dstva src =
     (if src = [] then kret 0 else
      let va0 = PGROUNDDOWN dstva in
      kbind (walkaddr pagetable va0) (\<lambda>pa0.
      if pa0 = 0 then kret (- 1) else
      let n = unat (page_part dstva (of_nat (length src))) in
      kthen (kmod (\<lambda>s. s\<lparr>mem := write_bytes (pa0 + (dstva - va0)) (take n src) (mem s)\<rparr>))
      (copyout_loop k pagetable (va0 + PGSIZE) (drop n src))))"

definition copyout :: "u64 \<Rightarrow> u64 \<Rightarrow> u8 list \<Rightarrow> ('a kmem_scheme, int) op" where
  "copyout pagetable dstva src = copyout_loop (length src + 1) pagetable dstva src"

primrec copyin_loop :: "nat \<Rightarrow> u64 \<Rightarrow> u64 \<Rightarrow> u64 \<Rightarrow> u8 list \<Rightarrow> ('a kmem_scheme, int \<times> u8 list) op" where
  "copyin_loop 0 pagetable srcva len dst = (\<lambda>s. Hang)"
| "copyin_loop (Suc k) pagetable srcva len dst =
     (if len = 0 then kret (0, dst) else
      let va0 = PGROUNDDOWN srcva in
      kbind (walkaddr pagetable va0) (\<lambda>pa0.
      if pa0 = 0 then kret (- 1, dst) else
      let n = page_part srcva len in
      kbind (kget (\<lambda>s. bytes_at (unat n) (pa0 + (srcva - va0)) (mem s))) (\<lambda>bs.
      copyin_loop k pagetable (va0 + PGSIZE) (len - n) (dst @ bs))))"

definition copyin :: "u64 \<Rightarrow> u64 \<Rightarrow> u64 \<Rightarrow> ('a kmem_scheme, int \<times> u8 list) op" where
  "copyin pagetable srcva len = copyin_loop (unat len + 1) pagetable srcva len []"

text \<open>The inner loop of \<^verbatim>\<open>copyinstr\<close>: the bytes up to and with a NUL, and whether there was one.\<close>

primrec copy_to_nul :: "nat \<Rightarrow> u64 \<Rightarrow> mem \<Rightarrow> u8 list \<times> bool" where
  "copy_to_nul 0 p m = ([], False)"
| "copy_to_nul (Suc n) p m =
     (if m p = 0 then ([0], True)
      else let (bs, got) = copy_to_nul n (p + 1) m in (m p # bs, got))"

primrec copyinstr_loop :: "nat \<Rightarrow> u64 \<Rightarrow> u64 \<Rightarrow> u64 \<Rightarrow> u8 list \<Rightarrow> ('a kmem_scheme, int \<times> u8 list) op" where
  "copyinstr_loop 0 pagetable srcva mx dst = (\<lambda>s. Hang)"
| "copyinstr_loop (Suc k) pagetable srcva mx dst =
     (if mx = 0 then kret (- 1, dst) else
      let va0 = PGROUNDDOWN srcva in
      kbind (walkaddr pagetable va0) (\<lambda>pa0.
      if pa0 = 0 then kret (- 1, dst) else
      let n = page_part srcva mx in
      kbind (kget (\<lambda>s. copy_to_nul (unat n) (pa0 + (srcva - va0)) (mem s))) (\<lambda>(bs, got_null).
      if got_null then kret (0, dst @ bs)
      else copyinstr_loop k pagetable (va0 + PGSIZE) (mx - n) (dst @ bs))))"

definition copyinstr :: "u64 \<Rightarrow> u64 \<Rightarrow> u64 \<Rightarrow> ('a kmem_scheme, int \<times> u8 list) op" where
  "copyinstr pagetable srcva mx = copyinstr_loop (unat mx + 1) pagetable srcva mx []"

end
