(* ===== verification/Fs.thy ===== *)
theory Fs
  imports Log Vm
begin

text \<open>
  \<^verbatim>\<open>kernel/fs.c\<close>: blocks, inodes, directories and path names, over the buffer cache and the
  log.  The state \<open>kfs\<close> adds the super block and the table of in-memory inodes; an inode pointer is
  an index of the table, and a pointer that may be null is an option.  On-disk structures are read
  from and written to the bytes of a block at the offsets the C compiler gives them.

  A kernel address handed to \<^verbatim>\<open>either_copyout\<close> or \<^verbatim>\<open>either_copyin\<close> is either a page of
  memory or an object of the calling function; the bytes of such an object are passed and returned
  as a list.
\<close>

section \<open>On-disk format\<close>

definition FSMAGIC :: u32 where "FSMAGIC = 0x10203040"
definition ROOTINO :: u32 where "ROOTINO = 1"
definition NDIRECT :: nat where [simp]: "NDIRECT = 12"
definition NINDIRECT :: nat where [simp]: "NINDIRECT = BSIZE div 4"
definition MAXFILE :: nat where [simp]: "MAXFILE = NDIRECT + NINDIRECT"
definition IPB :: nat where [simp]: "IPB = BSIZE div 64"
definition BPB :: nat where [simp]: "BPB = BSIZE * 8"
definition DIRSIZ :: nat where [simp]: "DIRSIZ = 14"

definition IBLOCK :: "u32 \<Rightarrow> superblock \<Rightarrow> u32" where
  "IBLOCK i s = i div of_nat IPB + sb_inodestart s"

definition BBLOCK :: "u32 \<Rightarrow> superblock \<Rightarrow> u32" where
  "BBLOCK b s = b div of_nat BPB + sb_bmapstart s"

definition T_DIR :: u16 where "T_DIR = 1"
definition T_FILE :: u16 where "T_FILE = 2"
definition T_DEVICE :: u16 where "T_DEVICE = 3"

record dinode =
  d_type :: u16
  d_major :: u16
  d_minor :: u16
  d_nlink :: u16
  d_size :: u32
  d_addrs :: "u32 list"

text \<open>\<^verbatim>\<open>(struct dinode*)bp->data + inum%IPB\<close>\<close>

definition dinode_off :: "u32 \<Rightarrow> nat" where
  "dinode_off inum = 64 * (unat inum mod IPB)"

definition get_dinode :: "u8 list \<Rightarrow> nat \<Rightarrow> dinode" where
  "get_dinode d k = \<lparr>d_type = get_le 2 d k, d_major = get_le 2 d (k + 2), d_minor = get_le 2 d (k + 4),
     d_nlink = get_le 2 d (k + 6), d_size = get_le 4 d (k + 8),
     d_addrs = map (\<lambda>i. get_le 4 d (k + 12 + 4 * i)) [0..<NDIRECT + 1]\<rparr>"

text \<open>The 64 bytes of an inode.\<close>

definition dinode_bytes :: "dinode \<Rightarrow> u8 list" where
  "dinode_bytes x = bytes_of_word 2 (d_type x) @ bytes_of_word 2 (d_major x) @ bytes_of_word 2 (d_minor x) @
     bytes_of_word 2 (d_nlink x) @ bytes_of_word 4 (d_size x) @ concat (map (bytes_of_word 4) (d_addrs x))"

definition put_dinode :: "u8 list \<Rightarrow> nat \<Rightarrow> dinode \<Rightarrow> u8 list" where
  "put_dinode d k x = put_bytes d k (dinode_bytes x)"

text \<open>\<^verbatim>\<open>struct dirent\<close>: two bytes of inode number and \<^verbatim>\<open>DIRSIZ\<close> bytes of name.\<close>

definition de_inum :: "u8 list \<Rightarrow> u16" where
  "de_inum de = get_le 2 de 0"

definition de_name :: "u8 list \<Rightarrow> u8 list" where
  "de_name de = take DIRSIZ (drop 2 de)"

definition mk_dirent :: "u16 \<Rightarrow> u8 list \<Rightarrow> u8 list" where
  "mk_dirent inum name = bytes_of_word 2 inum @ name"

section \<open>State\<close>

record inode =
  i_dev :: u32
  i_inum :: u32
  i_ref :: int
  i_valid :: bool
  i_type :: u16
  i_major :: u16
  i_minor :: u16
  i_nlink :: u16
  i_size :: u32
  i_addrs :: "u32 list"

record kfs = klog +
  sb :: superblock
  itable :: "inode list"

abbreviation inode_at :: "nat \<Rightarrow> 'a kfs_scheme \<Rightarrow> inode" where
  "inode_at ip s \<equiv> itable s ! ip"

definition set_inode :: "nat \<Rightarrow> (inode \<Rightarrow> inode) \<Rightarrow> ('a kfs_scheme, unit) op" where
  "set_inode ip f = kmod (\<lambda>s. s\<lparr>itable := (itable s)[ip := f (itable s ! ip)]\<rparr>)"

section \<open>Either user or kernel\<close>

datatype dst = UserDst u64 | MemDst u64 | ObjDst
datatype src = UserSrc u64 | ObjSrc "u8 list"

definition either_copyout :: "dst \<Rightarrow> u8 list \<Rightarrow> ('a kmem_scheme, int) op" where
  "either_copyout d bs =
     (case d of
        UserDst va \<Rightarrow> with_myproc (\<lambda>p. kbind (kget (\<lambda>s. p_pagetable (proc_at p s))) (\<lambda>pt. copyout pt va bs))
      | MemDst pa \<Rightarrow> kthen (kmod (\<lambda>s. s\<lparr>mem := write_bytes pa bs (mem s)\<rparr>)) (kret 0)
      | ObjDst \<Rightarrow> kret 0)"

definition either_copyin :: "src \<Rightarrow> u64 \<Rightarrow> ('a kmem_scheme, int \<times> u8 list) op" where
  "either_copyin sr len =
     (case sr of
        UserSrc va \<Rightarrow> with_myproc (\<lambda>p. kbind (kget (\<lambda>s. p_pagetable (proc_at p s))) (\<lambda>pt. copyin pt va len))
      | ObjSrc bs \<Rightarrow> kret (0, take (unat len) bs))"

definition dst_add :: "dst \<Rightarrow> nat \<Rightarrow> dst" where
  "dst_add d m = (case d of UserDst va \<Rightarrow> UserDst (va + of_nat m) | MemDst pa \<Rightarrow> MemDst (pa + of_nat m) | ObjDst \<Rightarrow> ObjDst)"

definition src_add :: "src \<Rightarrow> nat \<Rightarrow> src" where
  "src_add d m = (case d of UserSrc va \<Rightarrow> UserSrc (va + of_nat m) | ObjSrc bs \<Rightarrow> ObjSrc (drop m bs))"

section \<open>Super block and free map\<close>

definition get_superblock :: "u8 list \<Rightarrow> superblock" where
  "get_superblock d = \<lparr>sb_magic = get_le 4 d 0, sb_size = get_le 4 d 4, sb_nblocks = get_le 4 d 8,
     sb_ninodes = get_le 4 d 12, sb_nlog = get_le 4 d 16, sb_logstart = get_le 4 d 20,
     sb_inodestart = get_le 4 d 24, sb_bmapstart = get_le 4 d 28\<rparr>"

definition readsb :: "u32 \<Rightarrow> ('a kfs_scheme, unit) op" where
  "readsb dev =
     kbind (bread dev 1) (\<lambda>bp.
     kbind (bdata bp) (\<lambda>d.
     kthen (kmod (\<lambda>s. s\<lparr>sb := get_superblock d\<rparr>))
     (brelse bp)))"

definition fsinit :: "u32 \<Rightarrow> ('a kfs_scheme, unit) op" where
  "fsinit dev =
     kthen (readsb dev) (
     kbind (kget sb) (\<lambda>sbk.
     if sb_magic sbk \<noteq> FSMAGIC then kpanic ''invalid file system'' else
     initlog dev sbk))"

definition bzero :: "u32 \<Rightarrow> u32 \<Rightarrow> ('a kfs_scheme, unit) op" where
  "bzero dev bno =
     kbind (bread dev bno) (\<lambda>bp.
     kthen (set_bdata bp (replicate BSIZE 0)) (
     kthen (log_write bp)
     (brelse bp)))"

text \<open>Bit \<open>bi\<close> of a block of the free map.\<close>

definition map_bit :: "u8 list \<Rightarrow> nat \<Rightarrow> bool" where
  "map_bit d bi = bit (d ! (bi div 8)) (bi mod 8)"

definition set_map_bit :: "u8 list \<Rightarrow> nat \<Rightarrow> u8 list" where
  "set_map_bit d bi = d[bi div 8 := d ! (bi div 8) OR push_bit (bi mod 8) 1]"

definition clear_map_bit :: "u8 list \<Rightarrow> nat \<Rightarrow> u8 list" where
  "clear_map_bit d bi = d[bi div 8 := d ! (bi div 8) AND NOT (push_bit (bi mod 8) 1)]"

text \<open>The inner loop of \<^verbatim>\<open>balloc\<close> for the map block that starts at block \<open>b\<close>.\<close>

definition balloc_scan :: "u8 list \<Rightarrow> nat \<Rightarrow> nat \<Rightarrow> nat option" where
  "balloc_scan d b sz = find (\<lambda>bi. \<not> map_bit d bi) [0..<min BPB (sz - b)]"

primrec balloc_loop :: "u32 \<Rightarrow> nat list \<Rightarrow> ('a kfs_scheme, u32) op" where
  "balloc_loop dev [] = kpanic ''balloc: out of blocks''"
| "balloc_loop dev (b # bs) =
     kbind (kget sb) (\<lambda>sbk.
     kbind (bread dev (BBLOCK (of_nat b) sbk)) (\<lambda>bp.
     kbind (bdata bp) (\<lambda>d.
     case balloc_scan d b (unat (sb_size sbk)) of
       Some bi \<Rightarrow>
         kthen (set_bdata bp (set_map_bit d bi)) (
         kthen (log_write bp) (
         kthen (brelse bp) (
         kthen (bzero dev (of_nat (b + bi)))
         (kret (of_nat (b + bi))))))
     | None \<Rightarrow>
         kthen (brelse bp)
         (balloc_loop dev bs))))"

text \<open>The values of \<^verbatim>\<open>b\<close> in \<^verbatim>\<open>for(b = 0; b < sb.size; b += BPB)\<close>.\<close>

definition bitmap_starts :: "nat \<Rightarrow> nat list" where
  "bitmap_starts sz = map (\<lambda>i. BPB * i) [0..<(sz + BPB - 1) div BPB]"

definition balloc :: "u32 \<Rightarrow> ('a kfs_scheme, u32) op" where
  "balloc dev = kbind (kget (\<lambda>s. unat (sb_size (sb s)))) (\<lambda>size. balloc_loop dev (bitmap_starts size))"

definition bfree :: "u32 \<Rightarrow> u32 \<Rightarrow> ('a kfs_scheme, unit) op" where
  "bfree dev b =
     kbind (kget sb) (\<lambda>sbk.
     kbind (bread dev (BBLOCK b sbk)) (\<lambda>bp.
     kbind (bdata bp) (\<lambda>d.
     let bi = unat b mod BPB in
     if \<not> map_bit d bi then kpanic ''freeing free block'' else
     kthen (set_bdata bp (clear_map_bit d bi)) (
     kthen (log_write bp)
     (brelse bp)))))"

section \<open>Inodes\<close>

definition iinit :: "('a kfs_scheme, unit) op" where
  "iinit = kfor [0..<NINODE] (\<lambda>i. initsleeplock (SInode i))"

text \<open>The search of \<^verbatim>\<open>iget\<close>: the entry of the inode, or else the first empty one.\<close>

definition iget_find :: "u32 \<Rightarrow> u32 \<Rightarrow> inode list \<Rightarrow> nat option" where
  "iget_find dev inum tbl = find (\<lambda>i. i_ref (tbl ! i) > 0 \<and> i_dev (tbl ! i) = dev \<and> i_inum (tbl ! i) = inum) [0..<NINODE]"

definition iget_empty :: "inode list \<Rightarrow> nat option" where
  "iget_empty tbl = find (\<lambda>i. i_ref (tbl ! i) = 0) [0..<NINODE]"

definition iget :: "u32 \<Rightarrow> u32 \<Rightarrow> ('a kfs_scheme, nat) op" where
  "iget dev inum =
     kthen (acquire LItable) (
     kbind (kget itable) (\<lambda>tbl.
     case iget_find dev inum tbl of
       Some ip \<Rightarrow>
         kthen (set_inode ip (\<lambda>i. i\<lparr>i_ref := i_ref i + 1\<rparr>)) (
         kthen (release LItable)
         (kret ip))
     | None \<Rightarrow>
         (case iget_empty tbl of
            None \<Rightarrow> kpanic ''iget: no inodes''
          | Some ip \<Rightarrow>
              kthen (set_inode ip (\<lambda>i. i\<lparr>i_dev := dev, i_inum := inum, i_ref := 1, i_valid := False\<rparr>)) (
              kthen (release LItable)
              (kret ip)))))"

definition idup :: "nat \<Rightarrow> ('a kfs_scheme, nat) op" where
  "idup ip =
     kthen (acquire LItable) (
     kthen (set_inode ip (\<lambda>i. i\<lparr>i_ref := i_ref i + 1\<rparr>)) (
     kthen (release LItable)
     (kret ip)))"

definition zero_dinode :: "u16 \<Rightarrow> dinode" where
  "zero_dinode ty = \<lparr>d_type = ty, d_major = 0, d_minor = 0, d_nlink = 0, d_size = 0, d_addrs = replicate (NDIRECT + 1) 0\<rparr>"

primrec ialloc_loop :: "u32 \<Rightarrow> u16 \<Rightarrow> nat list \<Rightarrow> ('a kfs_scheme, nat) op" where
  "ialloc_loop dev ty [] = kpanic ''ialloc: no inodes''"
| "ialloc_loop dev ty (n # ns) =
     (let inum = of_nat n in
      kbind (kget sb) (\<lambda>sbk.
      kbind (bread dev (IBLOCK inum sbk)) (\<lambda>bp.
      kbind (bdata bp) (\<lambda>d.
      if d_type (get_dinode d (dinode_off inum)) = 0 then
        kthen (set_bdata bp (put_dinode d (dinode_off inum) (zero_dinode ty))) (
        kthen (log_write bp) (
        kthen (brelse bp)
        (iget dev inum)))
      else
        kthen (brelse bp)
        (ialloc_loop dev ty ns)))))"

definition ialloc :: "u32 \<Rightarrow> u16 \<Rightarrow> ('a kfs_scheme, nat) op" where
  "ialloc dev ty = kbind (kget (\<lambda>s. unat (sb_ninodes (sb s)))) (\<lambda>n. ialloc_loop dev ty [1..<n])"

definition dinode_of :: "inode \<Rightarrow> dinode" where
  "dinode_of i = \<lparr>d_type = i_type i, d_major = i_major i, d_minor = i_minor i, d_nlink = i_nlink i,
     d_size = i_size i, d_addrs = i_addrs i\<rparr>"

definition iupdate :: "nat \<Rightarrow> ('a kfs_scheme, unit) op" where
  "iupdate ip =
     kbind (kget sb) (\<lambda>sbk.
     kbind (kget (inode_at ip)) (\<lambda>i.
     kbind (bread (i_dev i) (IBLOCK (i_inum i) sbk)) (\<lambda>bp.
     kbind (bdata bp) (\<lambda>d.
     kthen (set_bdata bp (put_dinode d (dinode_off (i_inum i)) (dinode_of i))) (
     kthen (log_write bp)
     (brelse bp))))))"

definition load_dinode :: "dinode \<Rightarrow> inode \<Rightarrow> inode" where
  "load_dinode x i = i\<lparr>i_type := d_type x, i_major := d_major x, i_minor := d_minor x, i_nlink := d_nlink x,
     i_size := d_size x, i_addrs := d_addrs x\<rparr>"

definition ilock :: "nat option \<Rightarrow> ('a kfs_scheme, unit) op" where
  "ilock ipo =
     (case ipo of None \<Rightarrow> kpanic ''ilock'' | Some ip \<Rightarrow>
      kbind (kget (\<lambda>s. i_ref (inode_at ip s))) (\<lambda>r.
      if r < 1 then kpanic ''ilock'' else
      kthen (acquiresleep (SInode ip)) (
      kbind (kget (inode_at ip)) (\<lambda>i.
      kwhen (\<not> i_valid i) (
        kbind (kget sb) (\<lambda>sbk.
        kbind (bread (i_dev i) (IBLOCK (i_inum i) sbk)) (\<lambda>bp.
        kbind (bdata bp) (\<lambda>d.
        kthen (set_inode ip (load_dinode (get_dinode d (dinode_off (i_inum i))))) (
        kthen (brelse bp) (
        kthen (set_inode ip (\<lambda>i. i\<lparr>i_valid := True\<rparr>)) (
        kbind (kget (\<lambda>s. i_type (inode_at ip s))) (\<lambda>ty.
        if ty = 0 then kpanic ''ilock: no type'' else kret ()))))))))))))"

definition iunlock :: "nat option \<Rightarrow> ('a kfs_scheme, unit) op" where
  "iunlock ipo =
     (case ipo of None \<Rightarrow> kpanic ''iunlock'' | Some ip \<Rightarrow>
      kbind (holdingsleep (SInode ip)) (\<lambda>h.
      kbind (kget (\<lambda>s. i_ref (inode_at ip s))) (\<lambda>r.
      if \<not> h \<or> r < 1 then kpanic ''iunlock'' else
      releasesleep (SInode ip))))"

text \<open>The two loops of \<^verbatim>\<open>itrunc\<close>.\<close>

definition itrunc_direct :: "nat \<Rightarrow> nat \<Rightarrow> ('a kfs_scheme, unit) op" where
  "itrunc_direct ip i =
     kbind (kget (inode_at ip)) (\<lambda>n.
     kwhen (i_addrs n ! i \<noteq> 0) (
       kthen (bfree (i_dev n) (i_addrs n ! i))
       (set_inode ip (\<lambda>n. n\<lparr>i_addrs := (i_addrs n)[i := 0]\<rparr>))))"

definition itrunc_indirect :: "u32 \<Rightarrow> nat \<Rightarrow> nat \<Rightarrow> ('a kfs_scheme, unit) op" where
  "itrunc_indirect dev bp j =
     kbind (bdata bp) (\<lambda>d.
     kwhen ((get_le 4 d (4 * j) :: u32) \<noteq> 0) (bfree dev (get_le 4 d (4 * j))))"

definition itrunc :: "nat \<Rightarrow> ('a kfs_scheme, unit) op" where
  "itrunc ip =
     kthen (kfor [0..<NDIRECT] (itrunc_direct ip)) (
     kbind (kget (inode_at ip)) (\<lambda>n.
     kthen (kwhen (i_addrs n ! NDIRECT \<noteq> 0) (
       kbind (bread (i_dev n) (i_addrs n ! NDIRECT)) (\<lambda>bp.
       kthen (kfor [0..<NINDIRECT] (itrunc_indirect (i_dev n) bp)) (
       kthen (brelse bp) (
       kthen (bfree (i_dev n) (i_addrs n ! NDIRECT))
       (set_inode ip (\<lambda>n. n\<lparr>i_addrs := (i_addrs n)[NDIRECT := 0]\<rparr>))))))) (
     kthen (set_inode ip (\<lambda>n. n\<lparr>i_size := 0\<rparr>))
     (iupdate ip))))"

definition iput :: "nat \<Rightarrow> ('a kfs_scheme, unit) op" where
  "iput ip =
     kthen (acquire LItable) (
     kbind (kget (inode_at ip)) (\<lambda>i.
     kthen (kwhen (i_ref i = 1 \<and> i_valid i \<and> i_nlink i = 0) (
       kthen (acquiresleep (SInode ip)) (
       kthen (release LItable) (
       kthen (itrunc ip) (
       kthen (set_inode ip (\<lambda>i. i\<lparr>i_type := 0\<rparr>)) (
       kthen (iupdate ip) (
       kthen (set_inode ip (\<lambda>i. i\<lparr>i_valid := False\<rparr>)) (
       kthen (releasesleep (SInode ip))
       (acquire LItable))))))))) (
     kthen (set_inode ip (\<lambda>i. i\<lparr>i_ref := i_ref i - 1\<rparr>))
     (release LItable))))"

definition iunlockput :: "nat option \<Rightarrow> ('a kfs_scheme, unit) op" where
  "iunlockput ipo =
     kthen (iunlock ipo)
     (case ipo of None \<Rightarrow> kpanic ''kerneltrap'' | Some ip \<Rightarrow> iput ip)"

section \<open>Contents of an inode\<close>

definition bmap :: "nat \<Rightarrow> u32 \<Rightarrow> ('a kfs_scheme, u32) op" where
  "bmap ip bn =
     kbind (kget (inode_at ip)) (\<lambda>i.
     if unat bn < NDIRECT then
       (if i_addrs i ! unat bn \<noteq> 0 then kret (i_addrs i ! unat bn) else
        kbind (balloc (i_dev i)) (\<lambda>addr.
        kthen (set_inode ip (\<lambda>i. i\<lparr>i_addrs := (i_addrs i)[unat bn := addr]\<rparr>))
        (kret addr)))
     else
       let k = unat bn - NDIRECT in
       if k < NINDIRECT then
         kbind (if i_addrs i ! NDIRECT \<noteq> 0 then kret (i_addrs i ! NDIRECT) else
                kbind (balloc (i_dev i)) (\<lambda>addr.
                kthen (set_inode ip (\<lambda>i. i\<lparr>i_addrs := (i_addrs i)[NDIRECT := addr]\<rparr>))
                (kret addr))) (\<lambda>ind.
         kbind (bread (i_dev i) ind) (\<lambda>bp.
         kbind (bdata bp) (\<lambda>d.
         kbind (if (get_le 4 d (4 * k) :: u32) \<noteq> 0 then kret (get_le 4 d (4 * k)) else
                kbind (balloc (i_dev i)) (\<lambda>addr.
                kbind (bdata bp) (\<lambda>d.
                kthen (set_bdata bp (put_le 4 d (4 * k) addr)) (
                kthen (log_write bp)
                (kret addr))))) (\<lambda>addr.
         kthen (brelse bp)
         (kret addr)))))
       else kpanic ''bmap: out of range'')"

record stat =
  st_dev :: int
  st_ino :: u32
  st_type :: u16
  st_nlink :: u16
  st_size :: u64

definition stati :: "nat \<Rightarrow> ('a kfs_scheme, stat) op" where
  "stati ip = kget (\<lambda>s. let i = inode_at ip s in
     \<lparr>st_dev = sint (i_dev i), st_ino = i_inum i, st_type = i_type i, st_nlink = i_nlink i, st_size = ucast (i_size i)\<rparr>)"

text \<open>\<^verbatim>\<open>min(n - tot, BSIZE - off%BSIZE)\<close>\<close>

definition chunk :: "u32 \<Rightarrow> u32 \<Rightarrow> u32 \<Rightarrow> u32" where
  "chunk n tot off = (if n - tot < of_nat BSIZE - off mod of_nat BSIZE then n - tot else of_nat BSIZE - off mod of_nat BSIZE)"

text \<open>
  The loop of \<^verbatim>\<open>readi\<close>; the first argument bounds its turns.  The result is the return value and
  the bytes stored, which matter to a caller that passed one of its own objects.
\<close>

primrec readi_loop :: "nat \<Rightarrow> nat \<Rightarrow> dst \<Rightarrow> u32 \<Rightarrow> u32 \<Rightarrow> u32 \<Rightarrow> u8 list \<Rightarrow> ('a kfs_scheme, int \<times> u8 list) op" where
  "readi_loop 0 ip d off n tot acc = (\<lambda>s. Hang)"
| "readi_loop (Suc k) ip d off n tot acc =
     (if \<not> tot < n then kret (sint tot, acc) else
      kbind (kget (\<lambda>s. i_dev (inode_at ip s))) (\<lambda>dev.
      kbind (bmap ip (off div of_nat BSIZE)) (\<lambda>addr.
      kbind (bread dev addr) (\<lambda>bp.
      kbind (bdata bp) (\<lambda>data.
      let m = chunk n tot off; bs = take (unat m) (drop (unat off mod BSIZE) data) in
      kbind (either_copyout d bs) (\<lambda>r.
      if r = - 1 then kthen (brelse bp) (kret (- 1, acc))
      else kthen (brelse bp)
           (readi_loop k ip (dst_add d (unat m)) (off + m) n (tot + m) (acc @ bs))))))))"

definition readi :: "nat \<Rightarrow> dst \<Rightarrow> u32 \<Rightarrow> u32 \<Rightarrow> ('a kfs_scheme, int \<times> u8 list) op" where
  "readi ip d off n =
     kbind (kget (\<lambda>s. i_size (inode_at ip s))) (\<lambda>size.
     if off > size \<or> off + n < off then kret (0, []) else
     let n' = (if off + n > size then size - off else n) in
     readi_loop (unat n' + 1) ip d off n' 0 [])"

text \<open>The loop of \<^verbatim>\<open>writei\<close>; it leaves the final values of \<^verbatim>\<open>tot\<close> and \<^verbatim>\<open>off\<close>.\<close>

primrec writei_loop :: "nat \<Rightarrow> nat \<Rightarrow> src \<Rightarrow> u32 \<Rightarrow> u32 \<Rightarrow> u32 \<Rightarrow> ('a kfs_scheme, u32 \<times> u32) op" where
  "writei_loop 0 ip sr off n tot = (\<lambda>s. Hang)"
| "writei_loop (Suc k) ip sr off n tot =
     (if \<not> tot < n then kret (tot, off) else
      kbind (kget (\<lambda>s. i_dev (inode_at ip s))) (\<lambda>dev.
      kbind (bmap ip (off div of_nat BSIZE)) (\<lambda>addr.
      kbind (bread dev addr) (\<lambda>bp.
      let m = chunk n tot off in
      kbind (either_copyin sr (ucast m)) (\<lambda>(r, bs).
      kbind (bdata bp) (\<lambda>data.
      kthen (set_bdata bp (put_bytes data (unat off mod BSIZE) bs)) (
      if r = - 1 then kthen (brelse bp) (kret (tot, off))
      else kthen (log_write bp) (
           kthen (brelse bp)
           (writei_loop k ip (src_add sr (unat m)) (off + m) n (tot + m))))))))))"

definition writei :: "nat \<Rightarrow> src \<Rightarrow> u32 \<Rightarrow> u32 \<Rightarrow> ('a kfs_scheme, int) op" where
  "writei ip sr off n =
     kbind (kget (\<lambda>s. i_size (inode_at ip s))) (\<lambda>size.
     if off > size \<or> off + n < off then kret (- 1) else
     if unat (off + n) > MAXFILE * BSIZE then kret (- 1) else
     kbind (writei_loop (unat n + 1) ip sr off n 0) (\<lambda>(tot, off').
     kthen (set_inode ip (\<lambda>i. if off' > i_size i then i\<lparr>i_size := off'\<rparr> else i)) (
     kthen (iupdate ip)
     (kret (sint tot)))))"

section \<open>Directories\<close>

definition namecmp :: "u8 list \<Rightarrow> u8 list \<Rightarrow> int" where
  "namecmp s t = strncmp_l DIRSIZ s t"

text \<open>The loop of \<^verbatim>\<open>dirlookup\<close>: the inode found and the offset of its entry.\<close>

primrec dirlookup_loop :: "nat \<Rightarrow> nat \<Rightarrow> u8 list \<Rightarrow> u32 \<Rightarrow> ('a kfs_scheme, (nat \<times> u32) option) op" where
  "dirlookup_loop 0 dp name off = (\<lambda>s. Hang)"
| "dirlookup_loop (Suc k) dp name off =
     kbind (kget (\<lambda>s. i_size (inode_at dp s))) (\<lambda>size.
     if \<not> off < size then kret None else
     kbind (readi dp ObjDst off 16) (\<lambda>(r, de).
     if r \<noteq> 16 then kpanic ''dirlookup read'' else
     if de_inum de = 0 then dirlookup_loop k dp name (off + 16) else
     if namecmp name (de_name de) = 0 then
       kbind (kget (\<lambda>s. i_dev (inode_at dp s))) (\<lambda>dev.
       kbind (iget dev (ucast (de_inum de))) (\<lambda>ip.
       kret (Some (ip, off))))
     else dirlookup_loop k dp name (off + 16)))"

definition dirlookup :: "nat \<Rightarrow> u8 list \<Rightarrow> ('a kfs_scheme, (nat \<times> u32) option) op" where
  "dirlookup dp name =
     kbind (kget (inode_at dp)) (\<lambda>i.
     if i_type i \<noteq> T_DIR then kpanic ''dirlookup not DIR'' else
     dirlookup_loop (unat (i_size i) div 16 + 2) dp name 0)"

primrec dirlink_slot :: "nat \<Rightarrow> nat \<Rightarrow> u32 \<Rightarrow> ('a kfs_scheme, u32) op" where
  "dirlink_slot 0 dp off = (\<lambda>s. Hang)"
| "dirlink_slot (Suc k) dp off =
     kbind (kget (\<lambda>s. i_size (inode_at dp s))) (\<lambda>size.
     if \<not> off < size then kret off else
     kbind (readi dp ObjDst off 16) (\<lambda>(r, de).
     if r \<noteq> 16 then kpanic ''dirlink read'' else
     if de_inum de = 0 then kret off else dirlink_slot k dp (off + 16)))"

definition dirlink :: "nat \<Rightarrow> u8 list \<Rightarrow> u32 \<Rightarrow> ('a kfs_scheme, int) op" where
  "dirlink dp name inum =
     kbind (dirlookup dp name) (\<lambda>r.
     case r of
       Some (ip, _) \<Rightarrow> kthen (iput ip) (kret (- 1))
     | None \<Rightarrow>
         kbind (kget (\<lambda>s. i_size (inode_at dp s))) (\<lambda>size.
         kbind (dirlink_slot (unat size div 16 + 2) dp 0) (\<lambda>off.
         kbind (writei dp (ObjSrc (mk_dirent (ucast inum) (strncpy_l DIRSIZ name))) off 16) (\<lambda>w.
         if w \<noteq> 16 then kpanic ''dirlink'' else kret 0))))"

section \<open>Paths\<close>

text \<open>A path is the string without its NUL; \<open>name\<close> is the array of \<^verbatim>\<open>DIRSIZ\<close> bytes.\<close>

definition slash :: u8 where "slash = 47"

definition skipelem :: "u8 list \<Rightarrow> u8 list \<Rightarrow> (u8 list \<times> u8 list) option" where
  "skipelem path name =
     (let p = dropWhile (\<lambda>c. c = slash) path in
      if p = [] then None else
      let s = takeWhile (\<lambda>c. c \<noteq> slash) p;
          rest = dropWhile (\<lambda>c. c \<noteq> slash) p;
          name' = (if length s \<ge> DIRSIZ then put_bytes name 0 (take DIRSIZ s) else put_bytes name 0 (s @ [0]))
      in Some (dropWhile (\<lambda>c. c = slash) rest, name'))"

text \<open>The loop of \<^verbatim>\<open>namex\<close>: every turn takes one element off the path.\<close>

primrec namex_loop :: "nat \<Rightarrow> nat \<Rightarrow> u8 list \<Rightarrow> bool \<Rightarrow> u8 list \<Rightarrow> ('a kfs_scheme, nat option \<times> u8 list) op" where
  "namex_loop 0 ip path par name = (\<lambda>s. Hang)"
| "namex_loop (Suc k) ip path par name =
     (case skipelem path name of
        None \<Rightarrow> if par then kthen (iput ip) (kret (None, name)) else kret (Some ip, name)
      | Some (path', name') \<Rightarrow>
          kthen (ilock (Some ip)) (
          kbind (kget (\<lambda>s. i_type (inode_at ip s))) (\<lambda>ty.
          if ty \<noteq> T_DIR then kthen (iunlockput (Some ip)) (kret (None, name')) else
          if par \<and> path' = [] then kthen (iunlock (Some ip)) (kret (Some ip, name')) else
          kbind (dirlookup ip name') (\<lambda>r.
          case r of
            None \<Rightarrow> kthen (iunlockput (Some ip)) (kret (None, name'))
          | Some (nxt, _) \<Rightarrow>
              kthen (iunlockput (Some ip))
              (namex_loop k nxt path' par name')))))"

definition namex :: "u8 list \<Rightarrow> bool \<Rightarrow> u8 list \<Rightarrow> ('a kfs_scheme, nat option \<times> u8 list) op" where
  "namex path par name =
     kbind (if hd0 path = slash then iget ROOTDEV ROOTINO
            else with_myproc (\<lambda>p.
              kbind (kget (\<lambda>s. p_cwd (proc_at p s))) (\<lambda>cwd.
              case cwd of None \<Rightarrow> kpanic ''kerneltrap'' | Some ip \<Rightarrow> idup ip))) (\<lambda>ip.
     namex_loop (length path + 1) ip path par name)"

definition namei :: "u8 list \<Rightarrow> ('a kfs_scheme, nat option) op" where
  "namei path = kbind (namex path False (replicate DIRSIZ 0)) (\<lambda>(ip, _). kret ip)"

definition nameiparent :: "u8 list \<Rightarrow> u8 list \<Rightarrow> ('a kfs_scheme, nat option \<times> u8 list) op" where
  "nameiparent path name = namex path True name"

end
