(* ===== verification/Console.thy ===== *)
theory Console
  imports Fs
begin

text \<open>
  The serial line and the console: \<^verbatim>\<open>kernel/uart.c\<close>, \<^verbatim>\<open>kernel/console.c\<close>,
  \<^verbatim>\<open>kernel/printf.c\<close> and \<^verbatim>\<open>procdump\<close> of \<^verbatim>\<open>kernel/proc.c\<close>.

  The UART is hardware.  What the driver sees of it is the value of every register read:
  \<open>uart_rd\<close> is the sequence of those values, in the order of the reads, and \<open>uart_wr\<close> records the
  register writes.  Nothing is assumed of either.  A device that has nothing more to say answers 0,
  \<open>no input\<close> and \<open>not idle\<close>, so that polling it for idleness never ends.
\<close>

section \<open>State\<close>

datatype devfn = DevConsole

record devsw_ent =
  dev_read :: "devfn option"
  dev_write :: "devfn option"

record kcons = kfs +
  uart_rd :: "u8 list"
  uart_wr :: "(nat \<times> u8) list"
  uart_tx_buf :: "u8 list"
  uart_tx_w :: u64
  uart_tx_r :: u64
  panicked :: bool
  pr_locking :: bool
  cons_buf :: "u8 list"
  cons_r :: u32
  cons_w :: u32
  cons_e :: u32
  devsw :: "devsw_ent list"

section \<open>The UART\<close>

definition RHR :: nat where "RHR = 0"
definition THR :: nat where "THR = 0"
definition IER :: nat where "IER = 1"
definition FCR :: nat where "FCR = 2"
definition LCR :: nat where "LCR = 3"
definition LSR :: nat where "LSR = 5"
definition LSR_RX_READY :: u8 where "LSR_RX_READY = 1"
definition LSR_TX_IDLE :: u8 where "LSR_TX_IDLE = push_bit 5 1"
definition UART_TX_BUF_SIZE :: nat where [simp]: "UART_TX_BUF_SIZE = 32"

definition ReadReg :: "nat \<Rightarrow> ('a kcons_scheme, u8) op" where
  "ReadReg reg = (\<lambda>s. case uart_rd s of [] \<Rightarrow> Ok 0 s | v # vs \<Rightarrow> Ok v (s\<lparr>uart_rd := vs\<rparr>))"

definition WriteReg :: "nat \<Rightarrow> u8 \<Rightarrow> ('a kcons_scheme, unit) op" where
  "WriteReg reg v = kmod (\<lambda>s. s\<lparr>uart_wr := uart_wr s @ [(reg, v)]\<rparr>)"

definition uartinit :: "('a kcons_scheme, unit) op" where
  "uartinit =
     kthen (WriteReg IER 0) (
     kthen (WriteReg LCR (push_bit 7 1)) (
     kthen (WriteReg 0 3) (
     kthen (WriteReg 1 0) (
     kthen (WriteReg LCR (push_bit 0 3)) (
     kthen (WriteReg FCR (push_bit 0 1 OR push_bit 1 3))
     (WriteReg IER (push_bit 1 1 OR push_bit 0 1)))))))"

text \<open>The loop of \<^verbatim>\<open>uartstart\<close>; the first argument bounds its turns by the bytes in the buffer.\<close>

primrec uartstart_loop :: "nat \<Rightarrow> ('a kcons_scheme, unit) op" where
  "uartstart_loop 0 = (\<lambda>s. Hang)"
| "uartstart_loop (Suc k) =
     kbind (kget uart_tx_w) (\<lambda>w.
     kbind (kget uart_tx_r) (\<lambda>r.
     if w = r then kret () else
     kbind (ReadReg LSR) (\<lambda>v.
     if v AND LSR_TX_IDLE = 0 then kret () else
     kbind (kget (\<lambda>s. uart_tx_buf s ! (unat r mod UART_TX_BUF_SIZE))) (\<lambda>c.
     kthen (kmod (\<lambda>s. s\<lparr>uart_tx_r := uart_tx_r s + 1\<rparr>)) (
     kthen (wakeup ChUart) (
     kthen (WriteReg THR c)
     (uartstart_loop k)))))))"

definition uartstart :: "('a kcons_scheme, unit) op" where
  "uartstart = kbind (kget (\<lambda>s. unat (uart_tx_w s - uart_tx_r s))) (\<lambda>n. uartstart_loop (n + 1))"

text \<open>The turn of the loop of \<^verbatim>\<open>uartputc\<close>, entered again after a sleep.\<close>

definition uartputc_turn :: "u8 \<Rightarrow> ('a kcons_scheme, unit) op" where
  "uartputc_turn c =
     kbind (kget (\<lambda>s. uart_tx_w s = uart_tx_r s + of_nat UART_TX_BUF_SIZE)) (\<lambda>full.
     if full then sleep ChUart LUart else
     kthen (kmod (\<lambda>s. s\<lparr>uart_tx_buf := (uart_tx_buf s)[unat (uart_tx_w s) mod UART_TX_BUF_SIZE := c],
                        uart_tx_w := uart_tx_w s + 1\<rparr>)) (
     kthen uartstart
     (release LUart)))"

definition uartputc :: "u8 \<Rightarrow> ('a kcons_scheme, unit) op" where
  "uartputc c =
     kthen (acquire LUart) (
     kbind (kget panicked) (\<lambda>pk.
     if pk then (\<lambda>s. Hang) else uartputc_turn c))"

text \<open>\<^verbatim>\<open>while((ReadReg(LSR) & LSR_TX_IDLE) == 0);\<close>\<close>

primrec poll_idle :: "u8 list \<Rightarrow> u8 list option" where
  "poll_idle [] = None"
| "poll_idle (v # vs) = (if v AND LSR_TX_IDLE = 0 then poll_idle vs else Some vs)"

text \<open>
  \<^verbatim>\<open>push_off\<close> and \<^verbatim>\<open>pop_off\<close> bracket code that neither takes a lock nor sleeps, which
  leaves the nesting depth as it was.
\<close>

definition uartputc_sync :: "int \<Rightarrow> ('a kcons_scheme, unit) op" where
  "uartputc_sync c =
     kbind (kget panicked) (\<lambda>pk.
     if pk then (\<lambda>s. Hang) else
     kthen (\<lambda>s. case poll_idle (uart_rd s) of None \<Rightarrow> Hang | Some vs \<Rightarrow> Ok () (s\<lparr>uart_rd := vs\<rparr>))
     (WriteReg THR (of_int c)))"

definition uartgetc :: "('a kcons_scheme, int) op" where
  "uartgetc =
     kbind (ReadReg LSR) (\<lambda>v.
     if v AND LSR_RX_READY \<noteq> 0 then kbind (ReadReg RHR) (\<lambda>c. kret (uint c)) else kret (- 1))"

section \<open>Console output and printf\<close>

definition BACKSPACE :: int where "BACKSPACE = 0x100"

definition consputc :: "int \<Rightarrow> ('a kcons_scheme, unit) op" where
  "consputc c =
     (if c = BACKSPACE then
        kthen (uartputc_sync 8) (kthen (uartputc_sync 32) (uartputc_sync 8))
      else uartputc_sync c)"

primrec consputs :: "u8 list \<Rightarrow> ('a kcons_scheme, unit) op" where
  "consputs [] = kret ()"
| "consputs (c # cs) = kthen (consputc (uint c)) (consputs cs)"

definition str_bytes :: "string \<Rightarrow> u8 list" where
  "str_bytes s = map of_char s"

definition digits :: "u8 list" where
  "digits = str_bytes ''0123456789abcdef''"

text \<open>The digits \<^verbatim>\<open>printint\<close> puts in its buffer, least significant first.\<close>

function printint_buf :: "nat \<Rightarrow> nat \<Rightarrow> u8 list" where
  "printint_buf base x =
     digits ! (x mod base) # (if x div base = 0 \<or> base < 2 then [] else printint_buf base (x div base))"
  by auto

termination by (relation "measure snd") (auto simp: div_eq_0_iff)

definition printint_out :: "int \<Rightarrow> nat \<Rightarrow> bool \<Rightarrow> u8 list" where
  "printint_out xx base sign =
     (let neg = (sign \<and> xx < 0);
          x = (if neg then - (word_of_int xx :: u32) else word_of_int xx)
      in rev (printint_buf base (unat x) @ (if neg then [45] else [])))"

definition printint :: "int \<Rightarrow> nat \<Rightarrow> bool \<Rightarrow> ('a kcons_scheme, unit) op" where
  "printint xx base sign = consputs (printint_out xx base sign)"

primrec printptr_digits :: "nat \<Rightarrow> u64 \<Rightarrow> u8 list" where
  "printptr_digits 0 x = []"
| "printptr_digits (Suc k) x = digits ! unat (drop_bit 60 x) # printptr_digits k (push_bit 4 x)"

definition printptr :: "u64 \<Rightarrow> ('a kcons_scheme, unit) op" where
  "printptr x = kthen (consputc 48) (kthen (consputc 120) (consputs (printptr_digits 16 x)))"

text \<open>
  The variable arguments: an int, a pointer value or a string.  An argument of another type than the
  format asks for, or none, is undefined in C.
\<close>

datatype fmtarg = AInt int | APtr u64 | AStr "u8 list option"

definition bad_va_arg :: "('s, 'b) op" where
  "bad_va_arg = kpanic ''va_arg''"

definition print_conv :: "u8 \<Rightarrow> fmtarg list \<Rightarrow> ('a kcons_scheme, fmtarg list) op" where
  "print_conv c args =
     (if c = of_char CHR ''d'' then
        (case args of AInt x # r \<Rightarrow> kthen (printint x 10 True) (kret r) | _ \<Rightarrow> bad_va_arg)
      else if c = of_char CHR ''x'' then
        (case args of AInt x # r \<Rightarrow> kthen (printint x 16 True) (kret r) | _ \<Rightarrow> bad_va_arg)
      else if c = of_char CHR ''p'' then
        (case args of APtr x # r \<Rightarrow> kthen (printptr x) (kret r) | _ \<Rightarrow> bad_va_arg)
      else if c = of_char CHR ''s'' then
        (case args of AStr x # r \<Rightarrow>
           kthen (consputs (case x of None \<Rightarrow> str_bytes ''(null)'' | Some t \<Rightarrow> takeWhile (\<lambda>c. c \<noteq> 0) t)) (kret r)
         | _ \<Rightarrow> bad_va_arg)
      else if c = 37 then kthen (consputc 37) (kret args)
      else kthen (consputc 37) (kthen (consputc (uint c)) (kret args)))"

fun printf_loop :: "u8 list \<Rightarrow> fmtarg list \<Rightarrow> ('a kcons_scheme, unit) op" where
  "printf_loop [] args = kret ()"
| "printf_loop (c # cs) args =
     (if c = 0 then kret ()
      else if c \<noteq> 37 then kthen (consputc (uint c)) (printf_loop cs args)
      else (case cs of
              [] \<Rightarrow> kret ()
            | d # ds \<Rightarrow> if d = 0 then kret () else kbind (print_conv d args) (printf_loop ds)))"

definition printf :: "u8 list option \<Rightarrow> fmtarg list \<Rightarrow> ('a kcons_scheme, unit) op" where
  "printf fmt args =
     kbind (kget pr_locking) (\<lambda>locking.
     kthen (kwhen locking (acquire LPr)) (
     case fmt of None \<Rightarrow> kpanic ''null fmt'' | Some f \<Rightarrow>
     kthen (printf_loop f args)
     (kwhen locking (release LPr))))"

text \<open>\<^verbatim>\<open>panic()\<close> itself; everywhere else its only effect is the outcome it ends in.\<close>

definition panic :: "string \<Rightarrow> ('a kcons_scheme, unit) op" where
  "panic msg =
     kthen (kmod (\<lambda>s. s\<lparr>pr_locking := False\<rparr>)) (
     kthen (printf (Some (str_bytes ''panic: '')) []) (
     kthen (printf (Some (str_bytes msg)) []) (
     kthen (printf (Some [10]) []) (
     kthen (kmod (\<lambda>s. s\<lparr>panicked := True\<rparr>))
     (kpanic msg)))))"

definition printfinit :: "('a kcons_scheme, unit) op" where
  "printfinit = kmod (\<lambda>s. s\<lparr>pr_locking := True\<rparr>)"

section \<open>Process listing\<close>

definition state_name :: "procstate \<Rightarrow> string" where
  "state_name st = (case st of UNUSED \<Rightarrow> ''unused'' | SLEEPING \<Rightarrow> ''sleep '' | RUNNABLE \<Rightarrow> ''runble''
     | RUNNING \<Rightarrow> ''run   '' | ZOMBIE \<Rightarrow> ''zombie'' | USED \<Rightarrow> ''???'')"

definition procdump_one :: "nat \<Rightarrow> ('a kcons_scheme, unit) op" where
  "procdump_one i =
     kbind (kget (proc_at i)) (\<lambda>p.
     if p_state p = UNUSED then kret () else
     kthen (printf (Some (str_bytes ''%d %s %s'')) [AInt (p_pid p), AStr (Some (str_bytes (state_name (p_state p)))), AStr (Some (p_name p))])
     (printf (Some [10]) []))"

definition procdump :: "('a kcons_scheme, unit) op" where
  "procdump = kthen (printf (Some [10]) []) (kfor [0..<NPROC] procdump_one)"

section \<open>Console input\<close>

definition INPUT_BUF :: nat where [simp]: "INPUT_BUF = 128"

definition Ctrl :: "char \<Rightarrow> int" where
  "Ctrl x = of_char x - of_char CHR ''@''"

abbreviation cons_at :: "u32 \<Rightarrow> 'a kcons_scheme \<Rightarrow> u8" where
  "cons_at i s \<equiv> cons_buf s ! (unat i mod INPUT_BUF)"

primrec killline :: "nat \<Rightarrow> ('a kcons_scheme, unit) op" where
  "killline 0 = (\<lambda>s. Hang)"
| "killline (Suc k) =
     kbind (kget (\<lambda>s. cons_e s \<noteq> cons_w s \<and> cons_at (cons_e s - 1) s \<noteq> 10)) (\<lambda>more.
     if \<not> more then kret () else
     kthen (kmod (\<lambda>s. s\<lparr>cons_e := cons_e s - 1\<rparr>)) (
     kthen (consputc BACKSPACE)
     (killline k)))"

definition cons_backspace :: "('a kcons_scheme, unit) op" where
  "cons_backspace =
     kbind (kget (\<lambda>s. cons_e s \<noteq> cons_w s)) (\<lambda>b.
     kwhen b (
       kthen (kmod (\<lambda>s. s\<lparr>cons_e := cons_e s - 1\<rparr>))
       (consputc BACKSPACE)))"

definition cons_input :: "int \<Rightarrow> ('a kcons_scheme, unit) op" where
  "cons_input c0 =
     kbind (kget (\<lambda>s. c0 \<noteq> 0 \<and> cons_e s - cons_r s < of_nat INPUT_BUF)) (\<lambda>room.
     kwhen room (
       let c = (if c0 = 13 then 10 else c0) in
       kthen (consputc c) (
       kthen (kmod (\<lambda>s. s\<lparr>cons_buf := (cons_buf s)[unat (cons_e s) mod INPUT_BUF := of_int c], cons_e := cons_e s + 1\<rparr>)) (
       kbind (kget (\<lambda>s. c = 10 \<or> c = Ctrl CHR ''D'' \<or> cons_e s = cons_r s + of_nat INPUT_BUF)) (\<lambda>line.
       kwhen line (
         kthen (kmod (\<lambda>s. s\<lparr>cons_w := cons_e s\<rparr>))
         (wakeup ChCons)))))))"

definition consoleintr :: "int \<Rightarrow> ('a kcons_scheme, unit) op" where
  "consoleintr c =
     kthen (acquire LCons) (
     kthen (if c = Ctrl CHR ''P'' then procdump
            else if c = Ctrl CHR ''U'' then kbind (kget (\<lambda>s. unat (cons_e s - cons_w s))) (\<lambda>n. killline (n + 1))
            else if c = Ctrl CHR ''H'' \<or> c = 127 then cons_backspace
            else cons_input c)
     (release LCons))"

text \<open>
  The loop of \<^verbatim>\<open>uartintr\<close>: every turn but the last reads two values, and \<^verbatim>\<open>consoleintr\<close>
  may read more, so the values the device returns bound the turns.
\<close>

primrec uartintr_loop :: "nat \<Rightarrow> ('a kcons_scheme, unit) op" where
  "uartintr_loop 0 = (\<lambda>s. Hang)"
| "uartintr_loop (Suc k) =
     kbind uartgetc (\<lambda>c.
     if c = - 1 then kret () else
     kthen (consoleintr c)
     (uartintr_loop k))"

definition uartintr :: "('a kcons_scheme, unit) op" where
  "uartintr =
     kbind (kget (\<lambda>s. length (uart_rd s))) (\<lambda>n.
     kthen (uartintr_loop (n + 1)) (
     kthen (acquire LUart) (
     kthen uartstart
     (release LUart))))"

section \<open>Reading and writing the console\<close>

primrec consolewrite_loop :: "nat \<Rightarrow> src \<Rightarrow> int \<Rightarrow> ('a kcons_scheme, int) op" where
  "consolewrite_loop 0 sr i = kret i"
| "consolewrite_loop (Suc k) sr i =
     kbind (either_copyin sr 1) (\<lambda>(r, bs).
     if r = - 1 then kret i else
     kthen (uartputc (hd0 bs))
     (consolewrite_loop k (src_add sr 1) (i + 1)))"

definition consolewrite :: "src \<Rightarrow> int \<Rightarrow> ('a kcons_scheme, int) op" where
  "consolewrite sr n = consolewrite_loop (nat n) sr 0"

text \<open>
  The outer loop of \<^verbatim>\<open>consoleread\<close>, with \<open>n\<close> bytes left to read of \<open>target\<close>; a reader that slept
  enters it again.
\<close>

primrec consoleread_loop :: "nat \<Rightarrow> dst \<Rightarrow> u32 \<Rightarrow> ('a kcons_scheme, int) op" where
  "consoleread_loop 0 d target = kthen (release LCons) (kret (sint target))"
| "consoleread_loop (Suc n) d target =
     kbind (kget (\<lambda>s. cons_r s = cons_w s)) (\<lambda>none.
     if none then
       with_myproc (\<lambda>p.
       kbind (kget (\<lambda>s. p_killed (proc_at p s))) (\<lambda>killed.
       if killed then kthen (release LCons) (kret (- 1))
       else kthen (sleep ChCons LCons) (kret 0)))
     else
     kbind (kget (\<lambda>s. cons_at (cons_r s) s)) (\<lambda>c.
     kthen (kmod (\<lambda>s. s\<lparr>cons_r := cons_r s + 1\<rparr>)) (
     let done = (\<lambda>m. kthen (release LCons) (kret (sint (target - of_nat m)))) in
     if uint c = Ctrl CHR ''D'' then
       kthen (kwhen (of_nat (Suc n) < target) (kmod (\<lambda>s. s\<lparr>cons_r := cons_r s - 1\<rparr>)))
       (done (Suc n))
     else
     kbind (either_copyout d [c]) (\<lambda>r.
     if r = - 1 then done (Suc n)
     else if c = 10 then done n
     else consoleread_loop n (dst_add d 1) target))))"

definition consoleread :: "dst \<Rightarrow> int \<Rightarrow> ('a kcons_scheme, int) op" where
  "consoleread d n =
     kthen (acquire LCons)
     (if n > 0 then consoleread_loop (nat n) d (of_int n)
      else kthen (release LCons) (kret 0))"

definition CONSOLE :: nat where "CONSOLE = 1"

definition consoleinit :: "('a kcons_scheme, unit) op" where
  "consoleinit =
     kthen uartinit
     (kmod (\<lambda>s. s\<lparr>devsw := (devsw s)[CONSOLE := \<lparr>dev_read = Some DevConsole, dev_write = Some DevConsole\<rparr>]\<rparr>))"

end
