(* ===== verification/File.thy ===== *)
theory File
  imports Console
begin

text \<open>
  \<^verbatim>\<open>kernel/file.c\<close> and \<^verbatim>\<open>kernel/pipe.c\<close>: the table of open files and pipes.  A file
  is named by its index in \<^verbatim>\<open>ftable.file[]\<close>; a pipe by the address of the page it lives in.  The
  partial map \<open>pipes\<close> has the pipes that are allocated, so that an access to a pipe that was freed is
  an outcome of its own.

  An operation that sleeps ends in the outcome \<open>Sleep\<close>; \<open>pipewrite_resume\<close> and \<open>piperead_resume\<close>
  are what the thread executes when it is switched back in.
\<close>

section \<open>State\<close>

datatype fdtype = FD_NONE | FD_PIPE | FD_INODE | FD_DEVICE

record ofile =
  f_type :: fdtype
  f_ref :: int
  f_readable :: bool
  f_writable :: bool
  f_pipe :: u64
  f_ip :: "nat option"
  f_off :: u32
  f_major :: u16

record pipe =
  pi_data :: "u8 list"
  pi_nread :: u32
  pi_nwrite :: u32
  pi_readopen :: bool
  pi_writeopen :: bool

text \<open>\<open>stackpad\<close> is what the kernel stack holds in the four bytes of padding of a \<^verbatim>\<open>struct stat\<close>.\<close>

record kfile = kcons +
  ftable :: "ofile list"
  pipes :: "u64 \<rightharpoonup> pipe"
  stackpad :: "u8 list"

abbreviation file_at :: "nat \<Rightarrow> 'a kfile_scheme \<Rightarrow> ofile" where
  "file_at f s \<equiv> ftable s ! f"

definition set_file :: "nat \<Rightarrow> (ofile \<Rightarrow> ofile) \<Rightarrow> ('a kfile_scheme, unit) op" where
  "set_file i f = kmod (\<lambda>s. s\<lparr>ftable := (ftable s)[i := f (ftable s ! i)]\<rparr>)"

definition freed_access :: "('s, 'b) op" where
  "freed_access = kpanic ''freed page''"

definition with_pipe :: "u64 \<Rightarrow> (pipe \<Rightarrow> ('a kfile_scheme, 'b) op) \<Rightarrow> ('a kfile_scheme, 'b) op" where
  "with_pipe pi f = kbind (kget (\<lambda>s. pipes s pi)) (\<lambda>x. case x of None \<Rightarrow> freed_access | Some q \<Rightarrow> f q)"

definition set_pipe :: "u64 \<Rightarrow> pipe \<Rightarrow> ('a kfile_scheme, unit) op" where
  "set_pipe pi q = kmod (\<lambda>s. s\<lparr>pipes := (pipes s)(pi \<mapsto> q)\<rparr>)"

section \<open>Pipes\<close>

definition PIPESIZE :: nat where [simp]: "PIPESIZE = 512"

definition pipeclose :: "u64 \<Rightarrow> bool \<Rightarrow> ('a kfile_scheme, unit) op" where
  "pipeclose pi writable =
     kthen (with_pipe pi (\<lambda>_. acquire (LPipe pi))) (
     kthen (with_pipe pi (\<lambda>q.
       if writable then kthen (set_pipe pi (q\<lparr>pi_writeopen := False\<rparr>)) (wakeup (ChPipeR pi))
       else kthen (set_pipe pi (q\<lparr>pi_readopen := False\<rparr>)) (wakeup (ChPipeW pi)))) (
     with_pipe pi (\<lambda>q.
       if \<not> pi_readopen q \<and> \<not> pi_writeopen q then
         kthen (release (LPipe pi)) (
         kthen (kmod (\<lambda>s. s\<lparr>pipes := (pipes s)(pi := None)\<rparr>))
         (kfree pi))
       else release (LPipe pi))))"

definition pipe_put :: "u8 \<Rightarrow> pipe \<Rightarrow> pipe" where
  "pipe_put ch q = q\<lparr>pi_data := (pi_data q)[unat (pi_nwrite q) mod PIPESIZE := ch], pi_nwrite := pi_nwrite q + 1\<rparr>"

definition pipewrite_end :: "u64 \<Rightarrow> int \<Rightarrow> ('a kfile_scheme, int) op" where
  "pipewrite_end pi i = kthen (wakeup (ChPipeR pi)) (kthen (release (LPipe pi)) (kret i))"

text \<open>The loop of \<^verbatim>\<open>pipewrite\<close> with \<open>k\<close> bytes to go and \<open>i\<close> written.\<close>

primrec pipewrite_loop :: "nat \<Rightarrow> nat \<Rightarrow> u64 \<Rightarrow> u64 \<Rightarrow> int \<Rightarrow> ('a kfile_scheme, int) op" where
  "pipewrite_loop 0 p pi addr i = pipewrite_end pi i"
| "pipewrite_loop (Suc k) p pi addr i =
     with_pipe pi (\<lambda>q.
     kbind (kget (proc_at p)) (\<lambda>pr.
     if \<not> pi_readopen q \<or> p_killed pr then kthen (release (LPipe pi)) (kret (- 1))
     else if pi_nwrite q = pi_nread q + of_nat PIPESIZE then
       kthen (wakeup (ChPipeR pi)) (
       kthen (sleep (ChPipeW pi) (LPipe pi))
       (kret 0))
     else
       kbind (copyin (p_pagetable pr) (addr + of_int i) 1) (\<lambda>(r, bs).
       if r = - 1 then pipewrite_end pi i
       else kthen (set_pipe pi (pipe_put (hd0 bs) q))
            (pipewrite_loop k p pi addr (i + 1)))))"

definition pipewrite :: "u64 \<Rightarrow> u64 \<Rightarrow> int \<Rightarrow> ('a kfile_scheme, int) op" where
  "pipewrite pi addr n = with_myproc (\<lambda>p.
     kthen (with_pipe pi (\<lambda>_. acquire (LPipe pi)))
     (pipewrite_loop (nat n) p pi addr 0))"

definition pipewrite_resume :: "nat \<Rightarrow> u64 \<Rightarrow> u64 \<Rightarrow> int \<Rightarrow> int \<Rightarrow> ('a kfile_scheme, int) op" where
  "pipewrite_resume p pi addr n i =
     kthen (sleep_resume p (LPipe pi))
     (pipewrite_loop (nat (n - i)) p pi addr i)"

definition piperead_end :: "u64 \<Rightarrow> int \<Rightarrow> ('a kfile_scheme, int) op" where
  "piperead_end pi i = kthen (wakeup (ChPipeW pi)) (kthen (release (LPipe pi)) (kret i))"

text \<open>The copying loop of \<^verbatim>\<open>piperead\<close>.\<close>

primrec piperead_copy :: "nat \<Rightarrow> nat \<Rightarrow> u64 \<Rightarrow> u64 \<Rightarrow> int \<Rightarrow> ('a kfile_scheme, int) op" where
  "piperead_copy 0 p pi addr i = piperead_end pi i"
| "piperead_copy (Suc k) p pi addr i =
     with_pipe pi (\<lambda>q.
     if pi_nread q = pi_nwrite q then piperead_end pi i else
     let ch = pi_data q ! (unat (pi_nread q) mod PIPESIZE) in
     kthen (set_pipe pi (q\<lparr>pi_nread := pi_nread q + 1\<rparr>)) (
     kbind (kget (\<lambda>s. p_pagetable (proc_at p s))) (\<lambda>pt.
     kbind (copyout pt (addr + of_int i) [ch]) (\<lambda>r.
     if r = - 1 then piperead_end pi i
     else piperead_copy k p pi addr (i + 1)))))"

text \<open>The waiting loop of \<^verbatim>\<open>piperead\<close> and what follows it.\<close>

definition piperead_wait :: "nat \<Rightarrow> u64 \<Rightarrow> u64 \<Rightarrow> int \<Rightarrow> ('a kfile_scheme, int) op" where
  "piperead_wait p pi addr n =
     with_pipe pi (\<lambda>q.
     if pi_nread q = pi_nwrite q \<and> pi_writeopen q then
       kbind (kget (\<lambda>s. p_killed (proc_at p s))) (\<lambda>killed.
       if killed then kthen (release (LPipe pi)) (kret (- 1))
       else kthen (sleep (ChPipeR pi) (LPipe pi)) (kret 0))
     else piperead_copy (nat n) p pi addr 0)"

definition piperead :: "u64 \<Rightarrow> u64 \<Rightarrow> int \<Rightarrow> ('a kfile_scheme, int) op" where
  "piperead pi addr n = with_myproc (\<lambda>p.
     kthen (with_pipe pi (\<lambda>_. acquire (LPipe pi)))
     (piperead_wait p pi addr n))"

definition piperead_resume :: "nat \<Rightarrow> u64 \<Rightarrow> u64 \<Rightarrow> int \<Rightarrow> ('a kfile_scheme, int) op" where
  "piperead_resume p pi addr n =
     kthen (sleep_resume p (LPipe pi))
     (piperead_wait p pi addr n)"

section \<open>The file table\<close>

definition filealloc :: "('a kfile_scheme, nat option) op" where
  "filealloc =
     kthen (acquire LFtable) (
     kbind (kget ftable) (\<lambda>tbl.
     case find (\<lambda>i. f_ref (tbl ! i) = 0) [0..<NFILE] of
       Some f \<Rightarrow>
         kthen (set_file f (\<lambda>x. x\<lparr>f_ref := 1\<rparr>)) (
         kthen (release LFtable)
         (kret (Some f)))
     | None \<Rightarrow>
         kthen (release LFtable)
         (kret None)))"

definition filedup :: "nat \<Rightarrow> ('a kfile_scheme, nat) op" where
  "filedup f =
     kthen (acquire LFtable) (
     kbind (kget (\<lambda>s. f_ref (file_at f s))) (\<lambda>r.
     if r < 1 then kpanic ''filedup'' else
     kthen (set_file f (\<lambda>x. x\<lparr>f_ref := f_ref x + 1\<rparr>)) (
     kthen (release LFtable)
     (kret f))))"

definition iput_ptr :: "nat option \<Rightarrow> ('a kfs_scheme, unit) op" where
  "iput_ptr ipo = (case ipo of None \<Rightarrow> kpanic ''kerneltrap'' | Some ip \<Rightarrow> iput ip)"

definition fileclose :: "nat \<Rightarrow> ('a kfile_scheme, unit) op" where
  "fileclose f =
     kthen (acquire LFtable) (
     kbind (kget (file_at f)) (\<lambda>ff.
     if f_ref ff < 1 then kpanic ''fileclose'' else
     kthen (set_file f (\<lambda>x. x\<lparr>f_ref := f_ref x - 1\<rparr>)) (
     if f_ref ff - 1 > 0 then release LFtable else
     kthen (set_file f (\<lambda>x. x\<lparr>f_ref := 0, f_type := FD_NONE\<rparr>)) (
     kthen (release LFtable) (
     if f_type ff = FD_PIPE then pipeclose (f_pipe ff) (f_writable ff)
     else if f_type ff = FD_INODE \<or> f_type ff = FD_DEVICE then
       kthen begin_op (
       kthen (iput_ptr (f_ip ff))
       end_op)
     else kret ())))))"

definition pipealloc :: "('a kfile_scheme, (nat \<times> nat) option) op" where
  "pipealloc =
     kbind filealloc (\<lambda>f0.
     case f0 of None \<Rightarrow> kret None | Some a \<Rightarrow>
     kbind filealloc (\<lambda>f1.
     case f1 of None \<Rightarrow> kthen (fileclose a) (kret None) | Some b \<Rightarrow>
     kbind kalloc (\<lambda>pi.
     if pi = 0 then kthen (fileclose a) (kthen (fileclose b) (kret None)) else
     kthen (kmod (\<lambda>s. s\<lparr>pipes := (pipes s)(pi \<mapsto> \<lparr>pi_data = bytes_at PIPESIZE (pi + 24) (mem s), pi_nread = 0, pi_nwrite = 0,
                            pi_readopen = True, pi_writeopen = True\<rparr>)\<rparr>)) (
     kthen (set_file a (\<lambda>x. x\<lparr>f_type := FD_PIPE, f_readable := True, f_writable := False, f_pipe := pi\<rparr>)) (
     kthen (set_file b (\<lambda>x. x\<lparr>f_type := FD_PIPE, f_readable := False, f_writable := True, f_pipe := pi\<rparr>))
     (kret (Some (a, b))))))))"

text \<open>The 24 bytes of a \<^verbatim>\<open>struct stat\<close>.\<close>

definition stat_bytes :: "u8 list \<Rightarrow> stat \<Rightarrow> u8 list" where
  "stat_bytes pad st = bytes_of_word 4 (word_of_int (st_dev st) :: u32) @ bytes_of_word 4 (st_ino st) @
     bytes_of_word 2 (st_type st) @ bytes_of_word 2 (st_nlink st) @ pad @ bytes_of_word 8 (st_size st)"

definition filestat :: "nat \<Rightarrow> u64 \<Rightarrow> ('a kfile_scheme, int) op" where
  "filestat f addr = with_myproc (\<lambda>p.
     kbind (kget (file_at f)) (\<lambda>ff.
     if f_type ff = FD_INODE \<or> f_type ff = FD_DEVICE then
       kthen (ilock (f_ip ff)) (
       kbind (case f_ip ff of None \<Rightarrow> kpanic ''kerneltrap'' | Some ip \<Rightarrow> stati ip) (\<lambda>st.
       kthen (iunlock (f_ip ff)) (
       kbind (kget stackpad) (\<lambda>pad.
       kbind (kget (\<lambda>s. p_pagetable (proc_at p s))) (\<lambda>pt.
       kbind (copyout pt addr (stat_bytes pad st)) (\<lambda>r.
       kret (if r < 0 then - 1 else 0)))))))
     else kret (- 1)))"

definition dev_read_fn :: "devfn \<Rightarrow> dst \<Rightarrow> int \<Rightarrow> ('a kcons_scheme, int) op" where
  "dev_read_fn d = (case d of DevConsole \<Rightarrow> consoleread)"

definition dev_write_fn :: "devfn \<Rightarrow> src \<Rightarrow> int \<Rightarrow> ('a kcons_scheme, int) op" where
  "dev_write_fn d = (case d of DevConsole \<Rightarrow> consolewrite)"

definition fileread :: "nat \<Rightarrow> u64 \<Rightarrow> int \<Rightarrow> ('a kfile_scheme, int) op" where
  "fileread f addr n =
     kbind (kget (file_at f)) (\<lambda>ff.
     if \<not> f_readable ff then kret (- 1) else
     case f_type ff of
       FD_PIPE \<Rightarrow> piperead (f_pipe ff) addr n
     | FD_DEVICE \<Rightarrow>
         if sint (f_major ff) < 0 \<or> sint (f_major ff) \<ge> int NDEV then kret (- 1) else
         kbind (kget (\<lambda>s. dev_read (devsw s ! unat (f_major ff)))) (\<lambda>fn.
         case fn of None \<Rightarrow> kret (- 1) | Some d \<Rightarrow> dev_read_fn d (UserDst addr) n)
     | FD_INODE \<Rightarrow>
         kthen (ilock (f_ip ff)) (
         kbind (case f_ip ff of None \<Rightarrow> kpanic ''kerneltrap'' | Some ip \<Rightarrow> readi ip (UserDst addr) (f_off ff) (of_int n)) (\<lambda>(r, _).
         kthen (kwhen (r > 0) (set_file f (\<lambda>x. x\<lparr>f_off := f_off x + of_int r\<rparr>))) (
         kthen (iunlock (f_ip ff))
         (kret r))))
     | FD_NONE \<Rightarrow> kpanic ''fileread'')"

definition filewrite_max :: int where
  "filewrite_max = int (((MAXOPBLOCKS - 1 - 1 - 2) div 2) * BSIZE)"

text \<open>The loop of \<^verbatim>\<open>filewrite\<close>: the final value of \<^verbatim>\<open>i\<close>.\<close>

primrec filewrite_loop :: "nat \<Rightarrow> nat \<Rightarrow> u64 \<Rightarrow> int \<Rightarrow> int \<Rightarrow> ('a kfile_scheme, int) op" where
  "filewrite_loop 0 f addr n i = (\<lambda>s. Hang)"
| "filewrite_loop (Suc k) f addr n i =
     (if \<not> i < n then kret i else
      let n1 = min (n - i) filewrite_max in
      kbind (kget (\<lambda>s. f_ip (file_at f s))) (\<lambda>ipo.
      kthen begin_op (
      kthen (ilock ipo) (
      kbind (kget (\<lambda>s. f_off (file_at f s))) (\<lambda>off.
      kbind (case ipo of None \<Rightarrow> kpanic ''kerneltrap'' | Some ip \<Rightarrow> writei ip (UserSrc (addr + of_int i)) off (of_int n1)) (\<lambda>r.
      kthen (kwhen (r > 0) (set_file f (\<lambda>x. x\<lparr>f_off := f_off x + of_int r\<rparr>))) (
      kthen (iunlock ipo) (
      kthen end_op
      (if r \<noteq> n1 then kret i else filewrite_loop k f addr n (i + r))))))))))"

definition filewrite :: "nat \<Rightarrow> u64 \<Rightarrow> int \<Rightarrow> ('a kfile_scheme, int) op" where
  "filewrite f addr n =
     kbind (kget (file_at f)) (\<lambda>ff.
     if \<not> f_writable ff then kret (- 1) else
     case f_type ff of
       FD_PIPE \<Rightarrow> pipewrite (f_pipe ff) addr n
     | FD_DEVICE \<Rightarrow>
         if sint (f_major ff) < 0 \<or> sint (f_major ff) \<ge> int NDEV then kret (- 1) else
         kbind (kget (\<lambda>s. dev_write (devsw s ! unat (f_major ff)))) (\<lambda>fn.
         case fn of None \<Rightarrow> kret (- 1) | Some d \<Rightarrow> dev_write_fn d (UserSrc addr) n)
     | FD_INODE \<Rightarrow>
         kbind (filewrite_loop (nat n + 1) f addr n 0) (\<lambda>i.
         kret (if i = n then n else - 1))
     | FD_NONE \<Rightarrow> kpanic ''filewrite'')"

end
