(* ===== verification/Proc.thy ===== *)
theory Proc
  imports File
begin

text \<open>
  \<^verbatim>\<open>kernel/proc.c\<close>: the life of a process, from \<^verbatim>\<open>allocproc\<close> through
  \<^verbatim>\<open>fork\<close>, \<^verbatim>\<open>exit\<close> and \<^verbatim>\<open>wait\<close> to \<^verbatim>\<open>freeproc\<close>, and the
  scheduler.  (\<^verbatim>\<open>sleep\<close>, \<^verbatim>\<open>wakeup\<close> and \<^verbatim>\<open>sched\<close> are in \<open>Kcore\<close>,
  \<^verbatim>\<open>proc_mapstacks\<close> in \<open>Vm\<close>, \<^verbatim>\<open>either_copyout\<close> and \<^verbatim>\<open>either_copyin\<close> in
  \<open>Fs\<close>, \<^verbatim>\<open>procdump\<close> in \<open>Console\<close>.)

  A trapframe is a page of physical memory, read and written at the offsets \<^verbatim>\<open>proc.h\<close> gives.
  \<^verbatim>\<open>swtch\<close> is assembly: \<^verbatim>\<open>scheduler\<close> is given the execution of a process, from the
  moment it is switched to until it switches back, as an argument.
\<close>

section \<open>State\<close>

text \<open>The addresses of code the kernel stores in registers and frames.\<close>

record ksyms =
  k_forkret :: u64
  k_usertrap :: u64
  k_kernelvec :: u64
  k_uservec :: u64
  k_userret :: u64

record kproc = kfile +
  ticks :: u32
  first_run :: bool
  syms :: ksyms

section \<open>Trapframes\<close>

definition tf_epc :: u64 where "tf_epc = 24"
definition tf_sp :: u64 where "tf_sp = 48"
definition tf_a :: "nat \<Rightarrow> u64" where "tf_a n = 112 + 8 * of_nat n"
definition tf_size :: nat where "tf_size = 288"

definition tf_get :: "nat \<Rightarrow> u64 \<Rightarrow> ('a kmem_scheme, u64) op" where
  "tf_get p off = kget (\<lambda>s. load64 (mem s) (p_trapframe (proc_at p s) + off))"

definition tf_set :: "nat \<Rightarrow> u64 \<Rightarrow> u64 \<Rightarrow> ('a kmem_scheme, unit) op" where
  "tf_set p off v = kmod (\<lambda>s. s\<lparr>mem := store64 (mem s) (p_trapframe (proc_at p s) + off) v\<rparr>)"

text \<open>\<^verbatim>\<open>safestrcpy\<close> on an array of bytes.\<close>

definition safestrcpy_l :: "nat \<Rightarrow> u8 list \<Rightarrow> u8 list \<Rightarrow> u8 list" where
  "safestrcpy_l n s t = (if n = 0 then s else put_bytes s 0 (cname (n - 1) t @ [0]))"

section \<open>Allocating and freeing\<close>

definition procinit_one :: "nat \<Rightarrow> ('a kcore_scheme, unit) op" where
  "procinit_one i = set_proc i (\<lambda>p. p\<lparr>p_kstack := KSTACK i\<rparr>)"

definition procinit :: "('a kcore_scheme, unit) op" where
  "procinit = kfor [0..<NPROC] procinit_one"

definition allocpid :: "('a kcore_scheme, int) op" where
  "allocpid =
     kthen (acquire LPid) (
     kbind (kget nextpid) (\<lambda>pid.
     kthen (kmod (\<lambda>s. s\<lparr>nextpid := nextpid s + 1\<rparr>)) (
     kthen (release LPid)
     (kret pid))))"

definition proc_pagetable :: "nat \<Rightarrow> ('a kmem_scheme, u64) op" where
  "proc_pagetable p =
     kbind uvmcreate (\<lambda>pt.
     if pt = 0 then kret 0 else
     kbind (kget (\<lambda>s. ld_trampoline (ld s))) (\<lambda>tramp.
     kbind (mappages pt TRAMPOLINE PGSIZE tramp (PTE_R OR PTE_X)) (\<lambda>r.
     if r < 0 then kthen (uvmfree pt 0) (kret 0) else
     kbind (kget (\<lambda>s. p_trapframe (proc_at p s))) (\<lambda>tf.
     kbind (mappages pt TRAPFRAME PGSIZE tf (PTE_R OR PTE_W)) (\<lambda>r.
     if r < 0 then
       kthen (uvmunmap pt TRAMPOLINE 1 False) (
       kthen (uvmfree pt 0)
       (kret 0))
     else kret pt)))))"

definition proc_freepagetable :: "u64 \<Rightarrow> u64 \<Rightarrow> ('a kmem_scheme, unit) op" where
  "proc_freepagetable pt sz =
     kthen (uvmunmap pt TRAMPOLINE 1 False) (
     kthen (uvmunmap pt TRAPFRAME 1 False)
     (uvmfree pt sz))"

definition freeproc :: "nat \<Rightarrow> ('a kmem_scheme, unit) op" where
  "freeproc p =
     kbind (kget (proc_at p)) (\<lambda>q.
     kthen (kwhen (p_trapframe q \<noteq> 0) (kfree (p_trapframe q))) (
     kthen (set_proc p (\<lambda>q. q\<lparr>p_trapframe := 0\<rparr>)) (
     kthen (kwhen (p_pagetable q \<noteq> 0) (proc_freepagetable (p_pagetable q) (p_sz q)))
     (set_proc p (\<lambda>q. q\<lparr>p_pagetable := 0, p_sz := 0, p_pid := 0, p_parent := None, p_name := (p_name q)[0 := 0],
                       p_chan := ChNull, p_killed := False, p_xstate := 0, p_state := UNUSED\<rparr>)))))"

text \<open>The search of \<^verbatim>\<open>allocproc\<close>: it returns with the lock of the process it found.\<close>

primrec allocproc_find :: "nat list \<Rightarrow> ('a kcore_scheme, nat option) op" where
  "allocproc_find [] = kret None"
| "allocproc_find (i # is) =
     kthen (acquire (LProc i)) (
     kbind (kget (\<lambda>s. p_state (proc_at i s))) (\<lambda>st.
     if st = UNUSED then kret (Some i) else
     kthen (release (LProc i))
     (allocproc_find is)))"

definition allocproc :: "('a kproc_scheme, nat option) op" where
  "allocproc =
     kbind (allocproc_find [0..<NPROC]) (\<lambda>found.
     case found of None \<Rightarrow> kret None | Some p \<Rightarrow>
     kbind allocpid (\<lambda>pid.
     kthen (set_proc p (\<lambda>q. q\<lparr>p_pid := pid, p_state := USED\<rparr>)) (
     kbind kalloc (\<lambda>tf.
     kthen (set_proc p (\<lambda>q. q\<lparr>p_trapframe := tf\<rparr>)) (
     if tf = 0 then kthen (freeproc p) (kthen (release (LProc p)) (kret None)) else
     kbind (proc_pagetable p) (\<lambda>pt.
     kthen (set_proc p (\<lambda>q. q\<lparr>p_pagetable := pt\<rparr>)) (
     if pt = 0 then kthen (freeproc p) (kthen (release (LProc p)) (kret None)) else
     kbind (kget (\<lambda>s. k_forkret (syms s))) (\<lambda>ra.
     kthen (set_proc p (\<lambda>q. q\<lparr>p_context := \<lparr>ctx_ra = ra, ctx_sp = p_kstack q + PGSIZE, ctx_s = replicate 12 0\<rparr>\<rparr>))
     (kret (Some p))))))))))"

section \<open>The first process and the size of a process\<close>

definition initcode :: "u8 list" where
  "initcode = [
     0x17, 0x05, 0x00, 0x00, 0x13, 0x05, 0x45, 0x02,
     0x97, 0x05, 0x00, 0x00, 0x93, 0x85, 0x35, 0x02,
     0x93, 0x08, 0x70, 0x00, 0x73, 0x00, 0x00, 0x00,
     0x93, 0x08, 0x20, 0x00, 0x73, 0x00, 0x00, 0x00,
     0xef, 0xf0, 0x9f, 0xff, 0x2f, 0x69, 0x6e, 0x69,
     0x74, 0x00, 0x00, 0x24, 0x00, 0x00, 0x00, 0x00,
     0x00, 0x00, 0x00, 0x00]"

definition userinit :: "('a kproc_scheme, unit) op" where
  "userinit =
     kbind allocproc (\<lambda>po.
     kthen (kmod (\<lambda>s. s\<lparr>initproc := po\<rparr>)) (
     case po of None \<Rightarrow> kpanic ''kerneltrap'' | Some p \<Rightarrow>
     kbind (kget (\<lambda>s. p_pagetable (proc_at p s))) (\<lambda>pt.
     kthen (uvminit pt initcode) (
     kthen (set_proc p (\<lambda>q. q\<lparr>p_sz := PGSIZE\<rparr>)) (
     kthen (tf_set p tf_epc 0) (
     kthen (tf_set p tf_sp PGSIZE) (
     kthen (set_proc p (\<lambda>q. q\<lparr>p_name := safestrcpy_l 16 (p_name q) (str_bytes ''initcode'')\<rparr>)) (
     kbind (namei [slash]) (\<lambda>cwd.
     kthen (set_proc p (\<lambda>q. q\<lparr>p_cwd := cwd\<rparr>)) (
     kthen (set_proc p (\<lambda>q. q\<lparr>p_state := RUNNABLE\<rparr>))
     (release (LProc p))))))))))))"

text \<open>\<^verbatim>\<open>growproc\<close> keeps the size in a \<^verbatim>\<open>uint\<close>, of 32 bits.\<close>

definition growproc :: "int \<Rightarrow> ('a kmem_scheme, int) op" where
  "growproc n = with_myproc (\<lambda>p.
     kbind (kget (proc_at p)) (\<lambda>q.
     let sz = (ucast (p_sz q) :: u32) in
     if n > 0 then
       kbind (uvmalloc (p_pagetable q) (ucast sz) (ucast (sz + of_int n))) (\<lambda>r.
       if (ucast r :: u32) = 0 then kret (- 1) else
       kthen (set_proc p (\<lambda>q. q\<lparr>p_sz := ucast (ucast r :: u32)\<rparr>)) (kret 0))
     else if n < 0 then
       kbind (uvmdealloc (p_pagetable q) (ucast sz) (ucast (sz + of_int n))) (\<lambda>r.
       kthen (set_proc p (\<lambda>q. q\<lparr>p_sz := ucast (ucast r :: u32)\<rparr>)) (kret 0))
     else
       kthen (set_proc p (\<lambda>q. q\<lparr>p_sz := ucast sz\<rparr>)) (kret 0)))"

section \<open>Fork\<close>

definition fork_fd :: "nat \<Rightarrow> nat \<Rightarrow> nat \<Rightarrow> ('a kfile_scheme, unit) op" where
  "fork_fd p np i =
     kbind (kget (\<lambda>s. p_ofile (proc_at p s) ! i)) (\<lambda>fo.
     case fo of None \<Rightarrow> kret () | Some f \<Rightarrow>
     kbind (filedup f) (\<lambda>g.
     set_proc np (\<lambda>q. q\<lparr>p_ofile := (p_ofile q)[i := Some g]\<rparr>)))"

definition idup_ptr :: "nat option \<Rightarrow> ('a kfs_scheme, nat) op" where
  "idup_ptr ipo = (case ipo of None \<Rightarrow> kpanic ''kerneltrap'' | Some ip \<Rightarrow> idup ip)"

definition fork :: "('a kproc_scheme, int) op" where
  "fork = with_myproc (\<lambda>p.
     kbind allocproc (\<lambda>npo.
     case npo of None \<Rightarrow> kret (- 1) | Some np \<Rightarrow>
     kbind (kget (proc_at p)) (\<lambda>q.
     kbind (kget (\<lambda>s. p_pagetable (proc_at np s))) (\<lambda>npt.
     kbind (uvmcopy (p_pagetable q) npt (p_sz q)) (\<lambda>r.
     if r < 0 then kthen (freeproc np) (kthen (release (LProc np)) (kret (- 1))) else
     kthen (set_proc np (\<lambda>x. x\<lparr>p_sz := p_sz q\<rparr>)) (
     kthen (kmod (\<lambda>s. s\<lparr>mem := write_bytes (p_trapframe (proc_at np s)) (bytes_at tf_size (p_trapframe (proc_at p s)) (mem s)) (mem s)\<rparr>)) (
     kthen (tf_set np (tf_a 0) 0) (
     kthen (kfor [0..<NOFILE] (fork_fd p np)) (
     kbind (idup_ptr (p_cwd q)) (\<lambda>ip.
     kthen (set_proc np (\<lambda>x. x\<lparr>p_cwd := Some ip, p_name := safestrcpy_l 16 (p_name x) (p_name q)\<rparr>)) (
     kbind (kget (\<lambda>s. p_pid (proc_at np s))) (\<lambda>pid.
     kthen (release (LProc np)) (
     kthen (acquire LWait) (
     kthen (set_proc np (\<lambda>x. x\<lparr>p_parent := Some p\<rparr>)) (
     kthen (release LWait) (
     kthen (acquire (LProc np)) (
     kthen (set_proc np (\<lambda>x. x\<lparr>p_state := RUNNABLE\<rparr>)) (
     kthen (release (LProc np))
     (kret pid)))))))))))))))))))"

section \<open>Exit and wait\<close>

definition chan_proc :: "nat option \<Rightarrow> chan" where
  "chan_proc po = (case po of None \<Rightarrow> ChNull | Some p \<Rightarrow> ChProc p)"

definition reparent_one :: "nat \<Rightarrow> nat \<Rightarrow> ('a kcore_scheme, unit) op" where
  "reparent_one p i =
     kbind (kget (\<lambda>s. p_parent (proc_at i s))) (\<lambda>par.
     kbind (kget initproc) (\<lambda>ini.
     kwhen (par = Some p) (
       kthen (set_proc i (\<lambda>q. q\<lparr>p_parent := ini\<rparr>))
       (wakeup (chan_proc ini)))))"

definition reparent :: "nat \<Rightarrow> ('a kcore_scheme, unit) op" where
  "reparent p = kfor [0..<NPROC] (reparent_one p)"

definition exit_fd :: "nat \<Rightarrow> nat \<Rightarrow> ('a kfile_scheme, unit) op" where
  "exit_fd p fd =
     kbind (kget (\<lambda>s. p_ofile (proc_at p s) ! fd)) (\<lambda>fo.
     case fo of None \<Rightarrow> kret () | Some f \<Rightarrow>
     kthen (fileclose f)
     (set_proc p (\<lambda>q. q\<lparr>p_ofile := (p_ofile q)[fd := None]\<rparr>)))"

definition exit :: "int \<Rightarrow> ('a kproc_scheme, unit) op" where
  "exit status = with_myproc (\<lambda>p.
     kbind (kget initproc) (\<lambda>ini.
     if ini = Some p then kpanic ''init exiting'' else
     kthen (kfor [0..<NOFILE] (exit_fd p)) (
     kthen begin_op (
     kbind (kget (\<lambda>s. p_cwd (proc_at p s))) (\<lambda>cwd.
     kthen (iput_ptr cwd) (
     kthen end_op (
     kthen (set_proc p (\<lambda>q. q\<lparr>p_cwd := None\<rparr>)) (
     kthen (acquire LWait) (
     kthen (reparent p) (
     kbind (kget (\<lambda>s. p_parent (proc_at p s))) (\<lambda>par.
     kthen (wakeup (chan_proc par)) (
     kthen (acquire (LProc p)) (
     kthen (set_proc p (\<lambda>q. q\<lparr>p_xstate := status, p_state := ZOMBIE\<rparr>)) (
     kthen (release LWait) (
     kthen sched
     (kpanic ''zombie exit''))))))))))))))))"

text \<open>
  One scan of the table by \<^verbatim>\<open>wait\<close>: the value it returns, or else whether there are children.
\<close>

primrec wait_scan :: "nat \<Rightarrow> u64 \<Rightarrow> nat list \<Rightarrow> bool \<Rightarrow> ('a kmem_scheme, int + bool) op" where
  "wait_scan p addr [] hk = kret (Inr hk)"
| "wait_scan p addr (i # is) hk =
     kbind (kget (\<lambda>s. p_parent (proc_at i s))) (\<lambda>par.
     if par \<noteq> Some p then wait_scan p addr is hk else
     kthen (acquire (LProc i)) (
     kbind (kget (proc_at i)) (\<lambda>c.
     if p_state c = ZOMBIE then
       kbind (kget (\<lambda>s. p_pagetable (proc_at p s))) (\<lambda>pt.
       kbind (if addr \<noteq> 0 then copyout pt addr (bytes_of_word 4 (word_of_int (p_xstate c) :: u32)) else kret 0) (\<lambda>r.
       if r < 0 then kthen (release (LProc i)) (kthen (release LWait) (kret (Inl (- 1)))) else
       kthen (freeproc i) (
       kthen (release (LProc i)) (
       kthen (release LWait)
       (kret (Inl (p_pid c)))))))
     else
       kthen (release (LProc i))
       (wait_scan p addr is True))))"

definition wait_turn :: "nat \<Rightarrow> u64 \<Rightarrow> ('a kmem_scheme, int) op" where
  "wait_turn p addr =
     kbind (wait_scan p addr [0..<NPROC] False) (\<lambda>r.
     case r of Inl v \<Rightarrow> kret v | Inr hk \<Rightarrow>
     kbind (kget (\<lambda>s. p_killed (proc_at p s))) (\<lambda>killed.
     if \<not> hk \<or> killed then kthen (release LWait) (kret (- 1))
     else kthen (sleep (ChProc p) LWait) (kret 0)))"

definition wait :: "u64 \<Rightarrow> ('a kmem_scheme, int) op" where
  "wait addr = with_myproc (\<lambda>p.
     kthen (acquire LWait)
     (wait_turn p addr))"

definition wait_resume :: "nat \<Rightarrow> u64 \<Rightarrow> ('a kmem_scheme, int) op" where
  "wait_resume p addr =
     kthen (sleep_resume p LWait)
     (wait_turn p addr)"

section \<open>Scheduling\<close>

definition yield :: "('a kcore_scheme, unit) op" where
  "yield = with_myproc (\<lambda>p.
     kthen (acquire (LProc p)) (
     kthen (set_proc p (\<lambda>q. q\<lparr>p_state := RUNNABLE\<rparr>))
     sched))"

definition yield_resume :: "nat \<Rightarrow> ('a kcore_scheme, unit) op" where
  "yield_resume p = release (LProc p)"

text \<open>The scheduler's turn for one process; \<open>run i\<close> is the execution of process \<open>i\<close>.\<close>

definition scheduler_one :: "(nat \<Rightarrow> ('a kcore_scheme, unit) op) \<Rightarrow> nat \<Rightarrow> ('a kcore_scheme, unit) op" where
  "scheduler_one run i =
     kthen (acquire (LProc i)) (
     kbind (kget (\<lambda>s. p_state (proc_at i s))) (\<lambda>st.
     kthen (kwhen (st = RUNNABLE) (
       kthen (set_proc i (\<lambda>q. q\<lparr>p_state := RUNNING\<rparr>)) (
       kthen (kmod (\<lambda>s. s\<lparr>curproc := Some i\<rparr>)) (
       kthen (run i)
       (kmod (\<lambda>s. s\<lparr>curproc := None\<rparr>))))))
     (release (LProc i))))"

text \<open>\<open>n\<close> rounds of the scheduler's endless loop.\<close>

primrec scheduler_rounds :: "nat \<Rightarrow> (nat \<Rightarrow> ('a kcore_scheme, unit) op) \<Rightarrow> ('a kcore_scheme, unit) op" where
  "scheduler_rounds 0 run = kret ()"
| "scheduler_rounds (Suc n) run =
     kthen (kfor [0..<NPROC] (scheduler_one run)) (scheduler_rounds n run)"

definition scheduler :: "nat \<Rightarrow> (nat \<Rightarrow> ('a kcore_scheme, unit) op) \<Rightarrow> ('a kcore_scheme, unit) op" where
  "scheduler n run = kthen (kmod (\<lambda>s. s\<lparr>curproc := None\<rparr>)) (scheduler_rounds n run)"

section \<open>Kill\<close>

primrec kill_loop :: "int \<Rightarrow> nat list \<Rightarrow> ('a kcore_scheme, int) op" where
  "kill_loop pid [] = kret (- 1)"
| "kill_loop pid (i # is) =
     kthen (acquire (LProc i)) (
     kbind (kget (proc_at i)) (\<lambda>q.
     if p_pid q = pid then
       kthen (set_proc i (\<lambda>q. q\<lparr>p_killed := True\<rparr>)) (
       kthen (set_proc i (\<lambda>q. if p_state q = SLEEPING then q\<lparr>p_state := RUNNABLE\<rparr> else q)) (
       kthen (release (LProc i))
       (kret 0)))
     else
       kthen (release (LProc i))
       (kill_loop pid is)))"

definition kill :: "int \<Rightarrow> ('a kcore_scheme, int) op" where
  "kill pid = kill_loop pid [0..<NPROC]"

end
