(* ===== verification/Exec.thy ===== *)
theory Exec
  imports Proc
begin

text \<open>
  \<^verbatim>\<open>kernel/exec.c\<close>: loading a program.  The argument strings are read from the kernel pages
  \<^verbatim>\<open>sys_exec\<close> has put them in; \<open>argv\<close> is the list of their addresses up to the null pointer.
\<close>

section \<open>ELF headers\<close>

definition ELF_MAGIC :: u32 where "ELF_MAGIC = 0x464C457F"
definition ELF_PROG_LOAD :: u32 where "ELF_PROG_LOAD = 1"

record elfhdr =
  elf_magic :: u32
  elf_entry :: u64
  elf_phoff :: u64
  elf_phnum :: u16

record proghdr =
  ph_type :: u32
  ph_off :: u64
  ph_vaddr :: u64
  ph_filesz :: u64
  ph_memsz :: u64

definition elf_size :: u32 where "elf_size = 64"
definition ph_size :: u32 where "ph_size = 56"

definition get_elfhdr :: "u8 list \<Rightarrow> elfhdr" where
  "get_elfhdr d = \<lparr>elf_magic = get_le 4 d 0, elf_entry = get_le 8 d 24, elf_phoff = get_le 8 d 32, elf_phnum = get_le 2 d 56\<rparr>"

definition get_proghdr :: "u8 list \<Rightarrow> proghdr" where
  "get_proghdr d = \<lparr>ph_type = get_le 4 d 0, ph_off = get_le 8 d 8, ph_vaddr = get_le 8 d 16,
     ph_filesz = get_le 8 d 32, ph_memsz = get_le 8 d 40\<rparr>"

section \<open>Segments\<close>

primrec loadseg_loop :: "nat \<Rightarrow> u64 \<Rightarrow> u64 \<Rightarrow> nat \<Rightarrow> u32 \<Rightarrow> u32 \<Rightarrow> u32 \<Rightarrow> ('a kfs_scheme, int) op" where
  "loadseg_loop 0 pt va ip offset sz i = (\<lambda>s. Hang)"
| "loadseg_loop (Suc k) pt va ip offset sz i =
     (if \<not> i < sz then kret 0 else
      kbind (walkaddr pt (va + ucast i)) (\<lambda>pa.
      if pa = 0 then kpanic ''loadseg: address should exist'' else
      let n = (if sz - i < 4096 then sz - i else 4096) in
      kbind (readi ip (MemDst pa) (offset + i) n) (\<lambda>(r, _).
      if word_of_int r \<noteq> n then kret (- 1)
      else loadseg_loop k pt va ip offset sz (i + 4096))))"

text \<open>A segment of \<open>sz\<close> bytes takes at most \<open>sz div 4096 + 1\<close> pages.\<close>

definition loadseg :: "u64 \<Rightarrow> u64 \<Rightarrow> nat \<Rightarrow> u32 \<Rightarrow> u32 \<Rightarrow> ('a kfs_scheme, int) op" where
  "loadseg pt va ip offset sz = loadseg_loop (unat sz div 4096 + 2) pt va ip offset sz 0"

text \<open>
  The loop over the program headers.  The result is whether it ended well, with the value of
  \<^verbatim>\<open>sz\<close>, which the error path needs too.
\<close>

primrec load_segments :: "nat \<Rightarrow> nat \<Rightarrow> u64 \<Rightarrow> u32 \<Rightarrow> u64 \<Rightarrow> ('a kfs_scheme, bool \<times> u64) op" where
  "load_segments 0 ip pt off sz = kret (True, sz)"
| "load_segments (Suc k) ip pt off sz =
     kbind (readi ip ObjDst off ph_size) (\<lambda>(r, bs).
     if r \<noteq> uint ph_size then kret (False, sz) else
     let ph = get_proghdr bs in
     if ph_type ph \<noteq> ELF_PROG_LOAD then load_segments k ip pt (off + ph_size) sz else
     if ph_memsz ph < ph_filesz ph then kret (False, sz) else
     if ph_vaddr ph + ph_memsz ph < ph_vaddr ph then kret (False, sz) else
     kbind (uvmalloc pt sz (ph_vaddr ph + ph_memsz ph)) (\<lambda>sz1.
     if sz1 = 0 then kret (False, sz) else
     if ph_vaddr ph mod PGSIZE \<noteq> 0 then kret (False, sz1) else
     kbind (loadseg pt (ph_vaddr ph) ip (ucast (ph_off ph)) (ucast (ph_filesz ph))) (\<lambda>r.
     if r < 0 then kret (False, sz1)
     else load_segments k ip pt (off + ph_size) sz1)))"

section \<open>Arguments\<close>

text \<open>The string a kernel pointer leads to, with its NUL.\<close>

definition kstring :: "u64 \<Rightarrow> ('a kmem_scheme, u8 list) op" where
  "kstring a = kbind (kget (\<lambda>s. strlen a (mem s))) (\<lambda>lo.
     case lo of None \<Rightarrow> (\<lambda>s. Hang) | Some l \<Rightarrow> kget (\<lambda>s. bytes_at (l + 1) a (mem s)))"

definition align16 :: "u64 \<Rightarrow> u64" where
  "align16 sp = sp - sp mod 16"

text \<open>
  The loop that pushes the argument strings: \<open>None\<close> on the error path, else the stack pointer and
  the addresses pushed.
\<close>

primrec push_args :: "u64 list \<Rightarrow> u64 \<Rightarrow> u64 \<Rightarrow> u64 \<Rightarrow> u64 list \<Rightarrow> ('a kmem_scheme, (u64 \<times> u64 list) option) op" where
  "push_args [] pt stackbase sp ustack = kret (Some (sp, ustack))"
| "push_args (a # as) pt stackbase sp ustack =
     (if length ustack \<ge> MAXARG then kret None else
      kbind (kstring a) (\<lambda>str.
      let sp' = align16 (sp - of_nat (length str)) in
      if sp' < stackbase then kret None else
      kbind (copyout pt sp' str) (\<lambda>r.
      if r < 0 then kret None
      else push_args as pt stackbase sp' (ustack @ [sp']))))"

definition basename :: "u8 list \<Rightarrow> u8 list" where
  "basename path = rev (takeWhile (\<lambda>c. c \<noteq> slash) (rev path))"

section \<open>exec\<close>

definition exec_bad :: "u64 \<Rightarrow> u64 \<Rightarrow> nat option \<Rightarrow> ('a kproc_scheme, int) op" where
  "exec_bad pt sz ipo =
     kthen (kwhen (pt \<noteq> 0) (proc_freepagetable pt sz)) (
     kthen (case ipo of None \<Rightarrow> kret () | Some ip \<Rightarrow> kthen (iunlockput (Some ip)) end_op)
     (kret (- 1)))"

text \<open>From the arguments on: the new image is complete but for its stack.\<close>

definition exec_stack :: "nat \<Rightarrow> u8 list \<Rightarrow> u64 list \<Rightarrow> u64 \<Rightarrow> u64 \<Rightarrow> u64 \<Rightarrow> ('a kproc_scheme, int) op" where
  "exec_stack p path argv entry pt sz0 =
     kbind (kget (\<lambda>s. p_sz (proc_at p s))) (\<lambda>oldsz.
     let sz = PGROUNDUP sz0 in
     kbind (uvmalloc pt sz (sz + 2 * PGSIZE)) (\<lambda>sz1.
     if sz1 = 0 then exec_bad pt sz None else
     kthen (uvmclear pt (sz1 - 2 * PGSIZE)) (
     let stackbase = sz1 - PGSIZE in
     kbind (push_args argv pt stackbase sz1 []) (\<lambda>pushed.
     case pushed of None \<Rightarrow> exec_bad pt sz1 None | Some (sp0, ustack) \<Rightarrow>
     if length ustack \<ge> MAXARG then out_of_bounds else
     let argc = length ustack;
         sp = align16 (sp0 - of_nat ((argc + 1) * 8)) in
     if sp < stackbase then exec_bad pt sz1 None else
     kbind (copyout pt sp (concat (map (bytes_of_word 8) (ustack @ [0])))) (\<lambda>r.
     if r < 0 then exec_bad pt sz1 None else
     kthen (tf_set p (tf_a 1) sp) (
     kbind (kget (\<lambda>s. p_pagetable (proc_at p s))) (\<lambda>oldpt.
     kthen (set_proc p (\<lambda>q. q\<lparr>p_name := safestrcpy_l 16 (p_name q) (basename path), p_pagetable := pt, p_sz := sz1\<rparr>)) (
     kthen (tf_set p tf_epc entry) (
     kthen (tf_set p tf_sp sp) (
     kthen (proc_freepagetable oldpt oldsz)
     (kret (int argc))))))))))))"

definition exec :: "u8 list \<Rightarrow> u64 list \<Rightarrow> ('a kproc_scheme, int) op" where
  "exec path argv = with_myproc (\<lambda>p.
     kthen begin_op (
     kbind (namei path) (\<lambda>ipo.
     case ipo of None \<Rightarrow> kthen end_op (kret (- 1)) | Some ip \<Rightarrow>
     kthen (ilock (Some ip)) (
     kbind (readi ip ObjDst 0 elf_size) (\<lambda>(r, bs).
     if r \<noteq> uint elf_size then exec_bad 0 0 (Some ip) else
     let elf = get_elfhdr bs in
     if elf_magic elf \<noteq> ELF_MAGIC then exec_bad 0 0 (Some ip) else
     kbind (proc_pagetable p) (\<lambda>pt.
     if pt = 0 then exec_bad 0 0 (Some ip) else
     kbind (load_segments (unat (elf_phnum elf)) ip pt (ucast (elf_phoff elf)) 0) (\<lambda>(ok, sz).
     if \<not> ok then exec_bad pt sz (Some ip) else
     kthen (iunlockput (Some ip)) (
     kthen end_op
     (exec_stack p path argv (elf_entry elf) pt sz)))))))))"

end
