(* ===== verification/Syscall.thy ===== *)
theory Syscall
  imports Exec
begin

text \<open>
  The system calls: fetching of arguments and dispatch (\<^verbatim>\<open>kernel/syscall.c\<close>), the calls on
  processes (\<^verbatim>\<open>kernel/sysproc.c\<close>) and those on files (\<^verbatim>\<open>kernel/sysfile.c\<close>).  A call returns the
  64-bit value that goes to register \<^verbatim>\<open>a0\<close>; an \<^verbatim>\<open>int\<close> is sign-extended to it.
\<close>

section \<open>Arguments\<close>

definition ret :: "int \<Rightarrow> u64" where
  "ret i = word_of_int i"

definition as_int :: "u64 \<Rightarrow> int" where
  "as_int w = sint (ucast w :: u32)"

definition fetchaddr :: "u64 \<Rightarrow> ('a kmem_scheme, int \<times> u64) op" where
  "fetchaddr addr = with_myproc (\<lambda>p.
     kbind (kget (proc_at p)) (\<lambda>q.
     if addr \<ge> p_sz q \<or> addr + 8 > p_sz q then kret (- 1, 0) else
     kbind (copyin (p_pagetable q) addr 8) (\<lambda>(r, bs).
     if r \<noteq> 0 then kret (- 1, 0) else kret (0, word_of_bytes bs))))"

text \<open>The buffer after \<^verbatim>\<open>fetchstr\<close> is the second component.\<close>

definition fetchstr :: "u64 \<Rightarrow> u64 \<Rightarrow> ('a kmem_scheme, int \<times> u8 list) op" where
  "fetchstr addr mx = with_myproc (\<lambda>p.
     kbind (kget (\<lambda>s. p_pagetable (proc_at p s))) (\<lambda>pt.
     kbind (copyinstr pt addr mx) (\<lambda>(err, bs).
     if err < 0 then kret (err, bs)
     else kret (int (length (takeWhile (\<lambda>c. c \<noteq> 0) bs)), bs))))"

definition argraw :: "nat \<Rightarrow> ('a kmem_scheme, u64) op" where
  "argraw n = with_myproc (\<lambda>p. if n \<le> 5 then tf_get p (tf_a n) else kpanic ''argraw'')"

definition argint :: "nat \<Rightarrow> ('a kmem_scheme, int) op" where
  "argint n = kbind (argraw n) (\<lambda>w. kret (as_int w))"

definition argaddr :: "nat \<Rightarrow> ('a kmem_scheme, u64) op" where
  "argaddr n = argraw n"

definition argstr :: "nat \<Rightarrow> u64 \<Rightarrow> ('a kmem_scheme, int \<times> u8 list) op" where
  "argstr n mx = kbind (argaddr n) (\<lambda>addr. fetchstr addr mx)"

text \<open>A path argument: \<open>None\<close> when it cannot be fetched.\<close>

definition argpath :: "nat \<Rightarrow> ('a kmem_scheme, u8 list option) op" where
  "argpath n = kbind (argstr n (of_nat MAXPATH)) (\<lambda>(r, bs).
     kret (if r < 0 then None else Some (takeWhile (\<lambda>c. c \<noteq> 0) bs)))"

section \<open>Calls on processes\<close>

definition sys_exit :: "('a kproc_scheme, u64) op" where
  "sys_exit = kbind (argint 0) (\<lambda>n. kthen (exit n) (kret 0))"

definition sys_getpid :: "('a kproc_scheme, u64) op" where
  "sys_getpid = with_myproc (\<lambda>p. kget (\<lambda>s. ret (p_pid (proc_at p s))))"

definition sys_fork :: "('a kproc_scheme, u64) op" where
  "sys_fork = kbind fork (\<lambda>r. kret (ret r))"

definition sys_wait :: "('a kproc_scheme, u64) op" where
  "sys_wait = kbind (argaddr 0) (\<lambda>a. kbind (wait a) (\<lambda>r. kret (ret r)))"

definition sys_sbrk :: "('a kproc_scheme, u64) op" where
  "sys_sbrk =
     kbind (argint 0) (\<lambda>n.
     with_myproc (\<lambda>p.
     kbind (kget (\<lambda>s. as_int (p_sz (proc_at p s)))) (\<lambda>addr.
     kbind (growproc n) (\<lambda>r.
     kret (ret (if r < 0 then - 1 else addr))))))"

definition sys_sleep_turn :: "u32 \<Rightarrow> int \<Rightarrow> ('a kproc_scheme, u64) op" where
  "sys_sleep_turn ticks0 n =
     kbind (kget ticks) (\<lambda>t.
     if t - ticks0 < word_of_int n then
       with_myproc (\<lambda>p.
       kbind (kget (\<lambda>s. p_killed (proc_at p s))) (\<lambda>killed.
       if killed then kthen (release LTicks) (kret (ret (- 1)))
       else kthen (sleep ChTicks LTicks) (kret 0)))
     else
       kthen (release LTicks) (kret 0))"

definition sys_sleep :: "('a kproc_scheme, u64) op" where
  "sys_sleep =
     kbind (argint 0) (\<lambda>n.
     kthen (acquire LTicks) (
     kbind (kget ticks) (\<lambda>ticks0.
     sys_sleep_turn ticks0 n)))"

definition sys_sleep_resume :: "nat \<Rightarrow> u32 \<Rightarrow> int \<Rightarrow> ('a kproc_scheme, u64) op" where
  "sys_sleep_resume p ticks0 n = kthen (sleep_resume p LTicks) (sys_sleep_turn ticks0 n)"

definition sys_kill :: "('a kproc_scheme, u64) op" where
  "sys_kill = kbind (argint 0) (\<lambda>pid. kbind (kill pid) (\<lambda>r. kret (ret r)))"

definition sys_uptime :: "('a kproc_scheme, u64) op" where
  "sys_uptime =
     kthen (acquire LTicks) (
     kbind (kget ticks) (\<lambda>t.
     kthen (release LTicks)
     (kret (ucast t))))"

section \<open>File descriptors\<close>

definition argfd :: "nat \<Rightarrow> ('a kproc_scheme, (nat \<times> nat) option) op" where
  "argfd n =
     kbind (argint n) (\<lambda>fd.
     if fd < 0 \<or> fd \<ge> int NOFILE then kret None else
     with_myproc (\<lambda>p.
     kbind (kget (\<lambda>s. p_ofile (proc_at p s) ! nat fd)) (\<lambda>fo.
     case fo of None \<Rightarrow> kret None | Some f \<Rightarrow> kret (Some (nat fd, f)))))"

definition fdalloc :: "nat \<Rightarrow> ('a kproc_scheme, int) op" where
  "fdalloc f = with_myproc (\<lambda>p.
     kbind (kget (\<lambda>s. p_ofile (proc_at p s))) (\<lambda>fds.
     case find (\<lambda>fd. fds ! fd = None) [0..<NOFILE] of
       Some fd \<Rightarrow> kthen (set_proc p (\<lambda>q. q\<lparr>p_ofile := (p_ofile q)[fd := Some f]\<rparr>)) (kret (int fd))
     | None \<Rightarrow> kret (- 1)))"

definition clear_fd :: "nat \<Rightarrow> ('a kproc_scheme, unit) op" where
  "clear_fd fd = with_myproc (\<lambda>p. set_proc p (\<lambda>q. q\<lparr>p_ofile := (p_ofile q)[fd := None]\<rparr>))"

definition sys_dup :: "('a kproc_scheme, u64) op" where
  "sys_dup =
     kbind (argfd 0) (\<lambda>a.
     case a of None \<Rightarrow> kret (ret (- 1)) | Some (_, f) \<Rightarrow>
     kbind (fdalloc f) (\<lambda>fd.
     if fd < 0 then kret (ret (- 1)) else
     kthen (filedup f) (kret (ret fd))))"

definition sys_read :: "('a kproc_scheme, u64) op" where
  "sys_read =
     kbind (argfd 0) (\<lambda>a.
     case a of None \<Rightarrow> kret (ret (- 1)) | Some (_, f) \<Rightarrow>
     kbind (argint 2) (\<lambda>n.
     kbind (argaddr 1) (\<lambda>p.
     kbind (fileread f p n) (\<lambda>r. kret (ret r)))))"

definition sys_write :: "('a kproc_scheme, u64) op" where
  "sys_write =
     kbind (argfd 0) (\<lambda>a.
     case a of None \<Rightarrow> kret (ret (- 1)) | Some (_, f) \<Rightarrow>
     kbind (argint 2) (\<lambda>n.
     kbind (argaddr 1) (\<lambda>p.
     kbind (filewrite f p n) (\<lambda>r. kret (ret r)))))"

definition sys_close :: "('a kproc_scheme, u64) op" where
  "sys_close =
     kbind (argfd 0) (\<lambda>a.
     case a of None \<Rightarrow> kret (ret (- 1)) | Some (fd, f) \<Rightarrow>
     kthen (clear_fd fd) (
     kthen (fileclose f)
     (kret 0)))"

definition sys_fstat :: "('a kproc_scheme, u64) op" where
  "sys_fstat =
     kbind (argfd 0) (\<lambda>a.
     case a of None \<Rightarrow> kret (ret (- 1)) | Some (_, f) \<Rightarrow>
     kbind (argaddr 1) (\<lambda>st.
     kbind (filestat f st) (\<lambda>r. kret (ret r))))"

section \<open>Directories\<close>

definition fail_op :: "('a kfs_scheme, u64) op" where
  "fail_op = kthen end_op (kret (- 1))"

definition sys_link_bad :: "nat \<Rightarrow> ('a kfs_scheme, u64) op" where
  "sys_link_bad ip =
     kthen (ilock (Some ip)) (
     kthen (set_inode ip (\<lambda>i. i\<lparr>i_nlink := i_nlink i - 1\<rparr>)) (
     kthen (iupdate ip) (
     kthen (iunlockput (Some ip))
     fail_op)))"

definition sys_link :: "('a kproc_scheme, u64) op" where
  "sys_link =
     kbind (argpath 0) (\<lambda>oldo.
     case oldo of None \<Rightarrow> kret (ret (- 1)) | Some old \<Rightarrow>
     kbind (argpath 1) (\<lambda>newo.
     case newo of None \<Rightarrow> kret (ret (- 1)) | Some new \<Rightarrow>
     kthen begin_op (
     kbind (namei old) (\<lambda>ipo.
     case ipo of None \<Rightarrow> fail_op | Some ip \<Rightarrow>
     kthen (ilock (Some ip)) (
     kbind (kget (\<lambda>s. i_type (inode_at ip s))) (\<lambda>ty.
     if ty = T_DIR then kthen (iunlockput (Some ip)) fail_op else
     kthen (set_inode ip (\<lambda>i. i\<lparr>i_nlink := i_nlink i + 1\<rparr>)) (
     kthen (iupdate ip) (
     kthen (iunlock (Some ip)) (
     kbind (nameiparent new (replicate DIRSIZ 0)) (\<lambda>(dpo, name).
     case dpo of None \<Rightarrow> sys_link_bad ip | Some dp \<Rightarrow>
     kthen (ilock (Some dp)) (
     kbind (kget (\<lambda>s. i_dev (inode_at dp s) \<noteq> i_dev (inode_at ip s))) (\<lambda>otherdev.
     kbind (if otherdev then kret (- 1) else
            kbind (kget (\<lambda>s. i_inum (inode_at ip s))) (\<lambda>inum. dirlink dp name inum)) (\<lambda>r.
     if r < 0 then kthen (iunlockput (Some dp)) (sys_link_bad ip) else
     kthen (iunlockput (Some dp)) (
     kthen (iput ip) (
     kthen end_op
     (kret 0))))))))))))))))"

text \<open>The loop of \<^verbatim>\<open>isdirempty\<close>, over the entries after the first two.\<close>

primrec isdirempty_loop :: "nat \<Rightarrow> nat \<Rightarrow> u32 \<Rightarrow> ('a kfs_scheme, bool) op" where
  "isdirempty_loop 0 dp off = (\<lambda>s. Hang)"
| "isdirempty_loop (Suc k) dp off =
     kbind (kget (\<lambda>s. i_size (inode_at dp s))) (\<lambda>size.
     if \<not> off < size then kret True else
     kbind (readi dp ObjDst off 16) (\<lambda>(r, de).
     if r \<noteq> 16 then kpanic ''isdirempty: readi'' else
     if de_inum de \<noteq> 0 then kret False else isdirempty_loop k dp (off + 16)))"

definition isdirempty :: "nat \<Rightarrow> ('a kfs_scheme, bool) op" where
  "isdirempty dp = kbind (kget (\<lambda>s. unat (i_size (inode_at dp s)))) (\<lambda>n. isdirempty_loop (n div 16 + 2) dp 32)"

definition dot :: "u8 list" where "dot = [46]"
definition dotdot :: "u8 list" where "dotdot = [46, 46]"

definition sys_unlink_bad :: "nat \<Rightarrow> ('a kfs_scheme, u64) op" where
  "sys_unlink_bad dp = kthen (iunlockput (Some dp)) fail_op"

definition sys_unlink :: "('a kproc_scheme, u64) op" where
  "sys_unlink =
     kbind (argpath 0) (\<lambda>patho.
     case patho of None \<Rightarrow> kret (ret (- 1)) | Some path \<Rightarrow>
     kthen begin_op (
     kbind (nameiparent path (replicate DIRSIZ 0)) (\<lambda>(dpo, name).
     case dpo of None \<Rightarrow> fail_op | Some dp \<Rightarrow>
     kthen (ilock (Some dp)) (
     if namecmp name dot = 0 \<or> namecmp name dotdot = 0 then sys_unlink_bad dp else
     kbind (dirlookup dp name) (\<lambda>found.
     case found of None \<Rightarrow> sys_unlink_bad dp | Some (ip, off) \<Rightarrow>
     kthen (ilock (Some ip)) (
     kbind (kget (inode_at ip)) (\<lambda>i.
     if sint (i_nlink i) < 1 then kpanic ''unlink: nlink < 1'' else
     kbind (if i_type i = T_DIR then isdirempty ip else kret True) (\<lambda>empty.
     if \<not> empty then kthen (iunlockput (Some ip)) (sys_unlink_bad dp) else
     kbind (writei dp (ObjSrc (replicate 16 0)) off 16) (\<lambda>w.
     if w \<noteq> 16 then kpanic ''unlink: writei'' else
     kthen (kwhen (i_type i = T_DIR) (
       kthen (set_inode dp (\<lambda>d. d\<lparr>i_nlink := i_nlink d - 1\<rparr>))
       (iupdate dp))) (
     kthen (iunlockput (Some dp)) (
     kthen (set_inode ip (\<lambda>i. i\<lparr>i_nlink := i_nlink i - 1\<rparr>)) (
     kthen (iupdate ip) (
     kthen (iunlockput (Some ip)) (
     kthen end_op
     (kret 0)))))))))))))))"

text \<open>\<^verbatim>\<open>create\<close> returns the inode locked.\<close>

definition create :: "u8 list \<Rightarrow> u16 \<Rightarrow> u16 \<Rightarrow> u16 \<Rightarrow> ('a kfs_scheme, nat option) op" where
  "create path ty major minor =
     kbind (nameiparent path (replicate DIRSIZ 0)) (\<lambda>(dpo, name).
     case dpo of None \<Rightarrow> kret None | Some dp \<Rightarrow>
     kthen (ilock (Some dp)) (
     kbind (dirlookup dp name) (\<lambda>found.
     case found of
       Some (ip, _) \<Rightarrow>
         kthen (iunlockput (Some dp)) (
         kthen (ilock (Some ip)) (
         kbind (kget (\<lambda>s. i_type (inode_at ip s))) (\<lambda>t.
         if ty = T_FILE \<and> (t = T_FILE \<or> t = T_DEVICE) then kret (Some ip) else
         kthen (iunlockput (Some ip)) (kret None))))
     | None \<Rightarrow>
         kbind (kget (\<lambda>s. i_dev (inode_at dp s))) (\<lambda>dev.
         kbind (ialloc dev ty) (\<lambda>ip.
         kthen (ilock (Some ip)) (
         kthen (set_inode ip (\<lambda>i. i\<lparr>i_major := major, i_minor := minor, i_nlink := 1\<rparr>)) (
         kthen (iupdate ip) (
         kbind (kget (\<lambda>s. i_inum (inode_at ip s))) (\<lambda>inum.
         kthen (kwhen (ty = T_DIR) (
           kthen (set_inode dp (\<lambda>d. d\<lparr>i_nlink := i_nlink d + 1\<rparr>)) (
           kthen (iupdate dp) (
           kbind (kget (\<lambda>s. i_inum (inode_at dp s))) (\<lambda>dinum.
           kbind (dirlink ip dot inum) (\<lambda>r.
           if r < 0 then kpanic ''create dots'' else
           kbind (dirlink ip dotdot dinum) (\<lambda>r.
           if r < 0 then kpanic ''create dots'' else kret ()))))))) (
         kbind (dirlink dp name inum) (\<lambda>r.
         if r < 0 then kpanic ''create: dirlink'' else
         kthen (iunlockput (Some dp))
         (kret (Some ip)))))))))))))"

section \<open>Open\<close>

definition O_RDONLY :: u32 where "O_RDONLY = 0"
definition O_WRONLY :: u32 where "O_WRONLY = 1"
definition O_RDWR :: u32 where "O_RDWR = 2"
definition O_CREATE :: u32 where "O_CREATE = 0x200"
definition O_TRUNC :: u32 where "O_TRUNC = 0x400"

text \<open>The first half of \<^verbatim>\<open>sys_open\<close>: the inode, locked.\<close>

definition open_inode :: "u8 list \<Rightarrow> u32 \<Rightarrow> ('a kfs_scheme, nat option) op" where
  "open_inode path omode =
     (if omode AND O_CREATE \<noteq> 0 then create path T_FILE 0 0 else
      kbind (namei path) (\<lambda>ipo.
      case ipo of None \<Rightarrow> kret None | Some ip \<Rightarrow>
      kthen (ilock (Some ip)) (
      kbind (kget (\<lambda>s. i_type (inode_at ip s))) (\<lambda>ty.
      if ty = T_DIR \<and> omode \<noteq> O_RDONLY then kthen (iunlockput (Some ip)) (kret None)
      else kret (Some ip)))))"

definition open_file :: "nat \<Rightarrow> inode \<Rightarrow> u32 \<Rightarrow> ofile \<Rightarrow> ofile" where
  "open_file ip i omode f =
     (if i_type i = T_DEVICE then f\<lparr>f_type := FD_DEVICE, f_major := i_major i\<rparr> else f\<lparr>f_type := FD_INODE, f_off := 0\<rparr>)
     \<lparr>f_ip := Some ip, f_readable := (omode AND O_WRONLY = 0),
      f_writable := (omode AND O_WRONLY \<noteq> 0 \<or> omode AND O_RDWR \<noteq> 0)\<rparr>"

definition sys_open :: "('a kproc_scheme, u64) op" where
  "sys_open =
     kbind (argpath 0) (\<lambda>patho.
     case patho of None \<Rightarrow> kret (ret (- 1)) | Some path \<Rightarrow>
     kbind (argraw 1) (\<lambda>w.
     let omode = ucast w in
     kthen begin_op (
     kbind (open_inode path omode) (\<lambda>ipo.
     case ipo of None \<Rightarrow> fail_op | Some ip \<Rightarrow>
     kbind (kget (inode_at ip)) (\<lambda>i.
     if i_type i = T_DEVICE \<and> (sint (i_major i) < 0 \<or> sint (i_major i) \<ge> int NDEV)
     then kthen (iunlockput (Some ip)) fail_op else
     kbind filealloc (\<lambda>fo.
     case fo of None \<Rightarrow> kthen (iunlockput (Some ip)) fail_op | Some f \<Rightarrow>
     kbind (fdalloc f) (\<lambda>fd.
     if fd < 0 then kthen (fileclose f) (kthen (iunlockput (Some ip)) fail_op) else
     kthen (set_file f (open_file ip i omode)) (
     kthen (kwhen (omode AND O_TRUNC \<noteq> 0 \<and> i_type i = T_FILE) (itrunc ip)) (
     kthen (iunlock (Some ip)) (
     kthen end_op
     (kret (ret fd))))))))))))"

definition sys_mkdir :: "('a kproc_scheme, u64) op" where
  "sys_mkdir =
     kthen begin_op (
     kbind (argpath 0) (\<lambda>patho.
     case patho of None \<Rightarrow> fail_op | Some path \<Rightarrow>
     kbind (create path T_DIR 0 0) (\<lambda>ipo.
     case ipo of None \<Rightarrow> fail_op | Some ip \<Rightarrow>
     kthen (iunlockput (Some ip)) (
     kthen end_op
     (kret 0)))))"

definition sys_mknod :: "('a kproc_scheme, u64) op" where
  "sys_mknod =
     kthen begin_op (
     kbind (argpath 0) (\<lambda>patho.
     case patho of None \<Rightarrow> fail_op | Some path \<Rightarrow>
     kbind (argraw 1) (\<lambda>major.
     kbind (argraw 2) (\<lambda>minor.
     kbind (create path T_DEVICE (ucast major) (ucast minor)) (\<lambda>ipo.
     case ipo of None \<Rightarrow> fail_op | Some ip \<Rightarrow>
     kthen (iunlockput (Some ip)) (
     kthen end_op
     (kret 0)))))))"

definition sys_chdir :: "('a kproc_scheme, u64) op" where
  "sys_chdir = with_myproc (\<lambda>p.
     kthen begin_op (
     kbind (argpath 0) (\<lambda>patho.
     case patho of None \<Rightarrow> fail_op | Some path \<Rightarrow>
     kbind (namei path) (\<lambda>ipo.
     case ipo of None \<Rightarrow> fail_op | Some ip \<Rightarrow>
     kthen (ilock (Some ip)) (
     kbind (kget (\<lambda>s. i_type (inode_at ip s))) (\<lambda>ty.
     if ty \<noteq> T_DIR then kthen (iunlockput (Some ip)) fail_op else
     kthen (iunlock (Some ip)) (
     kbind (kget (\<lambda>s. p_cwd (proc_at p s))) (\<lambda>cwd.
     kthen (iput_ptr cwd) (
     kthen end_op (
     kthen (set_proc p (\<lambda>q. q\<lparr>p_cwd := Some ip\<rparr>))
     (kret 0)))))))))))"

section \<open>Exec and pipe\<close>

text \<open>The loop of \<^verbatim>\<open>sys_exec\<close>: whether the arguments were fetched, and the pages they took.\<close>

primrec fetch_argv :: "nat \<Rightarrow> u64 \<Rightarrow> u64 list \<Rightarrow> ('a kproc_scheme, bool \<times> u64 list) op" where
  "fetch_argv 0 uargv argv = kret (False, argv)"
| "fetch_argv (Suc k) uargv argv =
     kbind (fetchaddr (uargv + 8 * of_nat (length argv))) (\<lambda>(r, uarg).
     if r < 0 then kret (False, argv) else
     if uarg = 0 then kret (True, argv) else
     kbind kalloc (\<lambda>pg.
     if pg = 0 then kret (False, argv) else
     kbind (fetchstr uarg PGSIZE) (\<lambda>(r, bs).
     kthen (kmod (\<lambda>s. s\<lparr>mem := write_bytes pg bs (mem s)\<rparr>))
     (if r < 0 then kret (False, argv @ [pg]) else fetch_argv k uargv (argv @ [pg])))))"

primrec free_argv :: "u64 list \<Rightarrow> ('a kmem_scheme, unit) op" where
  "free_argv [] = kret ()"
| "free_argv (a # as) = kthen (kfree a) (free_argv as)"

definition sys_exec :: "('a kproc_scheme, u64) op" where
  "sys_exec =
     kbind (argpath 0) (\<lambda>patho.
     case patho of None \<Rightarrow> kret (ret (- 1)) | Some path \<Rightarrow>
     kbind (argaddr 1) (\<lambda>uargv.
     kbind (fetch_argv MAXARG uargv []) (\<lambda>(ok, argv).
     if \<not> ok then kthen (free_argv argv) (kret (ret (- 1))) else
     kbind (exec path argv) (\<lambda>r.
     kthen (free_argv argv)
     (kret (ret r))))))"

definition close_both :: "nat \<Rightarrow> nat \<Rightarrow> ('a kfile_scheme, u64) op" where
  "close_both rfl wfl = kthen (fileclose rfl) (kthen (fileclose wfl) (kret (ret (- 1))))"

definition sys_pipe :: "('a kproc_scheme, u64) op" where
  "sys_pipe = with_myproc (\<lambda>p.
     kbind (argaddr 0) (\<lambda>fdarray.
     kbind pipealloc (\<lambda>fs.
     case fs of None \<Rightarrow> kret (ret (- 1)) | Some (rfl, wfl) \<Rightarrow>
     kbind (fdalloc rfl) (\<lambda>fd0.
     if fd0 < 0 then close_both rfl wfl else
     kbind (fdalloc wfl) (\<lambda>fd1.
     if fd1 < 0 then kthen (clear_fd (nat fd0)) (close_both rfl wfl) else
     kbind (kget (\<lambda>s. p_pagetable (proc_at p s))) (\<lambda>pt.
     kbind (copyout pt fdarray (bytes_of_word 4 (word_of_int fd0 :: u32))) (\<lambda>r0.
     kbind (if r0 < 0 then kret (- 1) else copyout pt (fdarray + 4) (bytes_of_word 4 (word_of_int fd1 :: u32))) (\<lambda>r1.
     if r1 < 0 then
       kthen (clear_fd (nat fd0)) (
       kthen (clear_fd (nat fd1))
       (close_both rfl wfl))
     else kret 0))))))))"

section \<open>Dispatch\<close>

definition syscalls :: "('a kproc_scheme, u64) op option list" where
  "syscalls = [None, Some sys_fork, Some sys_exit, Some sys_wait, Some sys_pipe, Some sys_read, Some sys_kill,
     Some sys_exec, Some sys_fstat, Some sys_chdir, Some sys_dup, Some sys_getpid, Some sys_sbrk, Some sys_sleep,
     Some sys_uptime, Some sys_open, Some sys_write, Some sys_mknod, Some sys_unlink, Some sys_link, Some sys_mkdir,
     Some sys_close]"

definition syscall :: "('a kproc_scheme, unit) op" where
  "syscall = with_myproc (\<lambda>p.
     kbind (tf_get p (tf_a 7)) (\<lambda>a7.
     let num = as_int a7 in
     case (if num > 0 \<and> num < int (length (syscalls :: ('a kproc_scheme, u64) op option list)) then syscalls ! nat num else None) of
       Some f \<Rightarrow> kbind f (\<lambda>r. tf_set p (tf_a 0) r)
     | None \<Rightarrow>
         kbind (kget (proc_at p)) (\<lambda>q.
         kthen (printf (Some (str_bytes ''%d %s: unknown sys call %d'' @ [10])) [AInt (p_pid q), AStr (Some (p_name q)), AInt num])
         (tf_set p (tf_a 0) (- 1)))))"

end
