(* ===== verification/Virtio.thy ===== *)
theory Virtio
  imports Proc
begin

text \<open>
  \<^verbatim>\<open>kernel/virtio_disk.c\<close>: the driver of the disk.  Driver and device share the descriptor
  table, the ring of available requests and the ring of finished ones; the state \<open>kvio\<close> has them with
  the driver's own book-keeping.  An address handed to the device names the object it leads to: a
  request header, the data of a buffer or a status byte.

  \<^verbatim>\<open>virtio_disk_rw\<close> sleeps until the interrupt handler has seen its request finished, so its
  code is cut at the two places where it sleeps: \<open>virtio_disk_rw\<close> runs up to the first sleep, and
  \<open>virtio_resume_alloc\<close> and \<open>virtio_resume_wait\<close> from the one or the other.
\<close>

section \<open>State\<close>

definition NUM :: nat where [simp]: "NUM = 8"

datatype vaddr = VNull | VOps nat | VData nat | VStatus nat

record virtq_desc =
  vq_addr :: vaddr
  vq_len :: u32
  vq_flags :: u16
  vq_next :: u16

record virtio_blk_req =
  vr_type :: u32
  vr_reserved :: u32
  vr_sector :: u64

text \<open>
  \<open>vreg\<close> has the values the device's registers read as, \<open>vreg_wr\<close> the writes to them in order, and
  \<open>vpages\<close> is the address of \<^verbatim>\<open>disk.pages\<close>.
\<close>

record kvio = kproc +
  vd_desc :: "virtq_desc list"
  vd_avail_idx :: u16
  vd_avail_ring :: "u16 list"
  vd_used_dev_idx :: u16
  vd_used_ring :: "u32 list"
  vd_free :: "bool list"
  vd_used_idx :: u16
  vd_info_b :: "nat option list"
  vd_info_status :: "u8 list"
  vd_ops :: "virtio_blk_req list"
  vreg :: "nat \<Rightarrow> u32"
  vreg_wr :: "(nat \<times> u32) list"
  vpages :: u64

definition VRING_DESC_F_NEXT :: u16 where "VRING_DESC_F_NEXT = 1"
definition VRING_DESC_F_WRITE :: u16 where "VRING_DESC_F_WRITE = 2"
definition VIRTIO_BLK_T_IN :: u32 where "VIRTIO_BLK_T_IN = 0"
definition VIRTIO_BLK_T_OUT :: u32 where "VIRTIO_BLK_T_OUT = 1"

definition null_desc :: virtq_desc where
  "null_desc = \<lparr>vq_addr = VNull, vq_len = 0, vq_flags = 0, vq_next = 0\<rparr>"

definition vreg_read :: "nat \<Rightarrow> ('a kvio_scheme, u32) op" where
  "vreg_read r = kget (\<lambda>s. vreg s r)"

definition vreg_write :: "nat \<Rightarrow> u32 \<Rightarrow> ('a kvio_scheme, unit) op" where
  "vreg_write r v = kmod (\<lambda>s. s\<lparr>vreg_wr := vreg_wr s @ [(r, v)]\<rparr>)"

section \<open>Initialisation\<close>

definition clear_bits :: "nat list \<Rightarrow> u32 \<Rightarrow> u32" where
  "clear_bits bs w = fold (\<lambda>b w. w AND NOT (push_bit b 1)) bs w"

definition virtio_disk_init :: "('a kvio_scheme, unit) op" where
  "virtio_disk_init =
     kbind (vreg_read 0x000) (\<lambda>magic.
     kbind (vreg_read 0x004) (\<lambda>version.
     kbind (vreg_read 0x008) (\<lambda>device.
     kbind (vreg_read 0x00c) (\<lambda>vendor.
     if magic \<noteq> 0x74726976 \<or> version \<noteq> 1 \<or> device \<noteq> 2 \<or> vendor \<noteq> 0x554d4551
     then kpanic ''could not find virtio disk'' else
     kthen (vreg_write 0x070 1) (
     kthen (vreg_write 0x070 (1 OR 2)) (
     kbind (vreg_read 0x010) (\<lambda>features.
     kthen (vreg_write 0x020 (clear_bits [5, 7, 11, 12, 27, 29, 28] features)) (
     kthen (vreg_write 0x070 (1 OR 2 OR 8)) (
     kthen (vreg_write 0x070 (1 OR 2 OR 8 OR 4)) (
     kthen (vreg_write 0x028 4096) (
     kthen (vreg_write 0x030 0) (
     kbind (vreg_read 0x034) (\<lambda>qmax.
     if qmax = 0 then kpanic ''virtio disk has no queue 0'' else
     if qmax < of_nat NUM then kpanic ''virtio disk max queue too short'' else
     kthen (vreg_write 0x038 (of_nat NUM)) (
     kthen (kmod (\<lambda>s. s\<lparr>vd_desc := replicate NUM null_desc, vd_avail_idx := 0, vd_avail_ring := replicate NUM 0,
                        vd_used_dev_idx := 0, vd_used_ring := replicate NUM 0\<rparr>)) (
     kbind (kget vpages) (\<lambda>pages.
     kthen (vreg_write 0x040 (ucast (drop_bit PGSHIFT pages)))
     (kmod (\<lambda>s. s\<lparr>vd_free := replicate NUM True\<rparr>))))))))))))))))))"

section \<open>Descriptors\<close>

definition alloc_desc :: "('a kvio_scheme, nat option) op" where
  "alloc_desc =
     kbind (kget vd_free) (\<lambda>fr.
     case find (\<lambda>i. fr ! i) [0..<NUM] of
       None \<Rightarrow> kret None
     | Some i \<Rightarrow> kthen (kmod (\<lambda>s. s\<lparr>vd_free := (vd_free s)[i := False]\<rparr>)) (kret (Some i)))"

definition free_desc :: "nat \<Rightarrow> ('a kvio_scheme, unit) op" where
  "free_desc i =
     (if i \<ge> NUM then kpanic ''free_desc 1'' else
      kbind (kget (\<lambda>s. vd_free s ! i)) (\<lambda>fr.
      if fr then kpanic ''free_desc 2'' else
      kthen (kmod (\<lambda>s. s\<lparr>vd_desc := (vd_desc s)[i := null_desc], vd_free := (vd_free s)[i := True]\<rparr>))
      (wakeup ChDiskFree)))"

text \<open>The loop of \<^verbatim>\<open>free_chain\<close>: freeing a descriptor twice panics, so it ends within \<^verbatim>\<open>NUM\<close> turns.\<close>

primrec free_chain_loop :: "nat \<Rightarrow> nat \<Rightarrow> ('a kvio_scheme, unit) op" where
  "free_chain_loop 0 i = (\<lambda>s. Hang)"
| "free_chain_loop (Suc k) i =
     (if i \<ge> NUM then out_of_bounds else
      kbind (kget (\<lambda>s. vd_desc s ! i)) (\<lambda>d.
      kthen (free_desc i)
      (if vq_flags d AND VRING_DESC_F_NEXT \<noteq> 0 then free_chain_loop k (unat (vq_next d)) else kret ())))"

definition free_chain :: "nat \<Rightarrow> ('a kvio_scheme, unit) op" where
  "free_chain i = free_chain_loop (NUM + 1) i"

primrec free_descs :: "nat list \<Rightarrow> ('a kvio_scheme, unit) op" where
  "free_descs [] = kret ()"
| "free_descs (i # is) = kthen (free_desc i) (free_descs is)"

text \<open>The loop of \<^verbatim>\<open>alloc3_desc\<close>, \<open>k\<close> descriptors to go.\<close>

primrec alloc_descs :: "nat \<Rightarrow> nat list \<Rightarrow> ('a kvio_scheme, nat list option) op" where
  "alloc_descs 0 idx = kret (Some idx)"
| "alloc_descs (Suc k) idx =
     kbind alloc_desc (\<lambda>d.
     case d of
       None \<Rightarrow> kthen (free_descs idx) (kret None)
     | Some i \<Rightarrow> alloc_descs k (idx @ [i]))"

definition alloc3_desc :: "('a kvio_scheme, nat list option) op" where
  "alloc3_desc = alloc_descs 3 []"

section \<open>Requests\<close>

definition set_desc :: "nat \<Rightarrow> virtq_desc \<Rightarrow> ('a kvio_scheme, unit) op" where
  "set_desc i d = kmod (\<lambda>s. s\<lparr>vd_desc := (vd_desc s)[i := d]\<rparr>)"

text \<open>Formatting and handing over of a request on descriptors \<open>i0 i1 i2\<close>.\<close>

definition virtio_submit :: "nat \<Rightarrow> bool \<Rightarrow> nat \<Rightarrow> nat \<Rightarrow> nat \<Rightarrow> ('a kvio_scheme, unit) op" where
  "virtio_submit b wr i0 i1 i2 =
     kbind (kget (\<lambda>s. b_blockno (bufs s ! b))) (\<lambda>bno.
     let sector = (ucast (bno * of_nat (BSIZE div 512)) :: u64) in
     kthen (kmod (\<lambda>s. s\<lparr>vd_ops := (vd_ops s)[i0 := \<lparr>vr_type = (if wr then VIRTIO_BLK_T_OUT else VIRTIO_BLK_T_IN),
                                                     vr_reserved = 0, vr_sector = sector\<rparr>]\<rparr>)) (
     kthen (set_desc i0 \<lparr>vq_addr = VOps i0, vq_len = 16, vq_flags = VRING_DESC_F_NEXT, vq_next = of_nat i1\<rparr>) (
     kthen (set_desc i1 \<lparr>vq_addr = VData b, vq_len = of_nat BSIZE,
                         vq_flags = (if wr then 0 else VRING_DESC_F_WRITE) OR VRING_DESC_F_NEXT, vq_next = of_nat i2\<rparr>) (
     kthen (kmod (\<lambda>s. s\<lparr>vd_info_status := (vd_info_status s)[i0 := 0xff]\<rparr>)) (
     kthen (set_desc i2 \<lparr>vq_addr = VStatus i0, vq_len = 1, vq_flags = VRING_DESC_F_WRITE, vq_next = 0\<rparr>) (
     kthen (set_buf b (\<lambda>x. x\<lparr>b_disk := True\<rparr>)) (
     kthen (kmod (\<lambda>s. s\<lparr>vd_info_b := (vd_info_b s)[i0 := Some b]\<rparr>)) (
     kthen (kmod (\<lambda>s. s\<lparr>vd_avail_ring := (vd_avail_ring s)[unat (vd_avail_idx s) mod NUM := of_nat i0]\<rparr>)) (
     kthen (kmod (\<lambda>s. s\<lparr>vd_avail_idx := vd_avail_idx s + 1\<rparr>))
     (vreg_write 0x050 0))))))))))"

definition virtio_finish :: "nat \<Rightarrow> ('a kvio_scheme, unit) op" where
  "virtio_finish i0 =
     kthen (kmod (\<lambda>s. s\<lparr>vd_info_b := (vd_info_b s)[i0 := None]\<rparr>)) (
     kthen (free_chain i0)
     (release LVdisk))"

text \<open>The wait for the request to finish.\<close>

definition virtio_wait :: "nat \<Rightarrow> nat \<Rightarrow> ('a kvio_scheme, unit) op" where
  "virtio_wait b i0 =
     kbind (kget (\<lambda>s. b_disk (bufs s ! b))) (\<lambda>busy.
     if busy then sleep (ChBuf b) LVdisk else virtio_finish i0)"

definition virtio_turn :: "nat \<Rightarrow> bool \<Rightarrow> ('a kvio_scheme, unit) op" where
  "virtio_turn b wr =
     kbind alloc3_desc (\<lambda>r.
     case r of
       Some [i0, i1, i2] \<Rightarrow> kthen (virtio_submit b wr i0 i1 i2) (virtio_wait b i0)
     | _ \<Rightarrow> sleep ChDiskFree LVdisk)"

definition virtio_disk_rw :: "nat \<Rightarrow> bool \<Rightarrow> ('a kvio_scheme, unit) op" where
  "virtio_disk_rw b wr = kthen (acquire LVdisk) (virtio_turn b wr)"

definition virtio_resume_alloc :: "nat \<Rightarrow> nat \<Rightarrow> bool \<Rightarrow> ('a kvio_scheme, unit) op" where
  "virtio_resume_alloc p b wr = kthen (sleep_resume p LVdisk) (virtio_turn b wr)"

definition virtio_resume_wait :: "nat \<Rightarrow> nat \<Rightarrow> nat \<Rightarrow> ('a kvio_scheme, unit) op" where
  "virtio_resume_wait p b i0 = kthen (sleep_resume p LVdisk) (virtio_wait b i0)"

section \<open>Completion\<close>

primrec virtio_intr_loop :: "nat \<Rightarrow> ('a kvio_scheme, unit) op" where
  "virtio_intr_loop 0 = (\<lambda>s. Hang)"
| "virtio_intr_loop (Suc k) =
     kbind (kget vd_used_idx) (\<lambda>u.
     kbind (kget vd_used_dev_idx) (\<lambda>v.
     if u = v then kret () else
     kbind (kget (\<lambda>s. unat (vd_used_ring s ! (unat u mod NUM)))) (\<lambda>id.
     if id \<ge> NUM then out_of_bounds else
     kbind (kget (\<lambda>s. vd_info_status s ! id)) (\<lambda>st.
     if st \<noteq> 0 then kpanic ''virtio_disk_intr status'' else
     kbind (kget (\<lambda>s. vd_info_b s ! id)) (\<lambda>bo.
     case bo of None \<Rightarrow> kpanic ''kerneltrap'' | Some b \<Rightarrow>
     kthen (set_buf b (\<lambda>x. x\<lparr>b_disk := False\<rparr>)) (
     kthen (wakeup (ChBuf b)) (
     kthen (kmod (\<lambda>s. s\<lparr>vd_used_idx := vd_used_idx s + 1\<rparr>))
     (virtio_intr_loop k))))))))"

definition virtio_disk_intr :: "('a kvio_scheme, unit) op" where
  "virtio_disk_intr =
     kthen (acquire LVdisk) (
     kbind (vreg_read 0x060) (\<lambda>st.
     kthen (vreg_write 0x064 (st AND 3)) (
     kbind (kget (\<lambda>s. unat (vd_used_dev_idx s - vd_used_idx s))) (\<lambda>n.
     kthen (virtio_intr_loop (n + 1))
     (release LVdisk)))))"

end
