(* ===== verification/Trap.thy ===== *)
theory Trap
  imports Syscall Virtio
begin

text \<open>
  Traps and interrupts (\<^verbatim>\<open>kernel/trap.c\<close>), the interrupt controller (\<^verbatim>\<open>kernel/plic.c\<close>) and
  the start of a CPU (\<^verbatim>\<open>kernel/start.c\<close>, \<^verbatim>\<open>kernel/main.c\<close>).

  The state adds the control registers of the CPU that executes; the PLIC, like the UART, is what its
  register reads return (\<open>plic_rd\<close>, in order) and the writes to it.  \<^verbatim>\<open>usertrapret\<close> does not
  return: its value is the jump it ends in, target and two arguments.
\<close>

section \<open>State\<close>

record csrs =
  c_sstatus :: u64
  c_stvec :: u64
  c_sepc :: u64
  c_scause :: u64
  c_stval :: u64
  c_sip :: u64
  c_sie :: u64
  c_tp :: nat
  c_mstatus :: u64
  c_mepc :: u64
  c_medeleg :: u64
  c_mideleg :: u64
  c_pmpaddr0 :: u64
  c_pmpcfg0 :: u64
  c_mscratch :: u64
  c_mtvec :: u64
  c_mie :: u64
  c_mhartid :: nat

text \<open>
  \<open>timer_scratch\<close> is the array of that name, \<open>clint_mtime\<close> the value of the clock and
  \<open>clint_cmp\<close> the timer each hart has set; \<open>code_main\<close>, \<open>code_timervec\<close> and \<open>scratch_addr\<close> are
  addresses.
\<close>

record ktrap = kvio +
  csr :: csrs
  plic_rd :: "u32 list"
  plic_wr :: "(u64 \<times> u32) list"
  started :: bool
  timer_scratch :: "nat \<Rightarrow> u64 list"
  clint_mtime :: u64
  clint_cmp :: "nat \<Rightarrow> u64"
  code_main :: u64
  code_timervec :: u64
  scratch_addr :: "nat \<Rightarrow> u64"

definition set_csr :: "(csrs \<Rightarrow> csrs) \<Rightarrow> ('a ktrap_scheme, unit) op" where
  "set_csr f = kmod (\<lambda>s. s\<lparr>csr := f (csr s)\<rparr>)"

definition SSTATUS_SPP :: u64 where "SSTATUS_SPP = push_bit 8 1"
definition SSTATUS_SPIE :: u64 where "SSTATUS_SPIE = push_bit 5 1"
definition SSTATUS_SIE :: u64 where "SSTATUS_SIE = push_bit 1 1"

definition intr_on :: "('a ktrap_scheme, unit) op" where
  "intr_on = set_csr (\<lambda>c. c\<lparr>c_sstatus := c_sstatus c OR SSTATUS_SIE\<rparr>)"

definition intr_off :: "('a ktrap_scheme, unit) op" where
  "intr_off = set_csr (\<lambda>c. c\<lparr>c_sstatus := c_sstatus c AND NOT SSTATUS_SIE\<rparr>)"

definition intr_get :: "('a ktrap_scheme, bool) op" where
  "intr_get = kget (\<lambda>s. c_sstatus (csr s) AND SSTATUS_SIE \<noteq> 0)"

definition cpuid :: "('a ktrap_scheme, nat) op" where
  "cpuid = kget (\<lambda>s. c_tp (csr s))"

section \<open>The interrupt controller\<close>

definition UART0_IRQ :: nat where [simp]: "UART0_IRQ = 10"
definition VIRTIO0_IRQ :: nat where [simp]: "VIRTIO0_IRQ = 1"
definition PLIC_SENABLE :: "nat \<Rightarrow> u64" where "PLIC_SENABLE hart = PLIC + 0x2080 + of_nat hart * 0x100"
definition PLIC_SPRIORITY :: "nat \<Rightarrow> u64" where "PLIC_SPRIORITY hart = PLIC + 0x201000 + of_nat hart * 0x2000"
definition PLIC_SCLAIM :: "nat \<Rightarrow> u64" where "PLIC_SCLAIM hart = PLIC + 0x201004 + of_nat hart * 0x2000"

definition plic_write :: "u64 \<Rightarrow> u32 \<Rightarrow> ('a ktrap_scheme, unit) op" where
  "plic_write a v = kmod (\<lambda>s. s\<lparr>plic_wr := plic_wr s @ [(a, v)]\<rparr>)"

definition plicinit :: "('a ktrap_scheme, unit) op" where
  "plicinit =
     kthen (plic_write (PLIC + of_nat UART0_IRQ * 4) 1)
     (plic_write (PLIC + of_nat VIRTIO0_IRQ * 4) 1)"

definition plicinithart :: "('a ktrap_scheme, unit) op" where
  "plicinithart =
     kbind cpuid (\<lambda>hart.
     kthen (plic_write (PLIC_SENABLE hart) (push_bit UART0_IRQ 1 OR push_bit VIRTIO0_IRQ 1))
     (plic_write (PLIC_SPRIORITY hart) 0))"

definition plic_claim :: "('a ktrap_scheme, u32) op" where
  "plic_claim = (\<lambda>s. case plic_rd s of [] \<Rightarrow> Ok 0 s | v # vs \<Rightarrow> Ok v (s\<lparr>plic_rd := vs\<rparr>))"

definition plic_complete :: "u32 \<Rightarrow> ('a ktrap_scheme, unit) op" where
  "plic_complete irq = kbind cpuid (\<lambda>hart. plic_write (PLIC_SCLAIM hart) irq)"

section \<open>Interrupts\<close>

definition clockintr :: "('a kproc_scheme, unit) op" where
  "clockintr =
     kthen (acquire LTicks) (
     kthen (kmod (\<lambda>s. s\<lparr>ticks := ticks s + 1\<rparr>)) (
     kthen (wakeup ChTicks)
     (release LTicks)))"

definition devintr :: "('a ktrap_scheme, nat) op" where
  "devintr =
     kbind (kget (\<lambda>s. c_scause (csr s))) (\<lambda>scause.
     if scause AND 0x8000000000000000 \<noteq> 0 \<and> scause AND 0xff = 9 then
       kbind plic_claim (\<lambda>irq.
       kthen (if irq = of_nat UART0_IRQ then uartintr
              else if irq = of_nat VIRTIO0_IRQ then virtio_disk_intr
              else kwhen (irq \<noteq> 0) (printf (Some (str_bytes ''unexpected interrupt irq=%d'' @ [10])) [AInt (sint irq)])) (
       kthen (kwhen (irq \<noteq> 0) (plic_complete irq))
       (kret 1)))
     else if scause = 0x8000000000000001 then
       kbind cpuid (\<lambda>id.
       kthen (kwhen (id = 0) clockintr) (
       kthen (set_csr (\<lambda>c. c\<lparr>c_sip := c_sip c AND NOT 2\<rparr>))
       (kret 2)))
     else kret 0)"

section \<open>Traps\<close>

definition trapinithart :: "('a ktrap_scheme, unit) op" where
  "trapinithart = kbind (kget (\<lambda>s. k_kernelvec (syms s))) (\<lambda>v. set_csr (\<lambda>c. c\<lparr>c_stvec := v\<rparr>))"

definition usertrapret :: "('a ktrap_scheme, u64 \<times> u64 \<times> u64) op" where
  "usertrapret = with_myproc (\<lambda>p.
     kthen intr_off (
     kbind (kget (\<lambda>s. k_uservec (syms s) - ld_trampoline (ld s))) (\<lambda>off.
     kthen (set_csr (\<lambda>c. c\<lparr>c_stvec := TRAMPOLINE + off\<rparr>)) (
     kbind (kget satp) (\<lambda>ksatp.
     kthen (tf_set p 0 ksatp) (
     kbind (kget (\<lambda>s. p_kstack (proc_at p s) + PGSIZE)) (\<lambda>ksp.
     kthen (tf_set p 8 ksp) (
     kbind (kget (\<lambda>s. k_usertrap (syms s))) (\<lambda>ut.
     kthen (tf_set p 16 ut) (
     kbind cpuid (\<lambda>hart.
     kthen (tf_set p 32 (of_nat hart)) (
     kthen (set_csr (\<lambda>c. c\<lparr>c_sstatus := (c_sstatus c AND NOT SSTATUS_SPP) OR SSTATUS_SPIE\<rparr>)) (
     kbind (tf_get p tf_epc) (\<lambda>epc.
     kthen (set_csr (\<lambda>c. c\<lparr>c_sepc := epc\<rparr>)) (
     kbind (kget (\<lambda>s. MAKE_SATP (p_pagetable (proc_at p s)))) (\<lambda>usatp.
     kbind (kget (\<lambda>s. TRAMPOLINE + (k_userret (syms s) - ld_trampoline (ld s)))) (\<lambda>fn.
     kret (fn, TRAPFRAME, usatp))))))))))))))))))"

text \<open>What \<^verbatim>\<open>usertrap\<close> does once the trap is handled.\<close>

definition usertrap_end :: "nat \<Rightarrow> nat \<Rightarrow> ('a ktrap_scheme, u64 \<times> u64 \<times> u64) op" where
  "usertrap_end p which_dev =
     kbind (kget (\<lambda>s. p_killed (proc_at p s))) (\<lambda>killed.
     kthen (kwhen killed (exit (- 1))) (
     kthen (kwhen (which_dev = 2) yield)
     usertrapret))"

definition usertrap :: "('a ktrap_scheme, u64 \<times> u64 \<times> u64) op" where
  "usertrap =
     kbind (kget (\<lambda>s. c_sstatus (csr s))) (\<lambda>sst.
     if sst AND SSTATUS_SPP \<noteq> 0 then kpanic ''usertrap: not from user mode'' else
     kthen trapinithart (
     with_myproc (\<lambda>p.
     kbind (kget csr) (\<lambda>c.
     kthen (tf_set p tf_epc (c_sepc c)) (
     if c_scause c = 8 then
       kbind (kget (\<lambda>s. p_killed (proc_at p s))) (\<lambda>killed.
       kthen (kwhen killed (exit (- 1))) (
       kbind (tf_get p tf_epc) (\<lambda>epc.
       kthen (tf_set p tf_epc (epc + 4)) (
       kthen intr_on (
       kthen syscall
       (usertrap_end p 0))))))
     else
       kbind devintr (\<lambda>which_dev.
       kthen (kwhen (which_dev = 0) (
         kbind (kget (\<lambda>s. p_pid (proc_at p s))) (\<lambda>pid.
         kthen (printf (Some (str_bytes ''usertrap(): unexpected scause %p pid=%d'' @ [10])) [APtr (c_scause c), AInt pid]) (
         kthen (printf (Some (str_bytes ''            sepc=%p stval=%p'' @ [10])) [APtr (c_sepc c), APtr (c_stval c)])
         (set_proc p (\<lambda>q. q\<lparr>p_killed := True\<rparr>))))))
       (usertrap_end p which_dev)))))))"

text \<open>After the \<^verbatim>\<open>yield\<close> of a timer interrupt.\<close>

definition usertrap_resume :: "nat \<Rightarrow> ('a ktrap_scheme, u64 \<times> u64 \<times> u64) op" where
  "usertrap_resume p = kthen (yield_resume p) usertrapret"

definition kerneltrap_end :: "csrs \<Rightarrow> ('a ktrap_scheme, unit) op" where
  "kerneltrap_end c0 = set_csr (\<lambda>c. c\<lparr>c_sepc := c_sepc c0, c_sstatus := c_sstatus c0\<rparr>)"

definition kerneltrap :: "('a ktrap_scheme, unit) op" where
  "kerneltrap =
     kbind (kget csr) (\<lambda>c.
     if c_sstatus c AND SSTATUS_SPP = 0 then kpanic ''kerneltrap: not from supervisor mode'' else
     kbind intr_get (\<lambda>on.
     if on then kpanic ''kerneltrap: interrupts enabled'' else
     kbind devintr (\<lambda>which_dev.
     if which_dev = 0 then
       kthen (printf (Some (str_bytes ''scause %p'' @ [10])) [APtr (c_scause c)]) (
       kthen (printf (Some (str_bytes ''sepc=%p stval=%p'' @ [10])) [APtr (c_sepc c), APtr (c_stval c)])
       (kpanic ''kerneltrap''))
     else
       kbind (kget (\<lambda>s. case curproc s of None \<Rightarrow> False | Some p \<Rightarrow> p_state (proc_at p s) = RUNNING)) (\<lambda>running.
       kthen (kwhen (which_dev = 2 \<and> running) yield)
       (kerneltrap_end c)))))"

definition kerneltrap_resume :: "nat \<Rightarrow> csrs \<Rightarrow> ('a ktrap_scheme, unit) op" where
  "kerneltrap_resume p c = kthen (yield_resume p) (kerneltrap_end c)"

definition forkret :: "('a ktrap_scheme, u64 \<times> u64 \<times> u64) op" where
  "forkret = with_myproc (\<lambda>p.
     kthen (release (LProc p)) (
     kbind (kget first_run) (\<lambda>first.
     kthen (kwhen first (
       kthen (kmod (\<lambda>s. s\<lparr>first_run := False\<rparr>))
       (fsinit ROOTDEV)))
     usertrapret)))"

section \<open>Starting a CPU\<close>

definition MSTATUS_MPP_MASK :: u64 where "MSTATUS_MPP_MASK = push_bit 11 3"
definition MSTATUS_MPP_S :: u64 where "MSTATUS_MPP_S = push_bit 11 1"
definition MSTATUS_MIE :: u64 where "MSTATUS_MIE = push_bit 3 1"
definition SIE_SEIE :: u64 where "SIE_SEIE = push_bit 9 1"
definition SIE_STIE :: u64 where "SIE_STIE = push_bit 5 1"
definition SIE_SSIE :: u64 where "SIE_SSIE = push_bit 1 1"
definition MIE_MTIE :: u64 where "MIE_MTIE = push_bit 7 1"

definition CLINT_MTIMECMP :: "nat \<Rightarrow> u64" where
  "CLINT_MTIMECMP hartid = 0x2000000 + 0x4000 + 8 * of_nat hartid"

definition timerinit :: "('a ktrap_scheme, unit) op" where
  "timerinit =
     kbind (kget (\<lambda>s. c_mhartid (csr s))) (\<lambda>id.
     kthen (kmod (\<lambda>s. s\<lparr>clint_cmp := (clint_cmp s)(id := clint_mtime s + 1000000)\<rparr>)) (
     kthen (kmod (\<lambda>s. s\<lparr>timer_scratch := (timer_scratch s)(id := (timer_scratch s id)[3 := CLINT_MTIMECMP id, 4 := 1000000])\<rparr>)) (
     kbind (kget (\<lambda>s. scratch_addr s id)) (\<lambda>a.
     kthen (set_csr (\<lambda>c. c\<lparr>c_mscratch := a\<rparr>)) (
     kbind (kget code_timervec) (\<lambda>v.
     kthen (set_csr (\<lambda>c. c\<lparr>c_mtvec := v\<rparr>)) (
     kthen (set_csr (\<lambda>c. c\<lparr>c_mstatus := c_mstatus c OR MSTATUS_MIE\<rparr>))
     (set_csr (\<lambda>c. c\<lparr>c_mie := c_mie c OR MIE_MTIE\<rparr>)))))))))"

definition start :: "('a ktrap_scheme, unit) op" where
  "start =
     kthen (set_csr (\<lambda>c. c\<lparr>c_mstatus := (c_mstatus c AND NOT MSTATUS_MPP_MASK) OR MSTATUS_MPP_S\<rparr>)) (
     kbind (kget code_main) (\<lambda>m.
     kthen (set_csr (\<lambda>c. c\<lparr>c_mepc := m\<rparr>)) (
     kthen (kmod (\<lambda>s. s\<lparr>satp := 0\<rparr>)) (
     kthen (set_csr (\<lambda>c. c\<lparr>c_medeleg := 0xffff, c_mideleg := 0xffff, c_sie := c_sie c OR SIE_SEIE OR SIE_STIE OR SIE_SSIE\<rparr>)) (
     kthen (set_csr (\<lambda>c. c\<lparr>c_pmpaddr0 := 0x3fffffffffffff, c_pmpcfg0 := 0xf\<rparr>)) (
     kthen timerinit
     (set_csr (\<lambda>c. c\<lparr>c_tp := c_mhartid c\<rparr>))))))))"

text \<open>
  \<^verbatim>\<open>main\<close> up to the call of \<^verbatim>\<open>scheduler\<close>.  \<^verbatim>\<open>trapinit\<close> and \<^verbatim>\<open>fileinit\<close> initialise a
  spinlock and nothing else.
\<close>

definition main :: "('a ktrap_scheme, unit) op" where
  "main =
     kbind cpuid (\<lambda>id.
     if id = 0 then
       kthen consoleinit (
       kthen printfinit (
       kthen (printf (Some [10]) []) (
       kthen (printf (Some (str_bytes ''xv6 kernel is booting'' @ [10])) []) (
       kthen (printf (Some [10]) []) (
       kthen kinit (
       kthen kvminit (
       kthen kvminithart (
       kthen procinit (
       kthen trapinithart (
       kthen plicinit (
       kthen plicinithart (
       kthen binit (
       kthen iinit (
       kthen virtio_disk_init (
       kthen userinit
       (kmod (\<lambda>s. s\<lparr>started := True\<rparr>)))))))))))))))))
     else
       kbind (kget started) (\<lambda>go.
       if \<not> go then (\<lambda>s. Hang) else
       kthen (printf (Some (str_bytes ''hart %d starting'' @ [10])) [AInt (int id)]) (
       kthen kvminithart (
       kthen trapinithart
       plicinithart))))"

end
