(* ===== verification/Demo.thy ===== *)
theory Demo
  imports Proc
begin

text \<open>
  A concrete state of every layer of the kernel: nothing is cached, open or locked, and process 0 is
  running.  Examples start from it.
\<close>

definition demo_fs :: kfs where
  "demo_fs = klog.extend demo_boot
     \<lparr>sb = \<lparr>sb_magic = 0x10203040, sb_size = 1000, sb_nblocks = 954, sb_ninodes = 200, sb_nlog = 30, sb_logstart = 2,
            sb_inodestart = 32, sb_bmapstart = 45\<rparr>,
      itable = replicate NINODE \<lparr>i_dev = 0, i_inum = 0, i_ref = 0, i_valid = False, i_type = 0, i_major = 0, i_minor = 0,
                                 i_nlink = 0, i_size = 0, i_addrs = replicate 13 0\<rparr>\<rparr>"

definition demo_cons :: kcons where
  "demo_cons = kfs.extend demo_fs
     \<lparr>uart_rd = [], uart_wr = [], uart_tx_buf = replicate UART_TX_BUF_SIZE 0, uart_tx_w = 0, uart_tx_r = 0,
      panicked = False, pr_locking = True, cons_buf = replicate INPUT_BUF 0, cons_r = 0, cons_w = 0, cons_e = 0,
      devsw = replicate NDEV \<lparr>dev_read = None, dev_write = None\<rparr>\<rparr>"

definition demo_file :: kfile where
  "demo_file = kcons.extend demo_cons
     \<lparr>ftable = replicate NFILE \<lparr>f_type = FD_NONE, f_ref = 0, f_readable = False, f_writable = False, f_pipe = 0,
                                f_ip = None, f_off = 0, f_major = 0\<rparr>,
      pipes = Map.empty, stackpad = [0, 0, 0, 0]\<rparr>"

definition demo_proc :: kproc where
  "demo_proc = kfile.extend demo_file
     \<lparr>ticks = 0, first_run = True, syms = \<lparr>k_forkret = 0x80001000, k_usertrap = 0x80001100, k_kernelvec = 0x80001200,
                                           k_uservec = 0x80007000, k_userret = 0x80007090\<rparr>\<rparr>"

lemma demo_core [simp]:
  "held demo_fs = []" "procs demo_fs = replicate NPROC proc0" "curproc demo_fs = Some 0" "mem demo_fs = (\<lambda>_. 0)"
  "held demo_cons = []" "procs demo_cons = replicate NPROC proc0" "curproc demo_cons = Some 0" "mem demo_cons = (\<lambda>_. 0)"
  "held demo_file = []" "procs demo_file = replicate NPROC proc0" "curproc demo_file = Some 0" "mem demo_file = (\<lambda>_. 0)"
  "held demo_proc = []" "procs demo_proc = replicate NPROC proc0" "curproc demo_proc = Some 0" "mem demo_proc = (\<lambda>_. 0)"
  by (simp_all add: demo_proc_def demo_file_def demo_cons_def demo_fs_def demo_boot_def demo_log_def
    klog.defs kfs.defs kcons.defs kfile.defs)

lemma demo_cons_fields [simp]:
  "uart_rd demo_cons = []" "uart_wr demo_cons = []" "uart_tx_buf demo_cons = replicate UART_TX_BUF_SIZE 0"
  "uart_tx_w demo_cons = 0" "uart_tx_r demo_cons = 0" "\<not> panicked demo_cons" "cons_buf demo_cons = replicate INPUT_BUF 0"
  "cons_r demo_cons = 0" "cons_w demo_cons = 0" "cons_e demo_cons = 0"
  by (simp_all add: demo_cons_def kfs.defs)

lemma demo_file_fields [simp]:
  "length (ftable demo_file) = NFILE" "pipes demo_file = Map.empty"
  "ftable demo_file = replicate NFILE \<lparr>f_type = FD_NONE, f_ref = 0, f_readable = False, f_writable = False, f_pipe = 0,
     f_ip = None, f_off = 0, f_major = 0\<rparr>"
  by (simp_all add: demo_file_def kcons.defs)

end
