(* ===== verification/Fs_Tx.thy ===== *)
theory Fs_Tx
  imports Fs Demo
begin

text \<open>
  The file system as a client of the log: what the block allocator, the inodes on disk and the contents
  of files do to the blocks, as one transaction sees them.  Reading a block, changing it under
  \<^verbatim>\<open>log_write\<close> and releasing it is an interface with three laws; the operations of
  \<^verbatim>\<open>kernel/fs.c\<close> are verified against it.
\<close>

section \<open>Inside a transaction\<close>

text \<open>The blocks whose buffers are locked.\<close>

definition opened :: "'a kbio_scheme \<Rightarrow> u32 set" where
  "opened s = {m. lkd s m}"

text \<open>
  The process runs in a transaction.  Exactly the blocks in the log and the locked ones are pinned, and only
  blocks in the log differ from the disk.  The log has room for the blocks of \<open>F\<close>, which the process is going to
  write, for \<open>k\<close> more, and for one to spare: \<^verbatim>\<open>log_write\<close> refuses a full log even when the block is
  already in it.
\<close>

definition tx :: "u32 set \<Rightarrow> nat \<Rightarrow> 'a klog_scheme \<Rightarrow> bool" where
  "tx F k s \<longleftrightarrow> bio_ok s \<and> log_inv s \<and>
     (\<forall>m. pin s m = (if m \<in> set (logged s) then 1 else 0) + (if m \<in> opened s then 1 else 0)) \<and>
     (\<forall>m. m \<notin> set (logged s) \<longrightarrow> view s m = disk s m) \<and> LLog \<notin> set (held s) \<and> 1 \<le> log_outstanding s \<and>
     (\<forall>m\<in>F. \<not> in_log s m) \<and> int (card (set (logged s) \<union> F) + k) < log_size s - 1"

text \<open>Changing a block under the log.\<close>

definition put_block :: "nat \<Rightarrow> u8 list \<Rightarrow> ('a klog_scheme, unit) op" where
  "put_block b d = kthen (set_bdata b d) (log_write b)"

text \<open>What the use of blocks leaves alone.\<close>

definition fs_frame :: "'a kfs_scheme \<Rightarrow> 'a kfs_scheme \<Rightarrow> bool" where
  "fs_frame s t \<longleftrightarrow> sb t = sb s \<and> itable t = itable s \<and> log_start t = log_start s \<and> log_size t = log_size s \<and>
     held t = held s \<and> curproc t = curproc s \<and> mem t = mem s \<and> (\<forall>i. slocks t (SInode i) = slocks s (SInode i)) \<and>
     only_woken (procs s) (procs t)"

lemma fs_frame_refl: "fs_frame s s"
  by (simp add: fs_frame_def only_woken_def list_all2_refl)

lemma fs_frame_trans: "fs_frame s t \<Longrightarrow> fs_frame t u \<Longrightarrow> fs_frame s u"
  using only_woken_trans by (fastforce simp: fs_frame_def)

lemma fs_frameI:
  fixes s t :: "'a kfs_scheme"
  assumes "bio_frame (s\<lparr>lh_n := n, lh_block := bl\<rparr>) t"
  shows "fs_frame s t"
  using assms by (cases s; cases t) (simp add: fs_frame_def bio_frame_def)

lemma fs_frame_bio:
  fixes s t :: "'a kfs_scheme"
  assumes "bio_frame s t"
  shows "fs_frame s t"
  using assms by (cases s; cases t) (simp add: fs_frame_def bio_frame_def)

lemma txD:
  assumes "tx F k s"
  shows "bio_ok s" "log_inv s" "pin s m = (if m \<in> set (logged s) then 1 else 0) + (if m \<in> opened s then 1 else 0)"
    "m \<notin> set (logged s) \<Longrightarrow> view s m = disk s m" "LLog \<notin> set (held s)" "1 \<le> log_outstanding s"
    "m \<in> F \<Longrightarrow> \<not> in_log s m" "int (card (set (logged s) \<union> F) + k) < log_size s - 1"
  using assms unfolding tx_def by blast+

lemma lh_n_card: "log_inv s \<Longrightarrow> lh_n s = int (card (set (logged s)))"
  using length_logged [of s] distinct_card [of "logged s"] by (simp add: log_inv_def)

lemma tx_read:
  fixes s :: "'a kfs_scheme"
  assumes "tx F k s" and "n \<notin> opened s" and "opened s \<subseteq> F"
  shows "\<exists>b t. bread ROOTDEV n s = Ok b t \<and> tx F k t \<and> own s b = None \<and> own t = (own s)(b := Some n) \<and>
           opened t = insert n (opened s) \<and> view t = view s \<and> fs_frame s t"
proof -
  note x = txD [OF assms(1)]
  have "{m. pin s m \<noteq> 0} \<subseteq> set (logged s) \<union> F" using x(3) assms(3) by auto
  then have "card {m. pin s m \<noteq> 0} \<le> card (set (logged s) \<union> F)" by (intro card_mono) auto
  then have c: "card {m. pin s m \<noteq> 0} < NBUF"
    using x(2,8) by (simp add: log_inv_def log_wf_def LOGSIZE_def)
  have q: "pin s n < 2 ^ 32 - 1" using x(3) by simp
  have l: "\<not> lkd s n" using assms(2) by (simp add: opened_def)
  obtain b t where t: "bread ROOTDEV n s = Ok b t" "bio_ok t" "bio_frame s t" "own s b = None" "bio_abs t = abs_bread b n (bio_abs s)"
    using bread_law [OF x(1) l q disjI2 [OF c]] by blast
  have a: "view t = view s" "pin t = (pin s)(n := pin s n + 1)" "lkd t = (lkd s)(n := True)" "own t = (own s)(b := Some n)" "disk t = disk s"
    using t(5) by (simp_all add: bio_abs_def abs_bread_def)
  note f = bio_frame_log [OF t(3)]
  have o: "opened t = insert n (opened s)" using a(3) by (auto simp: opened_def)
  have g: "log_inv t" "logged t = logged s" "held t = held s" "\<And>m. in_log t m = in_log s m"
    using x(2) log_inv_frame [OF t(3)] f t(3) by (simp_all add: logged_def bio_frame_def in_log_def)
  have "pin t m = (if m \<in> set (logged t) then 1 else 0) + (if m \<in> opened t then 1 else 0)" for m
    using x(3) [of m] assms(2) a(2) o g(2) by (cases "m = n") simp_all
  then have "tx F k t" using x t(2) a f g by (auto simp: tx_def)
  then show ?thesis using t(1,4) a(1,4) o fs_frame_bio [OF t(3)] by blast
qed

lemma tx_bdata: "tx F k s \<Longrightarrow> own s b = Some n \<Longrightarrow> bdata b s = Ok (view s n) s"
  by (simp add: tx_def bdata_law)

lemma own_opened: "bio_ok s \<Longrightarrow> own s b = Some n \<Longrightarrow> n \<in> opened s"
  using own_view [of s b n] ownD [of s b n] by (simp add: opened_def bio_ok_def)

lemma tx_write:
  fixes s :: "'a kfs_scheme"
  assumes "tx F k s" and "own s b = Some n" and "n \<in> F" and "length d = BSIZE"
  shows "\<exists>t. put_block b d s = Ok () t \<and> tx F k t \<and> own t = own s \<and> opened t = opened s \<and> view t = (view s)(n := d) \<and> fs_frame s t"
proof -
  note x = txD [OF assms(1)]
  obtain u where u: "set_bdata b d s = Ok () u" "bio_ok u" "bio_frame s u" "bio_abs u = abs_set b d (bio_abs s)"
    using set_bdata_law [OF x(1) assms(2,4)] by blast
  have a: "view u = (view s)(n := d)" "pin u = pin s" "lkd u = lkd s" "own u = own s" "disk u = disk s"
    using u(4) assms(2) by (simp_all add: bio_abs_def abs_set_def)
  note f = bio_frame_log [OF u(3)]
  have lu: "logged u = logged s" "log_inv u" "held u = held s" "\<And>m. in_log u m = in_log s m"
    using f x(2) log_inv_frame [OF u(3)] u(3) by (simp_all add: logged_def bio_frame_def in_log_def)
  have c: "own u b = Some n" "\<not> in_log u n" "pin u n < 2 ^ 32 - 1" "1 \<le> log_outstanding u" "LLog \<notin> set (held u)"
    using assms(2) x(3) [of n] x(5,6) x(7) [OF assms(3)] a f lu by simp_all
  have "card (set (logged s)) \<le> card (set (logged s) \<union> F)" by (intro card_mono) auto
  then have ln: "lh_n u < log_size u - 1" using x(2,8) f lh_n_card [of s] by simp
  obtain t where t: "log_write b u = Ok () t" "bio_ok t" "log_inv t"
    "logged t = (if n \<in> set (logged u) then logged u else logged u @ [n])"
    "bio_abs t = (if n \<in> set (logged u) then bio_abs u else abs_bpin b (bio_abs u))" "bio_frame (u\<lparr>lh_n := lh_n t, lh_block := lh_block t\<rparr>) t"
    using log_write_law [OF u(2) lu(2) c(1,2,3) ln c(4,5)] by blast
  have e: "view t = view u" "pin t = (if n \<in> set (logged s) then pin u else (pin u)(n := pin u n + 1))" "lkd t = lkd u" "own t = own u" "disk t = disk u"
    using t(5) c(1) lu(1) by (auto simp: bio_abs_def abs_bpin_def split: if_splits)
  have L: "set (logged t) = insert n (set (logged s))" using t(4) lu(1) by auto
  note g = bio_frame_log [OF t(6)]
  have ff: "fs_frame u t" by (rule fs_frameI [OF t(6)])
  have o: "opened t = opened s" using a(3) e(3) by (simp add: opened_def)
  have p: "pin t m = (if m \<in> set (logged t) then 1 else 0) + (if m \<in> opened t then 1 else 0)" for m
    using x(3) [of m] a(2) e(2) o by (cases "m = n"; cases "n \<in> set (logged s)") (simp_all add: L)
  have v: "view t m = disk t m" if "m \<notin> set (logged t)" for m
    using that x(4) [of m] a(1,5) e(1,5) by (simp add: L)
  have q: "set (logged t) \<union> F = set (logged s) \<union> F" "held t = held s" "\<And>m. in_log t m = in_log s m"
    using L assms(3) ff lu(3,4) f by (auto simp: fs_frame_def in_log_def)
  have "log_size t = log_size s" "log_outstanding t = log_outstanding s" using f g by simp_all
  then have "tx F k t" unfolding tx_def q using t(2,3) p v x(5,6,7,8) by simp
  moreover have "put_block b d s = Ok () t" using u(1) t(1) by (simp add: put_block_def run_kthen run_kbind)
  ultimately show ?thesis using a(1,4) e(1,4) o fs_frame_trans [OF fs_frame_bio [OF u(3)] ff] by auto
qed

lemma tx_release:
  fixes s :: "'a kfs_scheme"
  assumes "tx F k s" and "own s b = Some n"
  shows "\<exists>t. brelse b s = Ok () t \<and> tx F k t \<and> own t = (own s)(b := None) \<and> opened t = opened s - {n} \<and> view t = view s \<and> fs_frame s t"
proof -
  note x = txD [OF assms(1)]
  have n: "n \<in> opened s" by (rule own_opened [OF x(1) assms(2)])
  have c: "pin s n \<ge> 2 \<or> view s n = disk s n" using x(3,4) [of n] n by auto
  obtain t where t: "brelse b s = Ok () t" "bio_ok t" "bio_frame s t" "bio_abs t = abs_brelse b (bio_abs s)"
    using brelse_law [OF x(1) assms(2) c] by blast
  have a: "view t = view s" "pin t = (pin s)(n := pin s n - 1)" "lkd t = (lkd s)(n := False)" "own t = (own s)(b := None)" "disk t = disk s"
    using t(4) assms(2) by (simp_all add: bio_abs_def abs_brelse_def)
  note f = bio_frame_log [OF t(3)]
  have o: "opened t = opened s - {n}" using a(3) by (auto simp: opened_def)
  have g: "log_inv t" "logged t = logged s" "held t = held s" "\<And>m. in_log t m = in_log s m"
    using x(2) log_inv_frame [OF t(3)] f t(3) by (simp_all add: logged_def bio_frame_def in_log_def)
  have "pin t m = (if m \<in> set (logged t) then 1 else 0) + (if m \<in> opened t then 1 else 0)" for m
    using x(3) [of m] n a(2) o g(2) by (cases "m = n") simp_all
  then have "tx F k t" using x t(2) a f g by (auto simp: tx_def)
  then show ?thesis using t(1) a(1,4) o fs_frame_bio [OF t(3)] by blast
qed

section \<open>The interface of a transaction\<close>

text \<open>
  Blocks that are read, changed and released; a block may be changed if it is one of the reserved ones.  Two
  patterns of use follow: looking at a block, and replacing its contents.
\<close>

locale block_tx =
  fixes tx :: "u32 set \<Rightarrow> nat \<Rightarrow> 's \<Rightarrow> bool" and opened :: "'s \<Rightarrow> u32 set" and own :: "'s \<Rightarrow> nat \<Rightarrow> u32 option"
    and view :: "'s \<Rightarrow> u32 \<Rightarrow> u8 list" and frame :: "'s \<Rightarrow> 's \<Rightarrow> bool"
    and rd :: "u32 \<Rightarrow> ('s, nat) op" and dat :: "nat \<Rightarrow> ('s, u8 list) op" and put :: "nat \<Rightarrow> u8 list \<Rightarrow> ('s, unit) op"
    and rel :: "nat \<Rightarrow> ('s, unit) op"
  assumes frame_trans: "frame s t \<Longrightarrow> frame t u \<Longrightarrow> frame s u"
    and rd_law: "tx F k s \<Longrightarrow> n \<notin> opened s \<Longrightarrow> opened s \<subseteq> F \<Longrightarrow>
      \<exists>b t. rd n s = Ok b t \<and> tx F k t \<and> own s b = None \<and> own t = (own s)(b := Some n) \<and> opened t = insert n (opened s) \<and>
        view t = view s \<and> frame s t"
    and dat_law: "tx F k s \<Longrightarrow> own s b = Some n \<Longrightarrow> dat b s = Ok (view s n) s"
    and put_law: "tx F k s \<Longrightarrow> own s b = Some n \<Longrightarrow> n \<in> F \<Longrightarrow> length d = BSIZE \<Longrightarrow>
      \<exists>t. put b d s = Ok () t \<and> tx F k t \<and> own t = own s \<and> opened t = opened s \<and> view t = (view s)(n := d) \<and> frame s t"
    and rel_law: "tx F k s \<Longrightarrow> own s b = Some n \<Longrightarrow>
      \<exists>t. rel b s = Ok () t \<and> tx F k t \<and> own t = (own s)(b := None) \<and> opened t = opened s - {n} \<and> view t = view s \<and> frame s t"
begin

lemma look:
  assumes "tx F k s" and n: "n \<notin> opened s" and "opened s \<subseteq> F"
  shows "\<exists>b t u. rd n s = Ok b t \<and> dat b t = Ok (view s n) t \<and> rel b t = Ok () u \<and> tx F k u \<and> own u = own s \<and>
           opened u = opened s \<and> view u = view s \<and> frame s u"
proof -
  obtain b t where t: "rd n s = Ok b t" "tx F k t" "own s b = None" "own t = (own s)(b := Some n)" "opened t = insert n (opened s)"
    "view t = view s" "frame s t"
    using rd_law [OF assms] by blast
  have o: "own t b = Some n" using t(4) by simp
  obtain u where u: "rel b t = Ok () u" "tx F k u" "own u = (own t)(b := None)" "opened u = opened t - {n}" "view u = view t" "frame t u"
    using rel_law [OF t(2) o] by blast
  have "own u = own s" "opened u = opened s" using t(3,4,5) u(3,4) n by auto
  then show ?thesis using t(1,6) dat_law [OF t(2) o] u(1,2,5) frame_trans [OF t(7) u(6)] by metis
qed

lemma amend:
  assumes "tx F k s" and n: "n \<notin> opened s" and "opened s \<subseteq> F" and F: "n \<in> F" and d: "length d = BSIZE"
  shows "\<exists>b t v u. rd n s = Ok b t \<and> dat b t = Ok (view s n) t \<and> put b d t = Ok () v \<and> rel b v = Ok () u \<and> tx F k u \<and>
           own u = own s \<and> opened u = opened s \<and> view u = (view s)(n := d) \<and> frame s u"
proof -
  obtain b t where t: "rd n s = Ok b t" "tx F k t" "own s b = None" "own t = (own s)(b := Some n)" "opened t = insert n (opened s)"
    "view t = view s" "frame s t"
    using rd_law [OF assms(1-3)] by blast
  have o: "own t b = Some n" using t(4) by simp
  obtain v where v: "put b d t = Ok () v" "tx F k v" "own v = own t" "opened v = opened t" "view v = (view t)(n := d)" "frame t v"
    using put_law [OF t(2) o F d] by blast
  have o': "own v b = Some n" using o v(3) by simp
  obtain u where u: "rel b v = Ok () u" "tx F k u" "own u = (own v)(b := None)" "opened u = opened v - {n}" "view u = view v" "frame v u"
    using rel_law [OF v(2) o'] by blast
  have "own u = own s" "opened u = opened s" using t(3,4,5) v(3,4) u(3,4) n by auto
  moreover have "frame s u" using frame_trans [OF frame_trans [OF t(7) v(6)] u(6)] .
  ultimately show ?thesis using t(1,6) dat_law [OF t(2) o] v(1,5) u(1,2,5) by metis
qed

end

interpretation ftx: block_tx tx opened own view fs_frame "bread ROOTDEV" bdata put_block brelse
proof
  fix s t u :: "'a kfs_scheme" assume "fs_frame s t" "fs_frame t u" then show "fs_frame s u" by (rule fs_frame_trans)
qed (fact tx_read tx_bdata tx_write tx_release)+

text \<open>Nothing but the contents of blocks has changed.\<close>

definition fs_same :: "'a kfs_scheme \<Rightarrow> 'a kfs_scheme \<Rightarrow> bool" where
  "fs_same s t \<longleftrightarrow> own t = own s \<and> opened t = opened s \<and> fs_frame s t"

lemma fs_same_refl [simp]: "fs_same s s"
  by (simp add: fs_same_def fs_frame_refl)

lemma fs_same_trans: "fs_same s t \<Longrightarrow> fs_same t u \<Longrightarrow> fs_same s u"
  using fs_frame_trans by (auto simp: fs_same_def)

lemma fs_sameD:
  assumes "fs_same s t"
  shows "own t = own s" "opened t = opened s" "sb t = sb s" "itable t = itable s" "in_log t m = in_log s m"
  using assms by (simp_all add: fs_same_def fs_frame_def in_log_def)

lemma put_block_then: "kthen (set_bdata b d) (kthen (log_write b) c) = kthen (put_block b d) c"
  by (simp add: put_block_def kthen_def kbind_assoc)

lemma look_block:
  fixes s :: "'a kfs_scheme"
  assumes "tx F k s" and "n \<notin> opened s" and "opened s \<subseteq> F"
  shows "\<exists>b t u. bread ROOTDEV n s = Ok b t \<and> bdata b t = Ok (view s n) t \<and> brelse b t = Ok () u \<and> tx F k u \<and>
           view u = view s \<and> fs_same s u"
  using ftx.look [OF assms] unfolding fs_same_def by blast

lemma amend_block:
  fixes s :: "'a kfs_scheme"
  assumes "tx F k s" and "n \<notin> opened s" and "opened s \<subseteq> F" and "n \<in> F" and "length d = BSIZE"
  shows "\<exists>b t v u. bread ROOTDEV n s = Ok b t \<and> bdata b t = Ok (view s n) t \<and> put_block b d t = Ok () v \<and> brelse b v = Ok () u \<and>
           tx F k u \<and> view u = (view s)(n := d) \<and> fs_same s u"
  using ftx.amend [OF assms] unfolding fs_same_def by blast

lemma tx_reserve:
  assumes "tx F (Suc k) s" and "\<not> in_log s n"
  shows "tx (insert n F) k s"
proof -
  have "card (set (logged s) \<union> insert n F) \<le> Suc (card (set (logged s) \<union> F))" by (simp add: card_insert_le_m1 card_insert_if)
  then show ?thesis using assms by (auto simp: tx_def)
qed

lemma tx_mono:
  assumes "tx F k s" and "F' \<subseteq> F" and "k' \<le> k"
  shows "tx F' k' s"
proof -
  have "card (set (logged s) \<union> F') \<le> card (set (logged s) \<union> F)" using assms(2) by (intro card_mono) auto
  then show ?thesis using assms by (auto simp: tx_def)
qed

lemma tx_view_size: "tx F k s \<Longrightarrow> length (view s n) = BSIZE"
  by (simp add: tx_def view_size)

end
