(* ===== verification/Fs_Alloc.thy ===== *)
theory Fs_Alloc
  imports Fs_Tx
begin

text \<open>
  The free map: \<^verbatim>\<open>balloc\<close> and \<^verbatim>\<open>bfree\<close> of \<^verbatim>\<open>kernel/fs.c\<close> as operations on the set
  of blocks in use.
\<close>

section \<open>Bits of the map\<close>

lemma bit_or_push: "q < 8 \<Longrightarrow> bit (x OR 2 ^ p :: u8) q \<longleftrightarrow> bit x q \<or> p = q"
  by (auto simp: bit_or_iff bit_exp_iff )

lemma bit_and_not_push: "q < 8 \<Longrightarrow> bit (x AND NOT (2 ^ p) :: u8) q \<longleftrightarrow> bit x q \<and> p \<noteq> q"
  by (auto simp: bit_and_iff bit_not_iff bit_exp_iff)

lemma div_mod_eq_iff: "(i::nat) = j \<longleftrightarrow> i div 8 = j div 8 \<and> i mod 8 = j mod 8"
  by (metis div_mult_mod_eq)

lemma map_bit_set:
  assumes "length d = BSIZE" and "i < BPB"
  shows "map_bit (set_map_bit d i) j \<longleftrightarrow> map_bit d j \<or> i = j"
proof -
  have "i div 8 < length d" using assms by simp
  then show ?thesis unfolding map_bit_def set_map_bit_def div_mod_eq_iff [of i j]
    by (cases "i div 8 = j div 8") (simp_all add: bit_or_push)
qed

lemma map_bit_clear:
  assumes "length d = BSIZE" and "i < BPB"
  shows "map_bit (clear_map_bit d i) j \<longleftrightarrow> map_bit d j \<and> i \<noteq> j"
proof -
  have "i div 8 < length d" using assms by simp
  then show ?thesis unfolding map_bit_def clear_map_bit_def div_mod_eq_iff [of i j]
    by (cases "i div 8 = j div 8") (simp_all add: bit_and_not_push)
qed

section \<open>The blocks in use\<close>

definition used :: "'a kfs_scheme \<Rightarrow> nat \<Rightarrow> bool" where
  "used s b = map_bit (view s (BBLOCK (of_nat b) (sb s))) (b mod BPB)"

definition map_blocks :: "'a kfs_scheme \<Rightarrow> u32 set" where
  "map_blocks s = (\<lambda>b. BBLOCK (of_nat b) (sb s)) ` {..<unat (sb_size (sb s))}"

text \<open>No block of the map or of the log is marked free, and nobody has a free block.\<close>

definition map_ok :: "'a kfs_scheme \<Rightarrow> bool" where
  "map_ok s \<longleftrightarrow> (\<forall>b<unat (sb_size (sb s)). \<not> used s b \<longrightarrow>
     of_nat b \<notin> map_blocks s \<and> of_nat b \<notin> opened s \<and> \<not> in_log s (of_nat b))"

text \<open>The blocks after \<open>n\<close> was allocated.\<close>

definition alloc_view :: "'a kfs_scheme \<Rightarrow> nat \<Rightarrow> u32 \<Rightarrow> u8 list" where
  "alloc_view s n = (let m = BBLOCK (of_nat n) (sb s) in
     (view s)(m := set_map_bit (view s m) (n mod BPB), of_nat n := replicate BSIZE 0))"

lemma unat_of_nat_u32: "b < 2 ^ 32 \<Longrightarrow> unat (of_nat b :: u32) = b"
  by (simp add: unsigned_of_nat take_bit_nat_eq_self)

lemma BBLOCK_eq_iff:
  assumes "b < 2 ^ 32" and "c < 2 ^ 32"
  shows "BBLOCK (of_nat b) x = BBLOCK (of_nat c) x \<longleftrightarrow> b div BPB = c div BPB"
proof -
  have "unat ((of_nat b :: u32) div of_nat BPB) = b div BPB" if "b < 2 ^ 32" for b
    using that by (simp add: unat_div unat_of_nat_u32)
  then show ?thesis unfolding BBLOCK_def using assms by (metis add_right_cancel unsigned_word_eqI)
qed

lemma size_less: "b < unat (sb_size (sb s)) \<Longrightarrow> b < 2 ^ 32"
  using unsigned_less [of "sb_size (sb s)", where ?'a = nat] by simp

lemma map_blocksI: "b < unat (sb_size (sb s)) \<Longrightarrow> BBLOCK (of_nat b) (sb s) \<in> map_blocks s"
  by (auto simp: map_blocks_def)

lemma find_map_option: "find P (map f xs) = map_option f (find (P \<circ> f) xs)"
  by (induction xs) simp_all

lemma find_append_case: "find P (xs @ ys) = (case find P xs of None \<Rightarrow> find P ys | Some x \<Rightarrow> Some x)"
  by (induction xs) simp_all

lemma balloc_scan_used:
  assumes "b mod BPB = 0" and "b < 2 ^ 32" and "sz < 2 ^ 32"
  shows "find (\<lambda>n. \<not> used s n) [b..<b + min BPB (sz - b)] =
    map_option ((+) b) (balloc_scan (view s (BBLOCK (of_nat b) (sb s))) b sz)"
proof -
  have "used s (b + i) = map_bit (view s (BBLOCK (of_nat b) (sb s))) i" if "i < min BPB (sz - b)" for i
  proof -
    have "(b + i) div BPB = b div BPB" "(b + i) mod BPB = i"
      using assms(1) that by (auto simp: mod_add_eq div_add1_eq mod_eq_0_iff_dvd mod_add_left_eq)
    moreover have "b + i < 2 ^ 32" using assms that by (simp add: less_diff_conv)
    ultimately show ?thesis using BBLOCK_eq_iff [of "b + i" b "sb s"] assms(2) by (simp add: used_def)
  qed
  then have "find ((\<lambda>n. \<not> used s n) \<circ> (+) b) [0..<min BPB (sz - b)] = balloc_scan (view s (BBLOCK (of_nat b) (sb s))) b sz"
    unfolding balloc_scan_def by (intro find_cong) auto
  moreover have "[b..<b + m] = map ((+) b) [0..<m]" for m by (induction m) simp_all
  ultimately show ?thesis by (simp only: find_map_option)
qed

lemma bitmap_starts_cover:
  "concat (map (\<lambda>b. [b..<b + min BPB (sz - b)]) (bitmap_starts sz)) = [0..<sz]"
proof -
  have "concat (map (\<lambda>i. [BPB * i..<BPB * i + min BPB (sz - BPB * i)]) [0..<n]) = [0..<min (BPB * n) sz]" for n
  proof (induction n)
    case (Suc n)
    have "[0..<min (BPB * n) sz] @ [BPB * n..<BPB * n + min BPB (sz - BPB * n)] = [0..<min (BPB * Suc n) sz]"
      using upt_add_eq_append [of 0 "BPB * n" "min BPB (sz - BPB * n)"]
      by (cases "BPB * n \<le> sz") (auto simp: min_def add.commute)
    then show ?case using Suc by simp
  qed simp
  moreover have "sz \<le> BPB * ((sz + BPB - 1) div BPB)" by simp
  ultimately show ?thesis by (simp add: bitmap_starts_def comp_def min.absorb2)
qed

section \<open>Allocating and freeing\<close>

lemma bzero_law:
  fixes s :: "'a kfs_scheme"
  assumes "tx F k s" and "n \<notin> opened s" and "opened s \<subseteq> F" and "n \<in> F"
  shows "\<exists>t. bzero ROOTDEV n s = Ok () t \<and> tx F k t \<and> view t = (view s)(n := replicate BSIZE 0) \<and> fs_same s t"
  using amend_block [OF assms, of "replicate BSIZE 0"] by (auto simp: bzero_def put_block_then run_kbind run_kthen)

lemma bfree_law:
  fixes s :: "'a kfs_scheme"
  assumes x: "tx F k s" and m: "m = BBLOCK b (sb s)" "m \<notin> opened s" "opened s \<subseteq> F" "m \<in> F"
  shows "if used s (unat b)
    then \<exists>t. bfree ROOTDEV b s = Ok () t \<and> tx F k t \<and> view t = (view s)(m := clear_map_bit (view s m) (unat b mod BPB)) \<and> fs_same s t
    else bfree ROOTDEV b s = Panic ''freeing free block''"
proof (cases "used s (unat b)")
  case True
  have l: "length (clear_map_bit (view s m) (unat b mod BPB)) = BSIZE"
    by (simp add: clear_map_bit_def tx_view_size [OF x, simplified])
  show ?thesis using amend_block [OF x m(2-4) l] True
    by (auto simp: bfree_def put_block_then run_kbind run_kthen m(1) [symmetric] used_def Let_def)
next
  case False
  then show ?thesis using look_block [OF x m(2,3)] by (auto simp: bfree_def run_kbind run_kthen m(1) [symmetric] used_def Let_def)
qed

lemma balloc_loop_law:
  fixes s :: "'a kfs_scheme"
  assumes "tx F (Suc k) s" and "map_ok s" and "map_blocks s \<subseteq> F" and "opened s \<subseteq> F" and "opened s \<inter> map_blocks s = {}"
    and "\<forall>b\<in>set bs. b mod BPB = 0 \<and> b < sz" and "sz = unat (sb_size (sb s))"
  shows "case find (\<lambda>n. \<not> used s n) (concat (map (\<lambda>b. [b..<b + min BPB (sz - b)]) bs)) of
      None \<Rightarrow> balloc_loop ROOTDEV bs s = Panic ''balloc: out of blocks''
    | Some n \<Rightarrow> \<exists>t. balloc_loop ROOTDEV bs s = Ok (of_nat n) t \<and> tx (insert (of_nat n) F) k t \<and> view t = alloc_view s n \<and> fs_same s t"
  using assms
proof (induction bs arbitrary: s)
  case (Cons b bs)
  let ?m = "BBLOCK (of_nat b) (sb s)"
  have b: "b mod BPB = 0" "b < sz" "b < 2 ^ 32" "sz < 2 ^ 32" using Cons.prems(6,7) unsigned_less [of "sb_size (sb s)", where ?'a = nat] by auto
  have m: "?m \<in> map_blocks s" using b(2) Cons.prems(7) by (simp add: map_blocksI)
  then have mo: "?m \<notin> opened s" "?m \<in> F" using Cons.prems(3,5) by auto
  note sc = balloc_scan_used [OF b(1,3,4), of s]
  show ?case
  proof (cases "balloc_scan (view s ?m) b sz")
    case None
    obtain a t u where u: "bread ROOTDEV ?m s = Ok a t" "bdata a t = Ok (view s ?m) t" "brelse a t = Ok () u" "tx F (Suc k) u" "view u = view s" "fs_same s u"
      using look_block [OF Cons.prems(1) mo(1) Cons.prems(4)] by blast
    note e = fs_sameD [OF u(6)]
    have sm: "used u = used s" "map_blocks u = map_blocks s" "alloc_view u = alloc_view s"
      by (rule ext, simp add: used_def u(5) e) (simp add: map_blocks_def e, rule ext, simp add: alloc_view_def u(5) e)
    have run: "balloc_loop ROOTDEV (b # bs) s = balloc_loop ROOTDEV bs u"
      using u(1-3) None Cons.prems(7) by (simp add: run_kbind run_kthen)
    have "case find (\<lambda>n. \<not> used u n) (concat (map (\<lambda>b. [b..<b + min BPB (sz - b)]) bs)) of
        None \<Rightarrow> balloc_loop ROOTDEV bs u = Panic ''balloc: out of blocks''
      | Some n \<Rightarrow> \<exists>t. balloc_loop ROOTDEV bs u = Ok (of_nat n) t \<and> tx (insert (of_nat n) F) k t \<and> view t = alloc_view u n \<and> fs_same u t"
      using Cons.prems(2-7) by (intro Cons.IH [OF u(4)]) (simp_all add: map_ok_def sm e)
    then show ?thesis unfolding run sm using sc None u(6)
      by (auto simp: find_append_case split: option.splits intro: fs_same_trans)
  next
    case (Some i)
    define n where "n = b + i"
    let ?d = "set_map_bit (view s ?m) i"
    have f: "find (\<lambda>n. \<not> used s n) [b..<b + min BPB (sz - b)] = Some n" using sc Some by (simp add: n_def)
    have i: "i < BPB" "n < sz" using Some by (auto simp: n_def balloc_scan_def find_Some_iff)
    have nu: "\<not> used s n" using f by (auto simp: find_Some_iff)
    have nn: "of_nat n \<notin> map_blocks s" "of_nat n \<notin> opened s" "\<not> in_log s (of_nat n)"
      using Cons.prems(2,7) i(2) nu by (simp_all add: map_ok_def)
    have dm: "n div BPB = b div BPB" "n mod BPB = i"
      using b(1) i(1) by (auto simp: n_def mod_add_eq div_add1_eq mod_eq_0_iff_dvd mod_add_left_eq)
    have l: "length ?d = BSIZE" by (simp add: set_map_bit_def tx_view_size [OF Cons.prems(1), simplified])
    obtain a t v u where u: "bread ROOTDEV ?m s = Ok a t" "bdata a t = Ok (view s ?m) t" "put_block a ?d t = Ok () v" "brelse a v = Ok () u"
      "tx F (Suc k) u" "view u = (view s)(?m := ?d)" "fs_same s u"
      using amend_block [OF Cons.prems(1) mo(1) Cons.prems(4) mo(2) l] by blast
    note e = fs_sameD [OF u(7)]
    have x: "tx (insert (of_nat n) F) k u" using tx_reserve [OF u(5)] nn(3) e(5) by blast
    obtain w where w: "bzero ROOTDEV (of_nat n) u = Ok () w" "tx (insert (of_nat n) F) k w"
      "view w = (view u)(of_nat n := replicate BSIZE 0)" "fs_same u w"
      using bzero_law [OF x, of "of_nat n"] nn(2) e(2) Cons.prems(4) by blast
    have mm: "BBLOCK (of_nat n) (sb s) = ?m" using BBLOCK_eq_iff [of n b "sb s"] dm(1) b i(2) by simp
    have "balloc_loop ROOTDEV (b # bs) s = Ok (of_nat n) w"
      using u(1-4) w(1) Some Cons.prems(7) by (simp add: run_kbind run_kthen put_block_then n_def [symmetric] del: of_nat_add)
    moreover have "view w = alloc_view s n" unfolding alloc_view_def Let_def mm dm w(3) u(6) ..
    ultimately show ?thesis using f w(2) fs_same_trans [OF u(7) w(4)] by (simp add: find_append_case)
  qed
qed simp

lemma used_alloc:
  fixes s t :: "'a kfs_scheme"
  assumes "\<And>m. length (view s m) = BSIZE" and "view t = alloc_view s n" and "sb t = sb s" and n: "n < unat (sb_size (sb s))" and c: "c < unat (sb_size (sb s))"
    and "of_nat n \<notin> map_blocks s"
  shows "used t c \<longleftrightarrow> used s c \<or> c = n"
proof -
  let ?m = "BBLOCK (of_nat n) (sb s)" and ?c = "BBLOCK (of_nat c) (sb s)"
  have "of_nat n \<noteq> ?c" using assms(6) map_blocksI [OF c] by metis
  then have u: "used t c \<longleftrightarrow> map_bit (if ?c = ?m then set_map_bit (view s ?m) (n mod BPB) else view s ?c) (c mod BPB)"
    by (simp add: used_def assms(2,3) alloc_view_def Let_def del: BPB_def)
  have e: "?c = ?m \<longleftrightarrow> c div BPB = n div BPB" by (rule BBLOCK_eq_iff [OF size_less [OF c] size_less [OF n]])
  have q: "c = n \<longleftrightarrow> c div BPB = n div BPB \<and> n mod BPB = c mod BPB" by (metis div_mult_mod_eq)
  show ?thesis
  proof (cases "?c = ?m")
    case True
    have l: "n mod BPB < BPB" by simp
    show ?thesis using True map_bit_set [OF assms(1) l, of ?m "c mod BPB"] u e q by (simp add: used_def del: BPB_def)
  next
    case False
    then show ?thesis using u e q by (simp add: used_def del: BPB_def)
  qed
qed

lemma balloc_law:
  fixes s :: "'a kfs_scheme"
  assumes "tx F (Suc k) s" and "map_ok s" and "map_blocks s \<subseteq> F" and "opened s \<subseteq> F" and "opened s \<inter> map_blocks s = {}"
  shows "case find (\<lambda>n. \<not> used s n) [0..<unat (sb_size (sb s))] of
      None \<Rightarrow> balloc ROOTDEV s = Panic ''balloc: out of blocks''
    | Some n \<Rightarrow> \<exists>t. balloc ROOTDEV s = Ok (of_nat n) t \<and> tx (insert (of_nat n) F) k t \<and> view t = alloc_view s n \<and> fs_same s t"
proof -
  let ?sz = "unat (sb_size (sb s))"
  have "\<forall>b\<in>set (bitmap_starts ?sz). b mod BPB = 0 \<and> b < ?sz" by (auto simp: bitmap_starts_def)
  moreover have "balloc ROOTDEV s = balloc_loop ROOTDEV (bitmap_starts ?sz) s" by (simp add: balloc_def run_kbind)
  ultimately show ?thesis using balloc_loop_law [OF assms, of "bitmap_starts ?sz" ?sz] unfolding bitmap_starts_cover
    by (simp only: refl True_implies_equals)
qed

lemma map_ok_alloc:
  fixes s t :: "'a kfs_scheme"
  assumes "map_ok s" and "fs_same s t" and "\<And>c. c < unat (sb_size (sb s)) \<Longrightarrow> used t c \<longleftrightarrow> used s c \<or> c = n"
  shows "map_ok t"
  using assms fs_sameD [OF assms(2)] by (auto simp: map_ok_def map_blocks_def)

text \<open>
  C9.  \<^verbatim>\<open>balloc\<close> takes the lowest free block: it marks that block and no other, leaves it full of zeros,
  and changes no other block of the disk; one log entry and the blocks of the map are all it needs of the log.
  When every block is in use it panics.
\<close>

theorem balloc_takes_lowest:
  fixes s :: "'a kfs_scheme"
  assumes "tx F (Suc k) s" and "map_ok s" and "map_blocks s \<subseteq> F" and "opened s \<subseteq> F" and "opened s \<inter> map_blocks s = {}"
  shows "(\<exists>n t. n < unat (sb_size (sb s)) \<and> \<not> used s n \<and> (\<forall>c<n. used s c) \<and>
      balloc ROOTDEV s = Ok (of_nat n) t \<and> view t (of_nat n) = replicate BSIZE 0 \<and>
      (\<forall>c<unat (sb_size (sb s)). used t c \<longleftrightarrow> used s c \<or> c = n) \<and>
      (\<forall>m. m \<noteq> of_nat n \<and> m \<notin> map_blocks s \<longrightarrow> view t m = view s m) \<and>
      map_ok t \<and> tx (insert (of_nat n) F) k t \<and> fs_same s t)
    \<or> (\<forall>n<unat (sb_size (sb s)). used s n) \<and> balloc ROOTDEV s = Panic ''balloc: out of blocks''"
proof (cases "find (\<lambda>n. \<not> used s n) [0..<unat (sb_size (sb s))]")
  case None
  have "balloc ROOTDEV s = Panic ''balloc: out of blocks''" using balloc_law [OF assms] unfolding None by simp
  moreover have "\<forall>n<unat (sb_size (sb s)). used s n" using None by (auto simp: find_None_iff)
  ultimately show ?thesis by blast
next
  case (Some n)
  obtain t where t: "balloc ROOTDEV s = Ok (of_nat n) t" "tx (insert (of_nat n) F) k t" "view t = alloc_view s n" "fs_same s t"
    using balloc_law [OF assms] unfolding Some by auto
  have n: "n < unat (sb_size (sb s))" "\<not> used s n" "\<forall>c<n. used s c" using Some by (auto simp: find_Some_iff)
  have m: "of_nat n \<notin> map_blocks s" using assms(2) n by (simp add: map_ok_def)
  have u: "used t c \<longleftrightarrow> used s c \<or> c = n" if "c < unat (sb_size (sb s))" for c
    using used_alloc [OF tx_view_size [OF assms(1)] t(3) fs_sameD(3) [OF t(4)] n(1) that m] .
  moreover have "view t (of_nat n) = replicate BSIZE 0" by (simp add: t(3) alloc_view_def Let_def)
  moreover have "view t x = view s x" if "x \<noteq> of_nat n" "x \<notin> map_blocks s" for x
    using that map_blocksI [OF n(1)] by (auto simp: t(3) alloc_view_def Let_def)
  ultimately show ?thesis using n t(1,2,4) map_ok_alloc [OF assms(2) t(4) u] by blast
qed

section \<open>Examples\<close>

text \<open>A process in a transaction, with nothing cached, over a given disk.\<close>

definition demo_tx :: "(u32 \<Rightarrow> u8 list) \<Rightarrow> kfs" where
  "demo_tx img = demo_fs\<lparr>disk := img\<rparr>"

lemma demo_tx_fields [simp]:
  "sb (demo_tx img) = sb demo_fs" "itable (demo_tx img) = itable demo_fs" "log_start (demo_tx img) = 2" "log_size (demo_tx img) = 30"
  "disk (demo_tx img) = img" "log_outstanding (demo_tx img) = 1" "held (demo_tx img) = []" "logged (demo_tx img) = []"
  by (simp_all add: demo_tx_def demo_fs_def demo_boot_def klog.defs logged_def)

lemma demo_tx_view:
  "opened (demo_tx img) = {}" "view (demo_tx img) = img" "pin (demo_tx img) n = 0"
proof -
  have "\<not> caches (demo_tx img) i m" for i m
    by (auto simp: caches_def demo_tx_def demo_fs_def klog.defs demo_boot_def buf0_def ROOTDEV_def)
  then have sl: "slot (demo_tx img) m = None" for m by (simp add: slot_None)
  show "opened (demo_tx img) = {}" "view (demo_tx img) = img" "pin (demo_tx img) n = 0"
    by (auto simp: opened_def lkd_def view_def pin_def sl fun_eq_iff)
qed

lemma demo_tx_ok:
  assumes "\<And>n. length (img n) = BSIZE" and "\<And>m. m \<in> F \<Longrightarrow> 32 \<le> m" and "card F + k < 29"
  shows "tx F k (demo_tx img)"
proof -
  have c: "\<not> caches (demo_tx img) i m" for i m
    by (auto simp: caches_def demo_tx_def demo_fs_def klog.defs demo_boot_def buf0_def ROOTDEV_def)
  have ok: "bio_ok (demo_tx img)"
    using ring_upt c assms(1) by (auto simp: bio_ok_def bio_inv_def bio_ctx_def)
      (auto simp: demo_tx_def demo_fs_def klog.defs demo_boot_def buf_ok_def buf0_def)
  have inv: "log_inv (demo_tx img)"
    by (simp add: log_inv_def) (simp add: log_wf_def demo_tx_def demo_fs_def demo_boot_def klog.defs)
  have "\<not> in_log (demo_tx img) m" if "m \<in> F" for m
    using assms(2) [OF that] by (simp add: in_log_def word_le_def)
  then show ?thesis using ok inv assms(3) demo_tx_view by (simp add: tx_def)
qed

text \<open>Blocks 0 to 47 are in use.\<close>

definition demo_map :: "u32 \<Rightarrow> u8 list" where
  "demo_map n = (if n = 45 then replicate 6 (- 1) @ replicate (BSIZE - 6) 0 else replicate BSIZE 1)"

lemma demo_BBLOCK: "b < 1000 \<Longrightarrow> BBLOCK (of_nat b) (sb demo_fs) = 45"
  using BBLOCK_eq_iff [of b 0 "sb demo_fs"] by (simp add: BBLOCK_def demo_fs_def klog.defs)

lemma demo_map_blocks: "map_blocks (demo_tx img) = {45}"
proof -
  have "unat (sb_size (sb demo_fs)) = 1000" by (simp add: demo_fs_def klog.defs)
  then have "map_blocks (demo_tx img) = (\<lambda>b. 45) ` {..<1000 :: nat}"
    unfolding map_blocks_def demo_tx_fields using demo_BBLOCK by (intro image_cong) auto
  moreover have "(\<lambda>b. 45 :: u32) ` {..<1000 :: nat} = {45}" by (rule image_constant [of 0]) simp
  ultimately show ?thesis by simp
qed

lemma demo_used: "b < 1000 \<Longrightarrow> used (demo_tx demo_map) b \<longleftrightarrow> b < 48"
proof -
  assume b: "b < 1000"
  then have "demo_map 45 ! (b div 8) = (if b < 48 then - 1 else 0)" by (auto simp: demo_map_def nth_append)
  then show ?thesis using b demo_BBLOCK [OF b] by (simp add: used_def demo_tx_view map_bit_def)
qed

theorem balloc_takes_lowest_witness:
  "\<exists>t. balloc ROOTDEV (demo_tx demo_map) = Ok 48 t \<and> view t 48 = replicate BSIZE 0 \<and> used t 48 \<and> \<not> used t 49"
proof -
  let ?s = "demo_tx demo_map"
  have sz: "unat (sb_size (sb ?s)) = 1000" by (simp add: demo_fs_def klog.defs)
  have "of_nat b \<noteq> (45 :: u32) \<and> \<not> in_log ?s (of_nat b)" if "b < 1000" "48 \<le> b" for b
    using that unat_of_nat_u32 [of b] by (auto simp: in_log_def uint_nat)
  then have ok: "map_ok ?s" unfolding map_ok_def sz demo_map_blocks demo_tx_view using demo_used by auto
  have x: "tx {45} (Suc 3) ?s" by (rule demo_tx_ok) (simp_all add: demo_map_def)
  have "\<not> (\<forall>n<unat (sb_size (sb ?s)). used ?s n)" unfolding sz using demo_used [of 48] by fastforce
  then obtain n t where t: "n < 1000" "\<not> used ?s n" "\<forall>c<n. used ?s c" "balloc ROOTDEV ?s = Ok (of_nat n) t" "view t (of_nat n) = replicate BSIZE 0"
    "\<forall>c<1000. used t c \<longleftrightarrow> used ?s c \<or> c = n"
    using balloc_takes_lowest [OF x ok] unfolding demo_map_blocks demo_tx_view sz by blast
  have "n = 48" using t(1,2,3) demo_used [of n] demo_used [of 48] by (cases "n < 48"; cases "48 < n") auto
  then show ?thesis using t demo_used [of 49] by auto
qed

end
