(* ===== verification/Fs_Content.thy ===== *)
theory Fs_Content
  imports Fs
begin

text \<open>
  What the bytes on the disk mean: inodes in inode blocks, and the contents of a file as the blocks its inode
  names.  The kernel and \<^verbatim>\<open>mkfs\<close> share this reading of the disk.
\<close>

section \<open>Inodes as bytes\<close>

lemma take_drop_concat:
  assumes "\<And>x. length (f x) = n" and "i < length xs"
  shows "take n (drop (n * i) (concat (map f xs))) = f (xs ! i)"
  using assms(2)
proof (induction xs arbitrary: i)
  case (Cons x xs)
  then show ?case by (cases i) (simp_all add: assms(1))
qed simp

lemma length_concat_same: "(\<And>x. length (f x) = n) \<Longrightarrow> length (concat (map f xs)) = n * length xs"
  by (induction xs) simp_all

definition wf_dinode :: "dinode \<Rightarrow> bool" where
  "wf_dinode x \<longleftrightarrow> length (d_addrs x) = NDIRECT + 1"

lemma length_dinode_bytes: "wf_dinode x \<Longrightarrow> length (dinode_bytes x) = 64"
  by (simp add: wf_dinode_def dinode_bytes_def length_concat_same [of _ 4])

lemma length_put_dinode: "wf_dinode x \<Longrightarrow> k + 64 \<le> length d \<Longrightarrow> length (put_dinode d k x) = length d"
  by (simp add: put_dinode_def length_dinode_bytes)

lemma wf_get_dinode: "wf_dinode (get_dinode d k)"
  by (simp add: wf_dinode_def get_dinode_def)

lemma take_drop_put_inside:
  assumes "k + length xs \<le> length d" and "j + n \<le> length xs"
  shows "take n (drop (k + j) (put_bytes d k xs)) = take n (drop j xs)"
  using assms by (simp add: put_bytes_def)

lemma get_put_dinode:
  assumes "wf_dinode x" and "k + 64 \<le> length d"
  shows "get_dinode (put_dinode d k x) k = x"
proof -
  let ?b = "dinode_bytes x"
  note l = length_dinode_bytes [OF assms(1)]
  have g: "get_le n (put_dinode d k x) (k + j) = (word_of_bytes (take n (drop j ?b)) :: 'b::len word)" if "j + n \<le> 64" for n j
    unfolding get_le_def put_dinode_def using take_drop_put_inside [of k ?b d j n] assms(2) that l by simp
  have e: "take 2 ?b = bytes_of_word 2 (d_type x)" "take 2 (drop 2 ?b) = bytes_of_word 2 (d_major x)"
    "take 2 (drop 4 ?b) = bytes_of_word 2 (d_minor x)" "take 2 (drop 6 ?b) = bytes_of_word 2 (d_nlink x)"
    "take 4 (drop 8 ?b) = bytes_of_word 4 (d_size x)" "drop 12 ?b = concat (map (bytes_of_word 4) (d_addrs x))"
    by (simp_all add: dinode_bytes_def)
  have "take 4 (drop (12 + 4 * i) ?b) = bytes_of_word 4 (d_addrs x ! i)" if "i < NDIRECT + 1" for i
    using take_drop_concat [of "bytes_of_word 4" 4 i "d_addrs x"] that assms(1) e(6) [symmetric]
    by (simp add: wf_dinode_def add.commute)
  then have "get_le 4 (put_dinode d k x) (k + (12 + 4 * i)) = d_addrs x ! i" if "i < NDIRECT + 1" for i
    using that by (simp add: g word_of_bytes_of_word)
  then have a: "map (\<lambda>i. get_le 4 (put_dinode d k x) (k + 12 + 4 * i)) [0..<NDIRECT + 1] = d_addrs x"
    using assms(1) by (intro nth_equalityI) (simp_all add: wf_dinode_def add.assoc)
  have "get_le 2 (put_dinode d k x) (k + 0) = (word_of_bytes (take 2 (drop 0 ?b)) :: u16)" by (rule g) simp
  then have "get_le 2 (put_dinode d k x) k = d_type x" by (simp add: e word_of_bytes_of_word)
  moreover have "get_le 2 (put_dinode d k x) (k + 2) = d_major x"
    "get_le 2 (put_dinode d k x) (k + 4) = d_minor x" "get_le 2 (put_dinode d k x) (k + 6) = d_nlink x"
    "get_le 4 (put_dinode d k x) (k + 8) = d_size x"
    by (simp_all only: g e word_of_bytes_of_word drop_0 semiring_norm) (simp_all add: e word_of_bytes_of_word)
  ultimately show ?thesis unfolding get_dinode_def a by simp
qed

lemma get_put_dinode_other:
  assumes "wf_dinode x" and "k + 64 \<le> length d" and "j + 64 \<le> length d" and "j + 64 \<le> k \<or> k + 64 \<le> j"
  shows "get_dinode (put_dinode d k x) j = get_dinode d j"
proof -
  have "get_le n (put_dinode d k x) (j + i) = (get_le n d (j + i) :: 'b::len word)" if "i + n \<le> 64" for n i
    unfolding get_le_def put_dinode_def
    using assms that length_dinode_bytes [OF assms(1)] by (subst take_drop_put_bytes_other) auto
  note g = this
  have "get_le 2 (put_dinode d k x) (j + i) = (get_le 2 d (j + i) :: u16)" if "i + 2 \<le> 64" for i using that by (rule g)
  moreover from this [of 0] have "get_le 2 (put_dinode d k x) j = (get_le 2 d j :: u16)" by simp
  moreover have "get_le 4 (put_dinode d k x) (j + i) = (get_le 4 d (j + i) :: u32)" if "i + 4 \<le> 64" for i using that by (rule g)
  ultimately show ?thesis unfolding get_dinode_def by (simp add: add.assoc del: add_2_eq_Suc')
qed

text \<open>The inode with a number, and the disk after one was stored.\<close>

definition dinode_at :: "superblock \<Rightarrow> (u32 \<Rightarrow> u8 list) \<Rightarrow> u32 \<Rightarrow> dinode" where
  "dinode_at sbk V inum = get_dinode (V (IBLOCK inum sbk)) (dinode_off inum)"

definition store_dinode :: "superblock \<Rightarrow> (u32 \<Rightarrow> u8 list) \<Rightarrow> u32 \<Rightarrow> dinode \<Rightarrow> u32 \<Rightarrow> u8 list" where
  "store_dinode sbk V inum x = V(IBLOCK inum sbk := put_dinode (V (IBLOCK inum sbk)) (dinode_off inum) x)"

lemma dinode_off_le: "dinode_off inum + 64 \<le> BSIZE"
  using mod_less_divisor [of IPB "unat inum"] by (simp add: dinode_off_def)

lemma IBLOCK_off_eq:
  assumes "IBLOCK i sbk = IBLOCK j sbk" and "dinode_off i = dinode_off j"
  shows "i = j"
proof -
  have "i div of_nat IPB = j div of_nat IPB" using assms(1) by (simp add: IBLOCK_def)
  then have "unat (i div of_nat IPB) = unat (j div of_nat IPB)" by simp
  then have "unat i div IPB = unat j div IPB" by (simp add: unat_div)
  moreover have "unat i mod IPB = unat j mod IPB" using assms(2) by (simp add: dinode_off_def)
  ultimately have "unat i = unat j" by (metis div_mult_mod_eq)
  then show ?thesis by (rule unsigned_word_eqI)
qed

lemma dinode_at_store:
  assumes "length (V (IBLOCK inum sbk)) = BSIZE" and "wf_dinode x"
  shows "dinode_at sbk (store_dinode sbk V inum x) j = (if j = inum then x else dinode_at sbk V j)"
proof (cases "IBLOCK j sbk = IBLOCK inum sbk \<and> j \<noteq> inum")
  case True
  then have "dinode_off j \<noteq> dinode_off inum" using IBLOCK_off_eq [of j sbk inum] by auto
  then have "dinode_off j + 64 \<le> dinode_off inum \<or> dinode_off inum + 64 \<le> dinode_off j" by (auto simp: dinode_off_def)
  then show ?thesis using True get_put_dinode_other [OF assms(2), of "dinode_off inum" _ "dinode_off j"] dinode_off_le assms(1)
    by (simp add: dinode_at_def store_dinode_def)
next
  case False
  then show ?thesis using get_put_dinode [OF assms(2), of "dinode_off inum"] dinode_off_le assms(1)
    by (auto simp: dinode_at_def store_dinode_def)
qed

lemma store_dinode_size:
  assumes "\<And>n. length (V n) = BSIZE" and "wf_dinode x"
  shows "length (store_dinode sbk V inum x n) = BSIZE"
  using assms(1) length_put_dinode [OF assms(2), of "dinode_off inum" "V (IBLOCK inum sbk)"] dinode_off_le [of inum]
  by (simp add: store_dinode_def)

section \<open>The blocks of a file\<close>

definition ind_addr :: "dinode \<Rightarrow> u32" where
  "ind_addr x = d_addrs x ! NDIRECT"

text \<open>Where block \<open>i\<close> of a file is; 0 if nowhere.\<close>

definition faddr :: "(u32 \<Rightarrow> u8 list) \<Rightarrow> dinode \<Rightarrow> nat \<Rightarrow> u32" where
  "faddr V x i = (if i < NDIRECT then d_addrs x ! i else if ind_addr x = 0 then 0 else get_le 4 (V (ind_addr x)) (4 * (i - NDIRECT)))"

definition nblk :: "nat \<Rightarrow> nat" where
  "nblk sz = (sz + BSIZE - 1) div BSIZE"

text \<open>The first \<open>sz\<close> bytes of a file, and all of it.\<close>

definition content_upto :: "(u32 \<Rightarrow> u8 list) \<Rightarrow> dinode \<Rightarrow> nat \<Rightarrow> u8 list" where
  "content_upto V x sz = take sz (concat (map (\<lambda>i. V (faddr V x i)) [0..<nblk sz]))"

definition content :: "(u32 \<Rightarrow> u8 list) \<Rightarrow> dinode \<Rightarrow> u8 list" where
  "content V x = content_upto V x (unat (d_size x))"

text \<open>The blocks a file owns.\<close>

definition fblocks :: "(u32 \<Rightarrow> u8 list) \<Rightarrow> dinode \<Rightarrow> u32 set" where
  "fblocks V x = insert (ind_addr x) (faddr V x ` {..<MAXFILE}) - {0}"

text \<open>The blocks of a file are different from each other, and those below \<open>sz\<close> are there.\<close>

definition file_ok :: "(u32 \<Rightarrow> u8 list) \<Rightarrow> dinode \<Rightarrow> nat \<Rightarrow> bool" where
  "file_ok V x sz \<longleftrightarrow> wf_dinode x \<and> sz \<le> MAXFILE * BSIZE \<and> (\<forall>i<nblk sz. faddr V x i \<noteq> 0) \<and>
     (\<forall>i<MAXFILE. faddr V x i \<noteq> 0 \<longrightarrow> faddr V x i \<noteq> ind_addr x \<and> (\<forall>j<MAXFILE. faddr V x i = faddr V x j \<longrightarrow> i = j))"

lemma nblk_bound: "sz \<le> nblk sz * BSIZE" "j < sz \<Longrightarrow> j div BSIZE < nblk sz" "sz \<le> n * BSIZE \<Longrightarrow> nblk sz \<le> n"
  by (simp_all add: nblk_def)

lemma nth_concat_same:
  assumes "\<And>i. length (f i) = B" and "j < B * n"
  shows "concat (map f [0..<n]) ! j = f (j div B) ! (j mod B)"
  using assms(2)
proof (induction n)
  case (Suc n)
  have l: "length (concat (map f [0..<n])) = B * n" using length_concat_same [of f B "[0..<n]"] assms(1) by simp
  show ?case
  proof (cases "j < B * n")
    case True
    then show ?thesis using Suc.IH l by (simp add: nth_append)
  next
    case False
    then obtain r where "j = B * n + r" by (metis le_add_diff_inverse not_less)
    moreover from this have "r < B" using Suc.prems by simp
    ultimately show ?thesis using l by (simp add: nth_append)
  qed
qed simp

lemma length_content_upto: "(\<And>n. length (V n) = BSIZE) \<Longrightarrow> length (content_upto V x sz) = sz"
  using nblk_bound(1) [of sz] length_concat_same [of "\<lambda>i. V (faddr V x i)" BSIZE "[0..<nblk sz]"] by (simp add: content_upto_def)

lemma nth_content_upto:
  assumes "\<And>n. length (V n) = BSIZE" and "j < sz"
  shows "content_upto V x sz ! j = V (faddr V x (j div BSIZE)) ! (j mod BSIZE)"
  using nblk_bound(1) [of sz] nth_concat_same [of "\<lambda>i. V (faddr V x i)" BSIZE j "nblk sz"] assms by (simp add: content_upto_def)

lemma content_upto_cong:
  "(\<And>i. i < nblk sz \<Longrightarrow> V' (faddr V' x' i) = V (faddr V x i)) \<Longrightarrow> content_upto V' x' sz = content_upto V x sz"
  unfolding content_upto_def by (intro arg_cong [where f = "\<lambda>x. take sz (concat x)"] map_cong) auto

text \<open>A file depends on its own blocks only.\<close>

lemma nblk_MAXFILE: "file_ok V x sz \<Longrightarrow> nblk sz \<le> MAXFILE"
  using nblk_bound(3) [of sz MAXFILE] by (simp add: file_ok_def del: MAXFILE_def)

lemma faddr_fblocks: "i < MAXFILE \<Longrightarrow> faddr V x i \<noteq> 0 \<Longrightarrow> faddr V x i \<in> fblocks V x"
  by (auto simp: fblocks_def)

lemma faddr_agree: "(ind_addr x \<noteq> 0 \<Longrightarrow> V' (ind_addr x) = V (ind_addr x)) \<Longrightarrow> faddr V' x i = faddr V x i"
  by (auto simp: faddr_def)

lemma file_agree:
  assumes "\<And>a. a \<in> fblocks V x \<Longrightarrow> V' a = V a"
  shows "faddr V' x = faddr V x" "fblocks V' x = fblocks V x" "file_ok V' x sz = file_ok V x sz"
    "file_ok V x sz \<Longrightarrow> content_upto V' x sz = content_upto V x sz"
proof -
  have f: "faddr V' x = faddr V x" using assms by (intro ext faddr_agree) (auto simp: fblocks_def)
  then show "faddr V' x = faddr V x" "fblocks V' x = fblocks V x" "file_ok V' x sz = file_ok V x sz"
    by (simp_all add: fblocks_def file_ok_def)
  show "content_upto V' x sz = content_upto V x sz" if ok: "file_ok V x sz"
  proof (rule content_upto_cong)
    fix i assume i: "i < nblk sz"
    then have "faddr V x i \<in> fblocks V x" using ok nblk_MAXFILE [OF ok] by (intro faddr_fblocks) (auto simp: file_ok_def)
    then show "V' (faddr V' x i) = V (faddr V x i)" using f assms by simp
  qed
qed

text \<open>A file gets block \<open>i\<close> at the address \<open>a\<close>.\<close>

lemma file_grow:
  assumes ok: "file_ok V x sz" and i: "i < MAXFILE" "faddr V x i = 0" and a: "a \<noteq> 0" "a \<notin> fblocks V x" and x': "wf_dinode x'" "ind_addr x' = ind_addr x"
    and f: "\<And>j. j < MAXFILE \<Longrightarrow> faddr V' x' j = (if j = i then a else faddr V x j)"
    and V: "\<And>b. b \<in> fblocks V x \<Longrightarrow> b \<noteq> ind_addr x \<Longrightarrow> V' b = V b"
  shows "file_ok V' x' sz" "fblocks V' x' = insert a (fblocks V x)" "content_upto V' x' sz = content_upto V x sz"
proof -
  have n: "j < nblk sz \<Longrightarrow> j < MAXFILE \<and> j \<noteq> i \<and> faddr V x j \<noteq> 0" for j
    using ok i(2) nblk_MAXFILE [OF ok] by (auto simp: file_ok_def simp del: MAXFILE_def)
  have na: "j < MAXFILE \<Longrightarrow> faddr V x j \<noteq> a" for j using a faddr_fblocks [of j V x] by metis
  have ia: "ind_addr x \<noteq> a" using a by (auto simp: fblocks_def)
  have inj: "faddr V x j \<noteq> ind_addr x \<and> (\<forall>k<MAXFILE. faddr V x j = faddr V x k \<longrightarrow> j = k)" if "j < MAXFILE" "faddr V x j \<noteq> 0" for j
    using ok that by (simp add: file_ok_def del: MAXFILE_def)
  show "file_ok V' x' sz" unfolding file_ok_def
  proof (intro conjI allI impI)
    show "wf_dinode x'" "sz \<le> MAXFILE * BSIZE" using x'(1) ok by (auto simp: file_ok_def)
    show "faddr V' x' j \<noteq> 0" if "j < nblk sz" for j using n [OF that] f [of j] by simp
    show "faddr V' x' j \<noteq> ind_addr x'" if "j < MAXFILE" "faddr V' x' j \<noteq> 0" for j
      using that f inj [of j] ia x'(2) by (auto split: if_splits)
    show "j = k" if "j < MAXFILE" "faddr V' x' j \<noteq> 0" "k < MAXFILE" "faddr V' x' j = faddr V' x' k" for j k
      using that f [of j] f [of k] inj [of j] na [of j] na [of k] by (cases "j = i"; cases "k = i") auto
  qed
  have "faddr V' x' ` {..<MAXFILE} - {0} = insert a (faddr V x ` {..<MAXFILE} - {0})"
  proof (rule set_eqI)
    fix b
    show "b \<in> faddr V' x' ` {..<MAXFILE} - {0} \<longleftrightarrow> b \<in> insert a (faddr V x ` {..<MAXFILE} - {0})"
      using f i a(1) by (auto simp: image_iff simp del: MAXFILE_def split: if_splits)
  qed
  then show "fblocks V' x' = insert a (fblocks V x)" using a(1) x'(2) by (auto simp: fblocks_def simp del: MAXFILE_def)
  show "content_upto V' x' sz = content_upto V x sz"
    using n f V faddr_fblocks inj by (intro content_upto_cong) (simp del: MAXFILE_def)
qed

text \<open>The three ways to do so: an entry of the inode, a new indirect block, an entry of the indirect block.\<close>

lemma faddr_direct:
  assumes "wf_dinode x" and "i < NDIRECT"
  shows "faddr V (x\<lparr>d_addrs := (d_addrs x)[i := a]\<rparr>) j = (if j = i then a else faddr V x j)"
    "ind_addr (x\<lparr>d_addrs := (d_addrs x)[i := a]\<rparr>) = ind_addr x" "wf_dinode (x\<lparr>d_addrs := (d_addrs x)[i := a]\<rparr>)"
  using assms by (auto simp: faddr_def ind_addr_def wf_dinode_def)

lemma get_le_zeros: "get_le n (replicate m 0) k = (0 :: 'a::len word)"
proof -
  have "word_of_bytes (replicate m 0) = (0 :: 'a word)" for m by (induction m) simp_all
  then show ?thesis by (simp add: get_le_def)
qed

lemma faddr_indirect:
  assumes "ind_addr x = 0" and "V a = replicate BSIZE 0" and "wf_dinode x"
  shows "faddr V (x\<lparr>d_addrs := (d_addrs x)[NDIRECT := a]\<rparr>) = faddr V x"
    "ind_addr (x\<lparr>d_addrs := (d_addrs x)[NDIRECT := a]\<rparr>) = a" "wf_dinode (x\<lparr>d_addrs := (d_addrs x)[NDIRECT := a]\<rparr>)"
  using assms by (auto simp: faddr_def ind_addr_def wf_dinode_def get_le_zeros fun_eq_iff)

lemma faddr_entry:
  assumes "ind_addr x \<noteq> 0" and "length (V (ind_addr x)) = BSIZE" and "k < NINDIRECT" and "j < MAXFILE"
  shows "faddr (V(ind_addr x := put_le 4 (V (ind_addr x)) (4 * k) a)) x j = (if j = NDIRECT + k then a else faddr V x j)"
proof (cases "j = NDIRECT + k \<or> j < NDIRECT")
  case True
  then show ?thesis using assms get_put_le_same [of "4 * k" 4 "V (ind_addr x)" a] by (auto simp: faddr_def)
next
  case False
  then have "4 * (j - NDIRECT) + 4 \<le> 4 * k \<or> 4 * k + 4 \<le> 4 * (j - NDIRECT)" by (auto simp: not_less)
  then show ?thesis using assms False get_put_le_other [of "4 * k" 4 "V (ind_addr x)" "4 * (j - NDIRECT)" 4 a]
    by (auto simp: faddr_def)
qed

text \<open>A new indirect block belongs to the file and changes nothing else.\<close>

lemma file_indirect:
  assumes ok: "file_ok V x sz" and "ind_addr x = 0" and a: "V a = replicate BSIZE 0" "a \<noteq> 0" "a \<notin> fblocks V x"
  defines "x' \<equiv> x\<lparr>d_addrs := (d_addrs x)[NDIRECT := a]\<rparr>"
  shows "file_ok V x' sz" "fblocks V x' = insert a (fblocks V x)" "content_upto V x' sz = content_upto V x sz" "faddr V x' = faddr V x"
proof -
  have w: "wf_dinode x" using ok by (simp add: file_ok_def)
  note f = faddr_indirect [of x V a, OF assms(2) a(1) w, folded x'_def]
  have na: "j < MAXFILE \<Longrightarrow> faddr V x j \<noteq> a" for j using a faddr_fblocks [of j V x] by metis
  show "faddr V x' = faddr V x" by (rule f(1))
  then show "content_upto V x' sz = content_upto V x sz" by (intro content_upto_cong) simp
  show "fblocks V x' = insert a (fblocks V x)" using f a(2) assms(2) by (auto simp: fblocks_def simp del: MAXFILE_def)
  show "file_ok V x' sz" using ok f na by (simp add: file_ok_def del: MAXFILE_def)
qed

lemma div_mod_add_small:
  assumes "off mod B + r < (B :: nat)"
  shows "(off + r) div B = off div B" "(off + r) mod B = off mod B + r"
proof -
  have "0 < B" using assms by (cases B) auto
  then have "off = B * (off div B) + off mod B" "off mod B < B" by simp_all
  then obtain q m where q: "off = B * q + m" "m < B" by blast
  then have "m + r < B" using assms by simp
  then show "(off + r) div B = off div B" "(off + r) mod B = off mod B + r" using q by (simp_all add: add.assoc)
qed

text \<open>Writing into a block of the file.\<close>

lemma file_write:
  assumes V: "\<And>n. length (V n) = BSIZE" and ok: "file_ok V x sz" and off: "off \<le> sz" "off div BSIZE < MAXFILE"
    and a: "a = faddr V x (off div BSIZE)" "a \<noteq> 0" and bs: "off mod BSIZE + length bs \<le> BSIZE"
  defines "V' \<equiv> V(a := put_bytes (V a) (off mod BSIZE) bs)"
  shows "faddr V' x = faddr V x" "fblocks V' x = fblocks V x" "file_ok V' x (max sz (off + length bs))"
    "content_upto V' x (max sz (off + length bs)) = put_bytes (content_upto V x sz) off bs"
proof -
  let ?i = "off div BSIZE" and ?sz = "max sz (off + length bs)"
  have inj: "faddr V x j \<noteq> ind_addr x \<and> (\<forall>k<MAXFILE. faddr V x j = faddr V x k \<longrightarrow> j = k)" if "j < MAXFILE" "faddr V x j \<noteq> 0" for j
    using ok that by (simp add: file_ok_def del: MAXFILE_def)
  have ai: "a \<noteq> ind_addr x" using inj [OF off(2)] a by simp
  show f: "faddr V' x = faddr V x" using ai by (intro ext faddr_agree) (simp add: V'_def)
  then show "fblocks V' x = fblocks V x" by (simp add: fblocks_def)
  have e: "off + length bs \<le> (?i + 1) * BSIZE" using bs mult_div_mod_eq [of BSIZE off] by (simp only: add_mult_distrib mult.commute [of "off div BSIZE"])
  then have s: "?sz \<le> MAXFILE * BSIZE" using ok off(2) mult_le_mono1 [of "?i + 1" MAXFILE BSIZE] by (simp add: file_ok_def del: MAXFILE_def BSIZE_def)
  have n: "nblk ?sz \<le> max (nblk sz) (?i + 1)"
    using nblk_bound(3) [OF e] by (auto simp: max_def)
  have "faddr V x j \<noteq> 0" if "j < nblk ?sz" for j
  proof (cases "j < nblk sz")
    case True then show ?thesis using ok by (simp add: file_ok_def)
  next
    case False
    have "?i \<le> nblk sz" using off(1) by (simp add: nblk_def)
    then have "j = ?i" using that False n by (auto simp: max_def split: if_splits)
    then show ?thesis using a by simp
  qed
  then show "file_ok V' x ?sz" using ok s by (simp add: file_ok_def f del: MAXFILE_def)
  have V's: "length (V' m) = BSIZE" for m using V bs by (simp add: V'_def)
  show "content_upto V' x ?sz = put_bytes (content_upto V x sz) off bs"
  proof (rule nth_equalityI)
    note l = length_content_upto [of V x sz, OF V]
    show "length (content_upto V' x ?sz) = length (put_bytes (content_upto V x sz) off bs)"
      using length_content_upto [of V' x ?sz, OF V's] l off(1) by (simp add: put_bytes_def)
    fix j assume "j < length (content_upto V' x ?sz)"
    then have j: "j < ?sz" using length_content_upto [of V' x ?sz, OF V's] by simp
    have jM: "j div BSIZE < MAXFILE" using less_le_trans [OF j s] by (simp del: MAXFILE_def add: div_less_iff_less_mult)
    have L: "content_upto V' x ?sz ! j = V' (faddr V x (j div BSIZE)) ! (j mod BSIZE)" using nth_content_upto [of V' j ?sz x, OF V's j] f by simp
    show "content_upto V' x ?sz ! j = put_bytes (content_upto V x sz) off bs ! j"
    proof (cases "off \<le> j \<and> j < off + length bs")
      case True
      then obtain r where r: "j = off + r" "r < length bs" by (metis add_less_cancel_left le_iff_add)
      have "j div BSIZE = ?i" "j mod BSIZE = off mod BSIZE + r" using div_mod_add_small [of off BSIZE r] r bs by simp_all
      then show ?thesis using L a(1) r bs V off(1) l by (simp add: V'_def nth_put_bytes) (simp add: put_bytes_def nth_append)
    next
      case False
      then have js: "j < sz" using j off(1) by auto
      have R: "put_bytes (content_upto V x sz) off bs ! j = V (faddr V x (j div BSIZE)) ! (j mod BSIZE)"
        using False js off(1) l nth_content_upto [of V j sz x, OF V js] by (auto simp: put_bytes_def nth_append)
      show ?thesis
      proof (cases "faddr V x (j div BSIZE) = a")
        case True
        then have q: "j div BSIZE = ?i" using inj [OF jM] a off(2) by auto
        have "j = BSIZE * ?i + j mod BSIZE" unfolding q [symmetric] by simp
        moreover have "off = BSIZE * ?i + off mod BSIZE" by simp
        ultimately have "\<not> (off mod BSIZE \<le> j mod BSIZE \<and> j mod BSIZE < off mod BSIZE + length bs)" using False by linarith
        then show ?thesis using L R True V bs by (auto simp: V'_def nth_put_bytes)
      qed (use L R in \<open>simp add: V'_def\<close>)
    qed
  qed
qed

end
