(* ===== verification/Mkfs.thy ===== *)
theory Mkfs
  imports Fs_Content
begin

text \<open>
  \<^verbatim>\<open>mkfs/mkfs.c\<close>, the program of the host that makes the disk image: the image file as an array of
  sectors, the allocation of inodes and blocks in order, and the files it copies in.  The files of the host are
  an argument: for each name, the pieces that successive calls of \<^verbatim>\<open>read\<close> return.  What the program
  prints is left out.  \<^verbatim>\<open>die\<close> and a failed \<^verbatim>\<open>assert\<close> end the program with a message.
\<close>

section \<open>State\<close>

definition NINODES :: nat where [simp]: "NINODES = 200"
definition nbitmap :: nat where "nbitmap = FSSIZE div (BSIZE * 8) + 1"
definition ninodeblocks :: nat where "ninodeblocks = NINODES div IPB + 1"
definition nlog :: nat where "nlog = LOGSIZE"
definition nmeta :: nat where "nmeta = 2 + nlog + ninodeblocks + nbitmap"

text \<open>
  The sectors of the image file, how many of them the file has, the number of operations on the file after
  which one fails, if any does, and the variables of the program.
\<close>

record mkfs =
  fsimg :: "u32 \<Rightarrow> u8 list"
  fslen :: nat
  io_left :: "nat option"
  mk_sb :: superblock
  freeinode :: u32
  freeblock :: u32

section \<open>Integers\<close>

definition xshort :: "u16 \<Rightarrow> u16" where
  "xshort x = word_of_bytes [ucast x, ucast (drop_bit 8 x)]"

definition xint :: "u32 \<Rightarrow> u32" where
  "xint x = word_of_bytes [ucast x, ucast (drop_bit 8 x), ucast (drop_bit 16 x), ucast (drop_bit 24 x)]"

section \<open>Sectors\<close>

definition die :: "string \<Rightarrow> (mkfs, 'b) op" where
  "die msg = kpanic msg"

definition host_io :: "string \<Rightarrow> (mkfs, unit) op" where
  "host_io msg =
     kbind (kget io_left) (\<lambda>left.
     case left of
       None \<Rightarrow> kret ()
     | Some 0 \<Rightarrow> die msg
     | Some (Suc n) \<Rightarrow> kmod (\<lambda>s. s\<lparr>io_left := Some n\<rparr>))"

text \<open>\<^verbatim>\<open>sec * BSIZE\<close> in 32 bits, as a sector.\<close>

definition sect_pos :: "u32 \<Rightarrow> u32" where
  "sect_pos sec = (sec * of_nat BSIZE) div of_nat BSIZE"

definition wsect :: "u32 \<Rightarrow> u8 list \<Rightarrow> (mkfs, unit) op" where
  "wsect sec buf =
     kthen (host_io ''lseek'') (
     kthen (host_io ''write'')
     (kmod (\<lambda>s. s\<lparr>fsimg := (fsimg s)(sect_pos sec := buf), fslen := max (fslen s) (unat (sect_pos sec) + 1)\<rparr>)))"

definition rsect :: "u32 \<Rightarrow> (mkfs, u8 list) op" where
  "rsect sec =
     kthen (host_io ''lseek'') (
     kthen (host_io ''read'') (
     kbind (kget fslen) (\<lambda>len.
     if unat (sect_pos sec) < len then kget (\<lambda>s. fsimg s (sect_pos sec)) else die ''read'')))"

section \<open>Inodes\<close>

definition winode :: "u32 \<Rightarrow> dinode \<Rightarrow> (mkfs, unit) op" where
  "winode inum ip =
     kbind (kget mk_sb) (\<lambda>sbk.
     let bn = IBLOCK inum sbk in
     kbind (rsect bn) (\<lambda>buf.
     wsect bn (put_dinode buf (dinode_off inum) ip)))"

definition rinode :: "u32 \<Rightarrow> (mkfs, dinode) op" where
  "rinode inum =
     kbind (kget mk_sb) (\<lambda>sbk.
     let bn = IBLOCK inum sbk in
     kbind (rsect bn) (\<lambda>buf.
     kret (get_dinode buf (dinode_off inum))))"

definition mkfs_ialloc :: "u16 \<Rightarrow> (mkfs, u32) op" where
  "mkfs_ialloc ty =
     kbind (kget freeinode) (\<lambda>inum.
     kthen (kmod (\<lambda>s. s\<lparr>freeinode := freeinode s + 1\<rparr>)) (
     kthen (winode inum \<lparr>d_type = xshort ty, d_major = 0, d_minor = 0, d_nlink = xshort 1, d_size = xint 0,
                         d_addrs = replicate (NDIRECT + 1) 0\<rparr>)
     (kret inum)))"

section \<open>Blocks\<close>

definition mkfs_balloc :: "nat \<Rightarrow> (mkfs, unit) op" where
  "mkfs_balloc used =
     (if \<not> used < BSIZE * 8 then die ''assert'' else
      kbind (kget mk_sb) (\<lambda>sbk.
      wsect (sb_bmapstart sbk) (fold (\<lambda>i buf. set_map_bit buf i) [0..<used] (replicate BSIZE 0))))"

text \<open>\<^verbatim>\<open>freeblock++\<close>\<close>

definition take_block :: "(mkfs, u32) op" where
  "take_block = kbind (kget freeblock) (\<lambda>b. kthen (kmod (\<lambda>s. s\<lparr>freeblock := freeblock s + 1\<rparr>)) (kret (xint b)))"

text \<open>
  The part of the loop of \<^verbatim>\<open>iappend\<close> that finds block \<open>fbn\<close> of the file, and adds it if it is missing: first
  with the indirect block at hand, then all of it.
\<close>

definition iappend_entry :: "nat \<Rightarrow> dinode \<Rightarrow> (mkfs, u32) op" where
  "iappend_entry fbn din =
     kbind (rsect (xint (d_addrs din ! NDIRECT))) (\<lambda>indirect.
     kbind (if get_le 4 indirect (4 * (fbn - NDIRECT)) = (0 :: u32)
            then kbind take_block (\<lambda>b.
                 let indirect' = put_le 4 indirect (4 * (fbn - NDIRECT)) b in
                 kthen (wsect (xint (d_addrs din ! NDIRECT)) indirect')
                 (kret indirect'))
            else kret indirect) (\<lambda>indirect.
     kret (xint (get_le 4 indirect (4 * (fbn - NDIRECT))))))"

definition iappend_block :: "nat \<Rightarrow> dinode \<Rightarrow> (mkfs, u32 \<times> dinode) op" where
  "iappend_block fbn din =
     (if fbn < NDIRECT then
        kbind (if xint (d_addrs din ! fbn) = 0
               then kbind take_block (\<lambda>b. kret (din\<lparr>d_addrs := (d_addrs din)[fbn := b]\<rparr>))
               else kret din) (\<lambda>din.
        kret (xint (d_addrs din ! fbn), din))
      else
        kbind (if xint (d_addrs din ! NDIRECT) = 0
               then kbind take_block (\<lambda>b. kret (din\<lparr>d_addrs := (d_addrs din)[NDIRECT := b]\<rparr>))
               else kret din) (\<lambda>din.
        kbind (iappend_entry fbn din) (\<lambda>x.
        kret (x, din))))"

text \<open>The loop; the first argument bounds its turns.  Its results are \<^verbatim>\<open>off\<close> and \<^verbatim>\<open>din\<close>.\<close>

primrec iappend_loop :: "nat \<Rightarrow> u8 list \<Rightarrow> u32 \<Rightarrow> dinode \<Rightarrow> (mkfs, u32 \<times> dinode) op" where
  "iappend_loop 0 p off din = (\<lambda>s. Hang)"
| "iappend_loop (Suc k) p off din =
     (if p = [] then kret (off, din) else
      let fbn = unat off div BSIZE in
      if \<not> fbn < MAXFILE then die ''assert'' else
      kbind (iappend_block fbn din) (\<lambda>(x, din).
      let n1 = min (length p) ((fbn + 1) * BSIZE - unat off) in
      kbind (rsect x) (\<lambda>buf.
      kthen (wsect x (put_bytes buf (unat off - fbn * BSIZE) (take n1 p)))
      (iappend_loop k (drop n1 p) (off + of_nat n1) din))))"

definition iappend :: "u32 \<Rightarrow> u8 list \<Rightarrow> (mkfs, unit) op" where
  "iappend inum xp =
     kbind (rinode inum) (\<lambda>din.
     kbind (iappend_loop (length xp + 1) xp (xint (d_size din)) din) (\<lambda>(off, din).
     winode inum (din\<lparr>d_size := xint off\<rparr>)))"

section \<open>The program\<close>

text \<open>An entry of a directory; \<^verbatim>\<open>strncpy\<close> fills the name with zeros.\<close>

definition mkfs_dirent :: "u32 \<Rightarrow> u8 list \<Rightarrow> u8 list" where
  "mkfs_dirent inum name = mk_dirent (xshort (ucast inum)) (take DIRSIZ name @ replicate (DIRSIZ - length name) 0)"

definition short_name :: "u8 list \<Rightarrow> u8 list" where
  "short_name path = (let user = [117, 115, 101, 114, 47] in if take 5 path = user then drop 5 path else path)"

definition skip_underscore :: "u8 list \<Rightarrow> u8 list" where
  "skip_underscore name = (if name \<noteq> [] \<and> hd name = 95 then tl name else name)"

text \<open>\<^verbatim>\<open>while((cc = read(fd, buf, sizeof(buf))) > 0) iappend(inum, buf, cc);\<close>\<close>

primrec append_pieces :: "u32 \<Rightarrow> u8 list list \<Rightarrow> (mkfs, unit) op" where
  "append_pieces inum [] = kret ()"
| "append_pieces inum (cc # pieces) = kthen (iappend inum cc) (append_pieces inum pieces)"

text \<open>The body of the loop over the arguments, and the loop.\<close>

definition add_file :: "(u8 list \<Rightarrow> u8 list list option) \<Rightarrow> u32 \<Rightarrow> u8 list \<Rightarrow> (mkfs, unit) op" where
  "add_file host rootino path =
     (let shortname = short_name path in
      if 47 \<in> set shortname then die ''assert'' else
      case host path of
        None \<Rightarrow> die ''open''
      | Some pieces \<Rightarrow>
          kbind (mkfs_ialloc T_FILE) (\<lambda>inum.
          kthen (iappend rootino (mkfs_dirent inum (skip_underscore shortname)))
          (append_pieces inum pieces)))"

primrec add_files :: "(u8 list \<Rightarrow> u8 list list option) \<Rightarrow> u32 \<Rightarrow> u8 list list \<Rightarrow> (mkfs, unit) op" where
  "add_files host rootino [] = kret ()"
| "add_files host rootino (path # paths) = kthen (add_file host rootino path) (add_files host rootino paths)"

definition mkfs_super :: superblock where
  "mkfs_super = \<lparr>sb_magic = FSMAGIC, sb_size = xint (of_nat FSSIZE), sb_nblocks = xint (of_nat (FSSIZE - nmeta)),
     sb_ninodes = xint (of_nat NINODES), sb_nlog = xint (of_nat nlog), sb_logstart = xint 2,
     sb_inodestart = xint (of_nat (2 + nlog)), sb_bmapstart = xint (of_nat (2 + nlog + ninodeblocks))\<rparr>"

definition superblock_bytes :: "superblock \<Rightarrow> u8 list" where
  "superblock_bytes x = concat (map (bytes_of_word 4) [sb_magic x, sb_size x, sb_nblocks x, sb_ninodes x, sb_nlog x,
     sb_logstart x, sb_inodestart x, sb_bmapstart x])"

definition fix_root_size :: "u32 \<Rightarrow> (mkfs, unit) op" where
  "fix_root_size rootino =
     kbind (rinode rootino) (\<lambda>din.
     let off = (xint (d_size din) div of_nat BSIZE + 1) * of_nat BSIZE in
     winode rootino (din\<lparr>d_size := xint off\<rparr>))"

definition mkfs_main :: "(u8 list \<Rightarrow> u8 list list option) \<Rightarrow> u8 list list \<Rightarrow> (mkfs, unit) op" where
  "mkfs_main host argv =
     (if length argv < 2 then die ''Usage: mkfs fs.img files...'' else
      kthen (host_io ''open'') (
      kthen (kmod (\<lambda>s. s\<lparr>fsimg := (\<lambda>_. replicate BSIZE 0), fslen := 0, mk_sb := mkfs_super, freeblock := of_nat nmeta\<rparr>)) (
      kthen (kfor [0..<FSSIZE] (\<lambda>i. wsect (of_nat i) (replicate BSIZE 0))) (
      kthen (wsect 1 (put_bytes (replicate BSIZE 0) 0 (superblock_bytes mkfs_super))) (
      kbind (mkfs_ialloc T_DIR) (\<lambda>rootino.
      if rootino \<noteq> ROOTINO then die ''assert'' else
      kthen (iappend rootino (mkfs_dirent rootino [46])) (
      kthen (iappend rootino (mkfs_dirent rootino [46, 46])) (
      kthen (add_files host rootino (drop 2 argv)) (
      kthen (fix_root_size rootino) (
      kbind (kget freeblock) (\<lambda>b.
      mkfs_balloc (unat b))))))))))))"

end
