(* ===== verification/Mkfs_Image.thy ===== *)
theory Mkfs_Image
  imports Mkfs Fs_Alloc
begin

text \<open>
  What \<^verbatim>\<open>mkfs\<close> leaves on the disk: the super block the kernel will read, the free map, and every file
  with its contents in blocks of its own.
\<close>

section \<open>Sectors and inodes\<close>

lemma xint_id [simp]: "xint x = x"
  using word_of_bytes_of_word [of 4 x] by (simp add: xint_def bytes_of_word_def upt_rec numeral_eq_Suc)

lemma xshort_id [simp]: "xshort x = x"
  using word_of_bytes_of_word [of 2 x] by (simp add: xshort_def bytes_of_word_def upt_rec numeral_eq_Suc)

lemma sect_pos_id: "unat sec < FSSIZE \<Longrightarrow> sect_pos sec = sec"
proof -
  assume s: "unat sec < FSSIZE"
  then have "unat (sec * of_nat BSIZE) = unat sec * BSIZE" by (simp add: unat_mult_lem [THEN iffD1] unat_word_ariths)
  then have "unat (sect_pos sec) = unat sec" by (simp add: sect_pos_def unat_div)
  then show ?thesis by (rule unsigned_word_eqI)
qed

lemma layout: "nmeta = 46" "nlog = 30" "ninodeblocks = 13" "sb_inodestart mkfs_super = 32" "sb_bmapstart mkfs_super = 45"
  "sb_size mkfs_super = 1000"
  by (simp_all add: nmeta_def nlog_def ninodeblocks_def nbitmap_def mkfs_super_def)

text \<open>The image file is complete, all blocks from \<^verbatim>\<open>freeblock\<close> on are empty, and no operation fails.\<close>

definition mk_ok :: "mkfs \<Rightarrow> bool" where
  "mk_ok s \<longleftrightarrow> io_left s = None \<and> fslen s = FSSIZE \<and> (\<forall>n. length (fsimg s n) = BSIZE) \<and> mk_sb s = mkfs_super \<and>
     nmeta \<le> unat (freeblock s) \<and> unat (freeblock s) \<le> FSSIZE \<and> (\<forall>b. freeblock s \<le> b \<longrightarrow> fsimg s b = replicate BSIZE 0)"

lemma mk_okD:
  assumes "mk_ok s"
  shows "io_left s = None" "fslen s = FSSIZE" "length (fsimg s n) = BSIZE" "mk_sb s = mkfs_super" "nmeta \<le> unat (freeblock s)"
    "unat (freeblock s) \<le> FSSIZE" "freeblock s \<le> b \<Longrightarrow> fsimg s b = replicate BSIZE 0"
  using assms by (simp_all add: mk_ok_def)

lemma wsect_Ok:
  assumes "mk_ok s" and "unat sec < FSSIZE"
  shows "wsect sec buf s = Ok () (s\<lparr>fsimg := (fsimg s)(sec := buf)\<rparr>)"
  using mk_okD(1,2) [OF assms(1)] assms(2)
  by (cases s) (simp add: wsect_def host_io_def run_kbind run_kthen sect_pos_id max_def)

lemma rsect_Ok:
  assumes "mk_ok s" and "unat sec < FSSIZE"
  shows "rsect sec s = Ok (fsimg s sec) s"
  using mk_okD(1,2) [OF assms(1)] assms(2)
  by (simp add: rsect_def host_io_def run_kbind run_kthen sect_pos_id)

lemma IBLOCK_range:
  assumes "unat inum < 208"
  shows "32 \<le> unat (IBLOCK inum mkfs_super)" "unat (IBLOCK inum mkfs_super) < 45"
proof -
  have "unat (inum div 16) = unat inum div 16" by (simp add: unat_div)
  moreover from this have "unat (inum div 16 + 32) = unat (inum div 16) + 32" using assms by (simp add: unat_word_ariths)
  ultimately show "32 \<le> unat (IBLOCK inum mkfs_super)" "unat (IBLOCK inum mkfs_super) < 45"
    using assms by (simp_all add: IBLOCK_def layout)
qed

lemma rinode_Ok:
  assumes "mk_ok s" and "unat inum < 208"
  shows "rinode inum s = Ok (dinode_at mkfs_super (fsimg s) inum) s"
  using mk_okD(4) [OF assms(1)] rsect_Ok [OF assms(1)] IBLOCK_range [OF assms(2)]
  by (simp add: rinode_def run_kbind dinode_at_def Let_def)

lemma winode_Ok:
  assumes "mk_ok s" and "unat inum < 208" and "wf_dinode x"
  shows "winode inum x s = Ok () (s\<lparr>fsimg := store_dinode mkfs_super (fsimg s) inum x\<rparr>)"
  using mk_okD(4) [OF assms(1)] rsect_Ok [OF assms(1)] wsect_Ok [OF assms(1)] IBLOCK_range [OF assms(2)]
  by (simp add: winode_def run_kbind store_dinode_def Let_def)

lemma mk_ok_store:
  assumes "mk_ok s" and "unat inum < 208" and "wf_dinode x"
  shows "mk_ok (s\<lparr>fsimg := store_dinode mkfs_super (fsimg s) inum x\<rparr>)"
proof -
  have "IBLOCK inum mkfs_super < freeblock s"
    using IBLOCK_range(2) [OF assms(2)] mk_okD(5) [OF assms(1)] by (simp add: word_less_nat_alt layout)
  then have "store_dinode mkfs_super (fsimg s) inum x b = fsimg s b" if "freeblock s \<le> b" for b
    using that by (auto simp: store_dinode_def)
  then show ?thesis using assms(1,3) store_dinode_size [of "fsimg s" x mkfs_super inum] by (simp add: mk_ok_def)
qed

section \<open>Adding blocks to a file\<close>

text \<open>
  A file of \<open>sz\<close> bytes that has exactly its first \<open>n\<close> blocks, and an indirect block if \<open>h\<close> says so, all of them taken from
  the data blocks in use.
\<close>

definition filed :: "mkfs \<Rightarrow> dinode \<Rightarrow> nat \<Rightarrow> nat \<Rightarrow> bool \<Rightarrow> bool" where
  "filed s x sz n h \<longleftrightarrow> mk_ok s \<and> file_ok (fsimg s) x sz \<and> (\<forall>i<MAXFILE. faddr (fsimg s) x i \<noteq> 0 \<longleftrightarrow> i < n) \<and> (ind_addr x \<noteq> 0 \<longleftrightarrow> h) \<and>
     (\<forall>b\<in>fblocks (fsimg s) x. nmeta \<le> unat b \<and> b < freeblock s)"

lemma filedD:
  assumes "filed s x sz n h"
  shows "mk_ok s" "file_ok (fsimg s) x sz" "wf_dinode x" "ind_addr x \<noteq> 0 \<longleftrightarrow> h" "i < MAXFILE \<Longrightarrow> faddr (fsimg s) x i \<noteq> 0 \<longleftrightarrow> i < n"
    "b \<in> fblocks (fsimg s) x \<Longrightarrow> nmeta \<le> unat b \<and> b < freeblock s"
  using assms unfolding filed_def file_ok_def by blast+

lemma filedI:
  assumes "mk_ok s" and "file_ok (fsimg s) x sz" and "ind_addr x \<noteq> 0 \<longleftrightarrow> h" and "\<And>i. i < MAXFILE \<Longrightarrow> faddr (fsimg s) x i \<noteq> 0 \<longleftrightarrow> i < n"
    and "\<And>b. b \<in> fblocks (fsimg s) x \<Longrightarrow> nmeta \<le> unat b \<and> b < freeblock s"
  shows "filed s x sz n h"
  using assms by (simp add: filed_def del: MAXFILE_def)

text \<open>The image changed in blocks of the file and in new ones only.\<close>

definition grown :: "mkfs \<Rightarrow> dinode \<Rightarrow> mkfs \<Rightarrow> dinode \<Rightarrow> bool" where
  "grown s x t x' \<longleftrightarrow> freeinode t = freeinode s \<and> freeblock s \<le> freeblock t \<and> x' = x\<lparr>d_addrs := d_addrs x'\<rparr> \<and>
     fblocks (fsimg t) x' \<subseteq> fblocks (fsimg s) x \<union> {b. freeblock s \<le> b} \<and>
     (\<forall>b. b < freeblock s \<and> b \<notin> fblocks (fsimg s) x \<longrightarrow> fsimg t b = fsimg s b)"

lemma grown_refl [simp]: "grown s x s x"
  by (simp add: grown_def)

lemma grown_same: "grown s x t y \<Longrightarrow> b < freeblock s \<Longrightarrow> b \<notin> fblocks (fsimg s) x \<Longrightarrow> fsimg t b = fsimg s b"
  by (simp add: grown_def)

lemma grown_blocks: "grown s x t y \<Longrightarrow> b \<in> fblocks (fsimg t) y \<Longrightarrow> b \<in> fblocks (fsimg s) x \<or> freeblock s \<le> b"
  unfolding grown_def by blast

lemma grown_trans:
  assumes "grown s x t y" and "grown t y u z"
  shows "grown s x u z"
proof -
  have b: "freeblock s \<le> freeblock t" "freeblock t \<le> freeblock u" "fblocks (fsimg t) y \<subseteq> fblocks (fsimg s) x \<union> {b. freeblock s \<le> b}"
    using assms by (auto simp: grown_def)
  have "fsimg u b = fsimg s b" if "b < freeblock s" "b \<notin> fblocks (fsimg s) x" for b
    using that b assms by (force simp: grown_def)
  moreover have "z = x\<lparr>d_addrs := d_addrs z\<rparr>" using assms by (cases x; cases y; cases z) (simp add: grown_def)
  ultimately show ?thesis using assms b by (auto simp: grown_def)
qed

lemma take_block_Ok: "take_block s = Ok (freeblock s) (s\<lparr>freeblock := freeblock s + 1\<rparr>)"
  by (simp add: take_block_def run_kbind run_kthen)

lemma next_block:
  assumes "unat (freeblock s) < FSSIZE"
  shows "unat (freeblock s + 1) = unat (freeblock s) + 1" "freeblock s < freeblock s + 1" "freeblock s \<le> b \<Longrightarrow> b \<noteq> freeblock s \<Longrightarrow> freeblock s + 1 \<le> b"
proof -
  show e: "unat (freeblock s + 1) = unat (freeblock s) + 1" using assms by (simp add: unat_word_ariths)
  then show "freeblock s < freeblock s + 1" by (simp add: word_less_nat_alt)
  show "freeblock s + 1 \<le> b" if "freeblock s \<le> b" "b \<noteq> freeblock s"
  proof -
    have "unat b \<noteq> unat (freeblock s)" using that(2) unsigned_word_eqI by metis
    then show ?thesis using that(1) e by (simp add: word_le_nat_alt)
  qed
qed

text \<open>Taking a block for a file: in the inode, for the indirect block, in the indirect block.\<close>

lemma take_fresh:
  assumes f: "filed s x sz n h" and b: "unat (freeblock s) < FSSIZE"
  shows "freeblock s \<noteq> 0" "freeblock s \<notin> fblocks (fsimg s) x" "fsimg s (freeblock s) = replicate BSIZE 0"
    "mk_ok (s\<lparr>freeblock := freeblock s + 1\<rparr>)"
proof -
  have ok: "mk_ok s" using f by (simp add: filed_def)
  have "freeblock s \<le> b" if "freeblock s + 1 \<le> b" for b using next_block(2) [OF b] that by simp
  then show "mk_ok (s\<lparr>freeblock := freeblock s + 1\<rparr>)" using ok b next_block(1) [OF b] by (simp add: mk_ok_def)
  show "freeblock s \<notin> fblocks (fsimg s) x" using f by (auto simp: filed_def)
  show "freeblock s \<noteq> 0" "fsimg s (freeblock s) = replicate BSIZE 0" using mk_okD(5,7) [OF ok] by (auto simp: layout)
qed

lemma new_range:
  assumes "mk_ok s" and "unat (freeblock s) < FSSIZE"
  shows "nmeta \<le> unat (freeblock s)" "freeblock s < freeblock s + 1" "c < freeblock s \<Longrightarrow> c < freeblock s + 1"
  using mk_okD(5) [OF assms(1)] next_block(2) [OF assms(2)] by auto

lemma grow_direct:
  assumes f: "filed s x sz n h" and n: "n < NDIRECT" and b: "unat (freeblock s) < FSSIZE"
  defines "t \<equiv> s\<lparr>freeblock := freeblock s + 1\<rparr>" and "y \<equiv> x\<lparr>d_addrs := (d_addrs x)[n := freeblock s]\<rparr>"
  shows "filed t y sz (n + 1) h" "faddr (fsimg t) y n = freeblock s" "content_upto (fsimg t) y sz = content_upto (fsimg s) x sz" "grown s x t y"
proof -
  note fr = take_fresh [OF f b]
  have ok: "file_ok (fsimg s) x sz" "wf_dinode x" using f by (auto simp: filed_def file_ok_def)
  note d = faddr_direct [OF ok(2) n, where a = "freeblock s", folded y_def]
  have M: "n < MAXFILE" using n by simp
  have z: "faddr (fsimg s) x n = 0" using filedD(5) [OF f M] by simp
  have "file_ok (fsimg s) y sz" "fblocks (fsimg s) y = insert (freeblock s) (fblocks (fsimg s) x)" "content_upto (fsimg s) y sz = content_upto (fsimg s) x sz"
    by (rule file_grow [OF ok(1) M z fr(1,2) d(3,2) d(1) refl])+
  note g = this
  show "filed t y sz (n + 1) h"
  proof (rule filedI)
    show "mk_ok t" "file_ok (fsimg t) y sz" "ind_addr y \<noteq> 0 \<longleftrightarrow> h" using fr(4) g(1) d(2) filedD(4) [OF f] by (simp_all add: t_def)
    show "faddr (fsimg t) y i \<noteq> 0 \<longleftrightarrow> i < n + 1" if "i < MAXFILE" for i using filedD(5) [OF f that] fr(1) d(1) by (auto simp: t_def)
    show "nmeta \<le> unat c \<and> c < freeblock t" if "c \<in> fblocks (fsimg t) y" for c
      using that g(2) filedD(6) [OF f, of c] new_range [OF filedD(1) [OF f] b] by (auto simp: t_def)
  qed
  show "faddr (fsimg t) y n = freeblock s" using d(1) by (simp add: t_def)
  show "content_upto (fsimg t) y sz = content_upto (fsimg s) x sz" using g(3) by (simp add: t_def)
  show "grown s x t y" using g(2) next_block(2) [OF b] by (simp add: grown_def t_def y_def)
qed

lemma grow_indirect:
  assumes f: "filed s x sz n False" and b: "unat (freeblock s) < FSSIZE"
  defines "t \<equiv> s\<lparr>freeblock := freeblock s + 1\<rparr>" and "y \<equiv> x\<lparr>d_addrs := (d_addrs x)[NDIRECT := freeblock s]\<rparr>"
  shows "filed t y sz n True" "ind_addr y = freeblock s" "content_upto (fsimg t) y sz = content_upto (fsimg s) x sz" "grown s x t y"
proof -
  note fr = take_fresh [OF f b]
  have ok: "file_ok (fsimg s) x sz" "wf_dinode x" "ind_addr x = 0" using f by (auto simp: filed_def file_ok_def)
  note g = file_indirect [OF ok(1,3) fr(3,1,2), folded y_def]
  show i: "ind_addr y = freeblock s" using ok(2) by (simp add: y_def ind_addr_def wf_dinode_def)
  show "filed t y sz n True"
  proof (rule filedI)
    show "mk_ok t" "file_ok (fsimg t) y sz" "ind_addr y \<noteq> 0 \<longleftrightarrow> True" using fr(1,4) g(1) i by (simp_all add: t_def)
    show "faddr (fsimg t) y j \<noteq> 0 \<longleftrightarrow> j < n" if "j < MAXFILE" for j using filedD(5) [OF f that] g(4) by (simp add: t_def)
    show "nmeta \<le> unat c \<and> c < freeblock t" if "c \<in> fblocks (fsimg t) y" for c
      using that g(2) filedD(6) [OF f, of c] new_range [OF filedD(1) [OF f] b] by (auto simp: t_def)
  qed
  show "content_upto (fsimg t) y sz = content_upto (fsimg s) x sz" using g(3) by (simp add: t_def)
  show "grown s x t y" using g(2) next_block(2) [OF b] by (simp add: grown_def t_def y_def)
qed

lemma grow_entry:
  assumes f: "filed s x sz n True" and n: "NDIRECT \<le> n" "n < MAXFILE" and b: "unat (freeblock s) < FSSIZE"
  defines "t \<equiv> s\<lparr>freeblock := freeblock s + 1, fsimg := (fsimg s)(ind_addr x := put_le 4 (fsimg s (ind_addr x)) (4 * (n - NDIRECT)) (freeblock s))\<rparr>"
  shows "filed t x sz (n + 1) True" "faddr (fsimg t) x n = freeblock s" "content_upto (fsimg t) x sz = content_upto (fsimg s) x sz" "grown s x t x"
proof -
  note fr = take_fresh [OF f b]
  have ok: "file_ok (fsimg s) x sz" "wf_dinode x" "ind_addr x \<noteq> 0" "mk_ok s" using f by (auto simp: filed_def file_ok_def)
  have k: "n - NDIRECT < NINDIRECT" "NDIRECT + (n - NDIRECT) = n" using n by auto
  have d: "faddr (fsimg t) x j = (if j = n then freeblock s else faddr (fsimg s) x j)" if "j < MAXFILE" for j
    using faddr_entry [where V = "fsimg s", OF ok(3) mk_okD(3) [OF ok(4)] k(1) that, where a = "freeblock s"] k(2) by (simp add: t_def)
  have z: "faddr (fsimg s) x n = 0" using filedD(5) [OF f n(2)] by simp
  have i: "ind_addr x \<in> fblocks (fsimg s) x" using ok(3) by (simp add: fblocks_def)
  have il: "ind_addr x < freeblock s" using filedD(6) [OF f i] by simp
  have "fsimg t c = fsimg s c" if "c \<noteq> ind_addr x" for c using that by (simp add: t_def)
  then have "file_ok (fsimg t) x sz" "fblocks (fsimg t) x = insert (freeblock s) (fblocks (fsimg s) x)" "content_upto (fsimg t) x sz = content_upto (fsimg s) x sz"
    using file_grow [OF ok(1) n(2) z fr(1,2) ok(2) refl d] by blast+
  note g = this
  have "mk_ok t" using fr(4) il k(1) next_block(2) [OF b] by (auto simp: mk_ok_def t_def)
  then show "filed t x sz (n + 1) True"
  proof (rule filedI)
    show "file_ok (fsimg t) x sz" "ind_addr x \<noteq> 0 \<longleftrightarrow> True" using ok(3) g(1) by simp_all
    show "faddr (fsimg t) x j \<noteq> 0 \<longleftrightarrow> j < n + 1" if "j < MAXFILE" for j using filedD(5) [OF f that] d [OF that] fr(1) by auto
    show "nmeta \<le> unat c \<and> c < freeblock t" if "c \<in> fblocks (fsimg t) x" for c
      using that g(2) filedD(6) [OF f, of c] new_range [OF ok(4) b] by (auto simp: t_def)
  qed
  show "faddr (fsimg t) x n = freeblock s" using d n(2) by simp
  show "content_upto (fsimg t) x sz = content_upto (fsimg s) x sz" by (rule g(3))
  show "grown s x t x" using g(2) next_block(2) [OF b] i by (auto simp: grown_def) (auto simp: t_def)
qed

text \<open>The blocks of the disk that a file of \<open>n\<close> blocks takes.\<close>

definition nfb :: "nat \<Rightarrow> nat" where
  "nfb n = n + (if NDIRECT < n then 1 else 0)"

lemma entry_found:
  assumes f: "filed s x sz n True" and i: "NDIRECT \<le> i" "i < n" "i < MAXFILE"
  shows "iappend_entry i x s = Ok (faddr (fsimg s) x i) s"
proof -
  have x: "ind_addr x \<noteq> 0" "faddr (fsimg s) x i \<noteq> 0" using filedD(4) [OF f] filedD(5) [OF f i(3)] i(2) by simp_all
  have "ind_addr x \<in> fblocks (fsimg s) x" using x(1) by (simp add: fblocks_def)
  then have "ind_addr x < freeblock s" using filedD(6) [OF f] by blast
  then have "unat (ind_addr x) < FSSIZE" using mk_okD(6) [OF filedD(1) [OF f]] by (simp add: word_less_nat_alt)
  then have "rsect (ind_addr x) s = Ok (fsimg s (ind_addr x)) s" using rsect_Ok [OF filedD(1) [OF f]] by blast
  then show ?thesis using x i(1) by (simp add: iappend_entry_def run_kbind ind_addr_def [symmetric] faddr_def del: NDIRECT_def)
qed

lemma entry_added:
  assumes f: "filed s x sz n True" and n: "NDIRECT \<le> n" "n < MAXFILE" and b: "unat (freeblock s) < FSSIZE"
  shows "\<exists>t. iappend_entry n x s = Ok (faddr (fsimg t) x n) t \<and> filed t x sz (n + 1) True \<and>
    content_upto (fsimg t) x sz = content_upto (fsimg s) x sz \<and> grown s x t x \<and> freeblock t = freeblock s + 1"
proof -
  let ?i = "ind_addr x" and ?s = "s\<lparr>freeblock := freeblock s + 1\<rparr>"
  let ?d = "put_le 4 (fsimg s ?i) (4 * (n - NDIRECT)) (freeblock s)"
  define t where "t = s\<lparr>freeblock := freeblock s + 1, fsimg := (fsimg s)(?i := ?d)\<rparr>"
  note g = grow_entry [OF f n b, folded t_def]
  have x: "?i \<noteq> 0" "faddr (fsimg s) x n = 0" using filedD(4) [OF f] filedD(5) [OF f n(2)] by simp_all
  have "?i \<in> fblocks (fsimg s) x" using x(1) by (simp add: fblocks_def)
  then have "?i < freeblock s" using filedD(6) [OF f] by blast
  then have i: "unat ?i < FSSIZE" using mk_okD(6) [OF filedD(1) [OF f]] by (simp add: word_less_nat_alt)
  have r: "rsect ?i s = Ok (fsimg s ?i) s" by (rule rsect_Ok [OF filedD(1) [OF f] i])
  have w: "wsect ?i ?d ?s = Ok () t" using wsect_Ok [OF take_fresh(4) [OF f b] i] by (simp add: t_def)
  have e: "get_le 4 (fsimg s ?i) (4 * (n - NDIRECT)) = (0 :: u32)" using x n(1) by (simp add: faddr_def)
  have "4 * (n - NDIRECT) + 4 \<le> length (fsimg s ?i)" using n mk_okD(3) [OF filedD(1) [OF f], of ?i] by simp
  then have "get_le 4 ?d (4 * (n - NDIRECT)) = freeblock s" by (rule get_put_le_same) simp
  then have "iappend_entry n x s = Ok (freeblock s) t"
    using r w e by (simp add: iappend_entry_def run_kbind run_kthen ind_addr_def [symmetric] take_block_Ok Let_def del: NDIRECT_def)
  then show ?thesis using g by (auto simp: t_def)
qed

lemma iappend_block_found:
  assumes f: "filed s x sz n h" and i: "i < n" "i < MAXFILE" and h: "NDIRECT < n \<Longrightarrow> h"
  shows "iappend_block i x s = Ok (faddr (fsimg s) x i, x) s"
proof (cases "i < NDIRECT")
  case True
  then have "d_addrs x ! i = faddr (fsimg s) x i" by (simp add: faddr_def)
  then show ?thesis using True filedD(5) [OF f i(2)] i(1) by (simp add: iappend_block_def run_kbind del: NDIRECT_def)
next
  case False
  then have "h" using h i by simp
  then show ?thesis using False entry_found [of s x sz n i] f i filedD(4) [OF f]
    by (simp add: iappend_block_def run_kbind ind_addr_def [symmetric] del: NDIRECT_def)
qed

lemma iappend_block_added:
  assumes f: "filed s x sz n (NDIRECT < n)" and n: "n < MAXFILE" and b: "unat (freeblock s) + nfb (n + 1) \<le> FSSIZE + nfb n"
  shows "\<exists>t y. iappend_block n x s = Ok (faddr (fsimg t) y n, y) t \<and> filed t y sz (n + 1) (NDIRECT < n + 1) \<and>
    content_upto (fsimg t) y sz = content_upto (fsimg s) x sz \<and> grown s x t y \<and> unat (freeblock t) + nfb n = unat (freeblock s) + nfb (n + 1)"
proof -
  have b1: "unat (freeblock s) < FSSIZE" using b by (simp add: nfb_def split: if_splits)
  consider "n < NDIRECT" | "n = NDIRECT" | "NDIRECT < n" by linarith
  then show ?thesis
  proof cases
    case 1
    have "d_addrs x ! n = 0" using filedD(5) [OF f n] 1 by (simp add: faddr_def)
    then have "iappend_block n x s = Ok (freeblock s, x\<lparr>d_addrs := (d_addrs x)[n := freeblock s]\<rparr>) (s\<lparr>freeblock := freeblock s + 1\<rparr>)"
      using 1 filedD(3) [OF f] by (simp add: iappend_block_def run_kbind take_block_Ok wf_dinode_def)
    then show ?thesis using grow_direct [OF f 1 b1] 1 next_block(1) [OF b1] by (auto simp: nfb_def)
  next
    case 2
    let ?y = "x\<lparr>d_addrs := (d_addrs x)[NDIRECT := freeblock s]\<rparr>" and ?s = "s\<lparr>freeblock := freeblock s + 1\<rparr>"
    have f': "filed s x sz n False" using f 2 by simp
    note g = grow_indirect [OF f' b1]
    have b2: "unat (freeblock ?s) < FSSIZE" using b 2 next_block(1) [OF b1] by (simp add: nfb_def)
    obtain t where t: "iappend_entry n ?y ?s = Ok (faddr (fsimg t) ?y n) t" "filed t ?y sz (n + 1) True"
      "content_upto (fsimg t) ?y sz = content_upto (fsimg ?s) ?y sz" "grown ?s ?y t ?y" "freeblock t = freeblock ?s + 1"
      using entry_added [OF g(1) _ n b2] 2 by auto
    have "ind_addr x = 0" using filedD(4) [OF f'] by simp
    then have "iappend_block n x s = Ok (faddr (fsimg t) ?y n, ?y) t"
      using 2 t(1) by (simp add: iappend_block_def run_kbind take_block_Ok ind_addr_def)
    moreover have "unat (freeblock t) = unat (freeblock s) + 2" using t(5) next_block(1) [OF b1] next_block(1) [OF b2] by simp
    ultimately show ?thesis using t(2,3) g(3) grown_trans [OF g(4) t(4)] 2 by (auto simp: nfb_def)
  next
    case 3
    then have f': "filed s x sz n True" using f by simp
    obtain t where t: "iappend_entry n x s = Ok (faddr (fsimg t) x n) t" "filed t x sz (n + 1) True"
      "content_upto (fsimg t) x sz = content_upto (fsimg s) x sz" "grown s x t x" "freeblock t = freeblock s + 1"
      using entry_added [OF f' _ n b1] 3 by auto
    have "iappend_block n x s = Ok (faddr (fsimg t) x n, x) t"
      using 3 t(1) filedD(4) [OF f'] by (simp add: iappend_block_def run_kbind ind_addr_def)
    then show ?thesis using t 3 next_block(1) [OF b1] by (auto simp: nfb_def)
  qed
qed

section \<open>Appending\<close>

lemma nblk_cases: "nblk off = (if off mod BSIZE = 0 then off div BSIZE else off div BSIZE + 1)"
proof -
  obtain q r where q: "off = BSIZE * q + r" "r < BSIZE" by (metis BSIZE_def mod_less_divisor mult_div_mod_eq zero_less_numeral)
  then have "nblk off = q + (r + BSIZE - 1) div BSIZE" by (simp add: nblk_def add.assoc)
  moreover have "off div BSIZE = q" "off mod BSIZE = r" using q by simp_all
  moreover have "(r + BSIZE - 1) div BSIZE = (if r = 0 then 0 else 1)"
  proof (cases "r = 0")
    case False
    then have "r + BSIZE - 1 = (r - 1) + BSIZE" by simp
    then show ?thesis using q(2) False by (simp add: div_add_self2)
  qed simp
  ultimately show ?thesis by simp
qed

lemma nblk_step:
  assumes "0 < m" and "off mod BSIZE + m \<le> BSIZE"
  shows "nblk (off + m) = off div BSIZE + 1"
proof -
  have "(off + (m - 1)) div BSIZE = off div BSIZE" using assms by (intro div_mod_add_small(1)) simp
  moreover have "off + m + BSIZE - 1 = off + (m - 1) + BSIZE" using assms(1) by simp
  ultimately show ?thesis unfolding nblk_def by (simp add: div_add_self2)
qed

lemma append_write:
  assumes f: "filed s x off n h" and i: "off div BSIZE < n" "off div BSIZE < MAXFILE" and bs: "off mod BSIZE + length bs \<le> BSIZE"
    and a: "a = faddr (fsimg s) x (off div BSIZE)"
  defines "d \<equiv> put_bytes (fsimg s a) (off mod BSIZE) bs"
  defines "t \<equiv> s\<lparr>fsimg := (fsimg s)(a := d)\<rparr>"
  shows "rsect a s = Ok (fsimg s a) s" "wsect a d s = Ok () t" "filed t x (off + length bs) n h"
    "content_upto (fsimg t) x (off + length bs) = content_upto (fsimg s) x off @ bs" "grown s x t x"
proof -
  note D = filedD [OF f]
  have a0: "a \<noteq> 0" using D(5) [OF i(2)] i(1) a by simp
  have ab: "a \<in> fblocks (fsimg s) x" using faddr_fblocks [OF i(2)] a a0 by simp
  have al: "a < freeblock s" using D(6) [OF ab] by simp
  have au: "unat a < FSSIZE" using al mk_okD(6) [OF D(1)] by (simp add: word_less_nat_alt)
  note L = mk_okD(3) [OF D(1)]
  show "rsect a s = Ok (fsimg s a) s" by (rule rsect_Ok [OF D(1) au])
  show "wsect a d s = Ok () t" unfolding t_def by (rule wsect_Ok [OF D(1) au])
  have mx: "max off (off + length bs) = off + length bs" by simp
  have "length d = BSIZE" using L [of a] bs by (simp add: d_def)
  then have ok: "mk_ok t" using D(1) al by (auto simp: mk_ok_def t_def)
  have e: "faddr (fsimg t) x = faddr (fsimg s) x" "fblocks (fsimg t) x = fblocks (fsimg s) x" "file_ok (fsimg t) x (off + length bs)"
    "content_upto (fsimg t) x (off + length bs) = put_bytes (content_upto (fsimg s) x off) off bs"
    using file_write [OF L D(2) le_refl i(2) a a0 bs] unfolding mx by (simp_all add: t_def d_def)
  show "filed t x (off + length bs) n h"
  proof (rule filedI [OF ok e(3) D(4)])
    show "faddr (fsimg t) x j \<noteq> 0 \<longleftrightarrow> j < n" if "j < MAXFILE" for j unfolding e(1) by (rule D(5) [OF that])
    show "nmeta \<le> unat c \<and> c < freeblock t" if "c \<in> fblocks (fsimg t) x" for c using D(6) that e(2) by (simp add: t_def)
  qed
  show "content_upto (fsimg t) x (off + length bs) = content_upto (fsimg s) x off @ bs"
    unfolding e(4) using length_content_upto [of "fsimg s" x off, OF L] by (simp add: put_bytes_def)
  show "grown s x t x" using e(2) ab unfolding grown_def by (auto simp: t_def)
qed

lemma iappend_block_law:
  assumes f: "filed s x off (nblk off) (NDIRECT < nblk off)" and i: "off div BSIZE < MAXFILE"
    and b: "unat (freeblock s) + nfb (off div BSIZE + 1) \<le> FSSIZE + nfb (nblk off)"
  shows "\<exists>t y. iappend_block (off div BSIZE) x s = Ok (faddr (fsimg t) y (off div BSIZE), y) t \<and>
    filed t y off (off div BSIZE + 1) (NDIRECT < off div BSIZE + 1) \<and> content_upto (fsimg t) y off = content_upto (fsimg s) x off \<and>
    grown s x t y \<and> unat (freeblock t) + nfb (nblk off) = unat (freeblock s) + nfb (off div BSIZE + 1)"
proof (cases "off mod BSIZE = 0")
  case True
  then have n: "nblk off = off div BSIZE" by (simp add: nblk_cases)
  show ?thesis using iappend_block_added [OF f [unfolded n] i b [unfolded n]] unfolding n .
next
  case False
  then have n: "nblk off = off div BSIZE + 1" by (simp add: nblk_cases)
  show ?thesis using iappend_block_found [OF f, of "off div BSIZE"] f i unfolding n by fastforce
qed

lemma iappend_loop_law:
  assumes "filed s x off (nblk off) (NDIRECT < nblk off)" and "off + length p \<le> MAXFILE * BSIZE" and "length p < k"
    and "unat (freeblock s) + nfb (nblk (off + length p)) \<le> FSSIZE + nfb (nblk off)"
  shows "\<exists>t y. iappend_loop k p (of_nat off) x s = Ok (of_nat (off + length p), y) t \<and>
    filed t y (off + length p) (nblk (off + length p)) (NDIRECT < nblk (off + length p)) \<and>
    content_upto (fsimg t) y (off + length p) = content_upto (fsimg s) x off @ p \<and> grown s x t y \<and>
    unat (freeblock t) + nfb (nblk off) = unat (freeblock s) + nfb (nblk (off + length p))"
  using assms
proof (induction k arbitrary: s x off p)
  case (Suc k)
  show ?case
  proof (cases "p = []")
    case True
    then show ?thesis using Suc.prems(1) by (auto intro!: exI [of _ s] exI [of _ x])
  next
    case False
    let ?i = "off div BSIZE"
    define m where "m = min (length p) ((?i + 1) * BSIZE - off)"
    have e: "(?i + 1) * BSIZE - off = BSIZE - off mod BSIZE" "off - ?i * BSIZE = off mod BSIZE"
      using mult_div_mod_eq [of BSIZE off] by (simp_all only: add_mult_distrib mult.commute [of ?i])
    have m: "0 < m" "off mod BSIZE + m \<le> BSIZE" "m \<le> length p"
      using False mod_less_divisor [of BSIZE off] unfolding m_def e(1) by auto
    have off: "off < MAXFILE * BSIZE" using Suc.prems(2) False by (cases p) auto
    have i: "?i < MAXFILE" using off by (simp del: MAXFILE_def add: div_less_iff_less_mult)
    have n: "nblk (off + m) = ?i + 1" by (rule nblk_step [OF m(1,2)])
    have "nblk (off + m) \<le> nblk (off + length p)" unfolding nblk_def using m(3) by (intro div_le_mono) simp
    then have mono: "nfb (?i + 1) \<le> nfb (nblk (off + length p))" unfolding n by (auto simp: nfb_def)
    obtain t y where t: "iappend_block ?i x s = Ok (faddr (fsimg t) y ?i, y) t" "filed t y off (?i + 1) (NDIRECT < ?i + 1)"
      "content_upto (fsimg t) y off = content_upto (fsimg s) x off" "grown s x t y" "unat (freeblock t) + nfb (nblk off) = unat (freeblock s) + nfb (?i + 1)"
      using iappend_block_law [OF Suc.prems(1) i] Suc.prems(4) mono by fastforce
    let ?a = "faddr (fsimg t) y ?i" and ?bs = "take m p"
    define d where "d = put_bytes (fsimg t ?a) (off mod BSIZE) ?bs"
    define u where "u = t\<lparr>fsimg := (fsimg t)(?a := d)\<rparr>"
    have lb: "length ?bs = m" using m(3) by simp
    note w = append_write [OF t(2) _ i _ refl, of ?bs, unfolded lb, folded d_def, folded u_def]
    have w': "rsect ?a t = Ok (fsimg t ?a) t" "wsect ?a d t = Ok () u" "filed u y (off + m) (?i + 1) (NDIRECT < ?i + 1)"
      "content_upto (fsimg u) y (off + m) = content_upto (fsimg t) y off @ ?bs" "grown t y u y"
      using w m(2) by simp_all
    have eq: "off + m + length (drop m p) = off + length p" using m(3) by simp
    have fb: "freeblock u = freeblock t" by (simp add: u_def)
    have "\<exists>v z. iappend_loop k (drop m p) (of_nat (off + m)) y u = Ok (of_nat (off + length p), z) v \<and>
      filed v z (off + length p) (nblk (off + length p)) (NDIRECT < nblk (off + length p)) \<and>
      content_upto (fsimg v) z (off + length p) = content_upto (fsimg u) y (off + m) @ drop m p \<and> grown u y v z \<and>
      unat (freeblock v) + nfb (nblk (off + m)) = unat (freeblock u) + nfb (nblk (off + length p))"
      using Suc.IH [of u y "off + m" "drop m p", unfolded eq n] w'(3) Suc.prems(2,3,4) m t(5) fb unfolding n by simp
    then obtain v z where v: "iappend_loop k (drop m p) (of_nat (off + m)) y u = Ok (of_nat (off + length p), z) v"
      "filed v z (off + length p) (nblk (off + length p)) (NDIRECT < nblk (off + length p))"
      "content_upto (fsimg v) z (off + length p) = content_upto (fsimg u) y (off + m) @ drop m p" "grown u y v z"
      "unat (freeblock v) + nfb (nblk (off + m)) = unat (freeblock u) + nfb (nblk (off + length p))" by blast
    have uo: "unat (of_nat off :: u32) = off" using off by (intro unat_of_nat_u32) simp
    have "iappend_loop (Suc k) p (of_nat off) x s = Ok (of_nat (off + length p), z) v"
      using False i t(1) w'(1,2) v(1) by (simp add: uo Let_def run_kbind run_kthen m_def [simplified, symmetric] e(2) [simplified] d_def)
    moreover have "content_upto (fsimg v) z (off + length p) = content_upto (fsimg s) x off @ p" using v(3) w'(4) t(3) by simp
    moreover have "grown s x v z" by (rule grown_trans [OF grown_trans [OF t(4) w'(5)] v(4)])
    ultimately show ?thesis using v(2,5) t(5) unfolding n fb by fastforce
  qed
qed simp

section \<open>The image as a list of files\<close>

text \<open>A file as its inode shows it: type, links and contents.\<close>

type_synonym mfile = "u16 \<times> u16 \<times> u8 list"

abbreviation inode_of :: "mkfs \<Rightarrow> nat \<Rightarrow> dinode" where
  "inode_of s i \<equiv> dinode_at mkfs_super (fsimg s) (of_nat i)"

definition mfile_at :: "mkfs \<Rightarrow> nat \<Rightarrow> mfile" where
  "mfile_at s i = (let x = inode_of s i in (d_type x, d_nlink x, content (fsimg s) x))"

text \<open>Inode 1 is the first file.\<close>

definition mfiles :: "mkfs \<Rightarrow> mfile list" where
  "mfiles s = map (mfile_at s) [1..<unat (freeinode s)]"

definition need :: "mfile \<Rightarrow> nat" where
  "need f = (case f of (ty, nl, c) \<Rightarrow> nfb (nblk (length c)))"

abbreviation space :: "mfile list \<Rightarrow> nat" where
  "space fs \<equiv> nmeta + sum_list (map need fs)"

definition inode_ok :: "mkfs \<Rightarrow> dinode \<Rightarrow> bool" where
  "inode_ok s x \<longleftrightarrow> (let sz = unat (d_size x) in filed s x sz (nblk sz) (NDIRECT < nblk sz))"

text \<open>Every file is complete, no two files share a block, and the blocks in use are the ones the files need.\<close>

definition image_ok :: "mkfs \<Rightarrow> bool" where
  "image_ok s \<longleftrightarrow> mk_ok s \<and> 1 \<le> unat (freeinode s) \<and> unat (freeinode s) \<le> NINODES \<and>
     (\<forall>i. 1 \<le> i \<and> i < unat (freeinode s) \<longrightarrow> inode_ok s (inode_of s i)) \<and>
     (\<forall>i j. 1 \<le> i \<and> i < j \<and> j < unat (freeinode s) \<longrightarrow> fblocks (fsimg s) (inode_of s i) \<inter> fblocks (fsimg s) (inode_of s j) = {}) \<and>
     unat (freeblock s) = space (mfiles s)"

text \<open>The super block, the log and the free map are left alone.\<close>

definition meta_same :: "mkfs \<Rightarrow> mkfs \<Rightarrow> bool" where
  "meta_same s t \<longleftrightarrow> (\<forall>b. unat b < 32 \<or> unat b = 45 \<longrightarrow> fsimg t b = fsimg s b)"

lemma meta_same_trans: "meta_same s t \<Longrightarrow> meta_same t u \<Longrightarrow> meta_same s u"
  by (simp add: meta_same_def)

lemma resize [simp]:
  "faddr V (x\<lparr>d_size := n\<rparr>) = faddr V x" "ind_addr (x\<lparr>d_size := n\<rparr>) = ind_addr x" "fblocks V (x\<lparr>d_size := n\<rparr>) = fblocks V x"
  "wf_dinode (x\<lparr>d_size := n\<rparr>) = wf_dinode x" "content_upto V (x\<lparr>d_size := n\<rparr>) sz = content_upto V x sz"
proof -
  show f: "faddr V (x\<lparr>d_size := n\<rparr>) = faddr V x" "ind_addr (x\<lparr>d_size := n\<rparr>) = ind_addr x"
    by (simp_all add: faddr_def ind_addr_def fun_eq_iff)
  show "fblocks V (x\<lparr>d_size := n\<rparr>) = fblocks V x" "wf_dinode (x\<lparr>d_size := n\<rparr>) = wf_dinode x" "content_upto V (x\<lparr>d_size := n\<rparr>) sz = content_upto V x sz"
    by (simp_all add: f fblocks_def wf_dinode_def content_upto_def)
qed

lemma file_ok_resize [simp]: "file_ok V (x\<lparr>d_size := n\<rparr>) sz = file_ok V x sz"
  by (simp add: file_ok_def)

lemma filed_resize [simp]: "filed s (x\<lparr>d_size := n\<rparr>) sz k h = filed s x sz k h"
  by (simp add: filed_def)

lemma filed_agree:
  assumes f: "filed s x sz n h" and t: "mk_ok t" "freeblock s \<le> freeblock t" and b: "\<And>b. b \<in> fblocks (fsimg s) x \<Longrightarrow> fsimg t b = fsimg s b"
  shows "filed t x sz n h" "fblocks (fsimg t) x = fblocks (fsimg s) x" "content_upto (fsimg t) x sz = content_upto (fsimg s) x sz"
proof -
  note a = file_agree [where V' = "fsimg t", OF b]
  show "fblocks (fsimg t) x = fblocks (fsimg s) x" "content_upto (fsimg t) x sz = content_upto (fsimg s) x sz"
    using a filedD(2) [OF f] by auto
  show "filed t x sz n h"
  proof (rule filedI [OF t(1)])
    show "file_ok (fsimg t) x sz" "ind_addr x \<noteq> 0 \<longleftrightarrow> h" using a(3) filedD(2,4) [OF f] by auto
    show "faddr (fsimg t) x i \<noteq> 0 \<longleftrightarrow> i < n" if "i < MAXFILE" for i using a(1) filedD(5) [OF f that] by simp
    show "nmeta \<le> unat c \<and> c < freeblock t" if "c \<in> fblocks (fsimg t) x" for c
      using that a(2) filedD(6) [OF f, of c] t(2) by auto
  qed
qed

lemma imageD:
  assumes "image_ok s"
  shows "mk_ok s" "1 \<le> unat (freeinode s)" "unat (freeinode s) \<le> NINODES" "unat (freeblock s) = space (mfiles s)"
    "1 \<le> i \<Longrightarrow> i < unat (freeinode s) \<Longrightarrow> inode_ok s (inode_of s i)"
    "1 \<le> i \<Longrightarrow> i < unat (freeinode s) \<Longrightarrow> 1 \<le> j \<Longrightarrow> j < unat (freeinode s) \<Longrightarrow> i \<noteq> j \<Longrightarrow>
      fblocks (fsimg s) (inode_of s i) \<inter> fblocks (fsimg s) (inode_of s j) = {}"
proof -
  show "mk_ok s" "1 \<le> unat (freeinode s)" "unat (freeinode s) \<le> NINODES" "unat (freeblock s) = space (mfiles s)"
    "1 \<le> i \<Longrightarrow> i < unat (freeinode s) \<Longrightarrow> inode_ok s (inode_of s i)"
    using assms by (simp_all add: image_ok_def)
  show "fblocks (fsimg s) (inode_of s i) \<inter> fblocks (fsimg s) (inode_of s j) = {}"
    if "1 \<le> i" "i < unat (freeinode s)" "1 \<le> j" "j < unat (freeinode s)" "i \<noteq> j"
    using assms that unfolding image_ok_def by (cases i j rule: linorder_cases) blast+
qed

lemma unat_of_nat_small: "i < 2 ^ 32 \<Longrightarrow> unat (of_nat i :: u32) = i"
  by (rule unat_of_nat_u32)

lemma nth_mfiles: "k < length (mfiles s) \<Longrightarrow> mfiles s ! k = mfile_at s (k + 1)"
  by (simp add: mfiles_def)

lemma length_mfiles: "length (mfiles s) = unat (freeinode s) - 1"
  by (simp add: mfiles_def)

text \<open>Storing the inode of a file, after a change to blocks of that file and to new ones.\<close>

lemma image_update:
  assumes im: "image_ok s" and i: "1 \<le> i" "i < unat (freeinode s)" and g: "grown s (inode_of s i) t y"
    and f: "filed t y sz (nblk sz) (NDIRECT < nblk sz)" and sz: "unat n = sz"
    and fb: "unat (freeblock t) = space ((mfiles s)[i - 1 := (d_type y, d_nlink y, content_upto (fsimg t) y sz)])"
  defines "u \<equiv> t\<lparr>fsimg := store_dinode mkfs_super (fsimg t) (of_nat i) (y\<lparr>d_size := n\<rparr>)\<rparr>"
  shows "image_ok u" "mfiles u = (mfiles s)[i - 1 := (d_type y, d_nlink y, content_upto (fsimg t) y sz)]" "meta_same s u"
proof -
  note D = imageD [OF im] and T = filedD [OF f]
  let ?I = "IBLOCK (of_nat i) mkfs_super" and ?F = "unat (freeinode s)"
  have small: "unat (of_nat j :: u32) = j \<and> j < 208" if "j < ?F" for j using that D(3) unat_of_nat_small [of j] by simp
  have I: "32 \<le> unat (IBLOCK (of_nat j) mkfs_super) \<and> unat (IBLOCK (of_nat j) mkfs_super) < 45" if "j < ?F" for j
    using IBLOCK_range [of "of_nat j"] small [OF that] by simp
  have fi: "filed s (inode_of s j) (unat (d_size (inode_of s j))) (nblk (unat (d_size (inode_of s j)))) (NDIRECT < nblk (unat (d_size (inode_of s j))))"
    if "1 \<le> j" "j < ?F" for j using D(5) [OF that] by (simp add: inode_ok_def Let_def)
  have low: "fsimg t b = fsimg s b" if "unat b < 46" for b
    using that filedD(6) [OF fi [OF i], of b] mk_okD(5) [OF D(1)] by (intro grown_same [OF g]) (auto simp: layout word_less_nat_alt)
  have u: "fsimg u b = fsimg t b" if "b \<noteq> ?I" for b using that by (simp add: u_def store_dinode_def)
  have hi: "fsimg u b = fsimg t b" if "46 \<le> unat b" for b using u [of b] I [OF i(2)] that by (cases "b = ?I") auto
  have same: "inode_of t j = inode_of s j" if "j < ?F" for j using low [of "IBLOCK (of_nat j) mkfs_super"] I [OF that] by (simp add: dinode_at_def)
  have io: "inode_of u j = (if j = i then y\<lparr>d_size := n\<rparr> else inode_of s j)" if "j < ?F" for j
  proof -
    have "(of_nat j :: u32) = of_nat i \<longleftrightarrow> j = i" using small [OF that] small [OF i(2)] by metis
    then show ?thesis using dinode_at_store [of "fsimg t" "of_nat i" mkfs_super "y\<lparr>d_size := n\<rparr>" "of_nat j"] mk_okD(3) [OF T(1)] T(3) same [OF that]
      by (simp add: u_def)
  qed
  have U: "mk_ok u" "freeinode u = freeinode s" "freeblock u = freeblock t" "freeblock s \<le> freeblock t"
    using mk_ok_store [OF T(1), of "of_nat i" "y\<lparr>d_size := n\<rparr>"] small [OF i(2)] T(3) g by (simp_all add: u_def grown_def)
  have "fsimg u b = fsimg t b" if "b \<in> fblocks (fsimg t) y" for b using T(6) [OF that] hi by (simp add: layout)
  note fy = filed_agree [OF f U(1) eq_refl [OF U(3) [symmetric]] this]
  have ag: "fsimg u b = fsimg s b" if j: "1 \<le> j" "j < ?F" "j \<noteq> i" and b: "b \<in> fblocks (fsimg s) (inode_of s j)" for j b
  proof -
    have "b \<notin> fblocks (fsimg s) (inode_of s i)" using D(6) [OF j(1,2) i j(3)] b by auto
    then have "fsimg t b = fsimg s b" using filedD(6) [OF fi [OF j(1,2)] b] by (intro grown_same [OF g]) auto
    then show ?thesis using filedD(6) [OF fi [OF j(1,2)] b] hi by (simp add: layout)
  qed
  have fj: "inode_ok u (inode_of s j) \<and> fblocks (fsimg u) (inode_of s j) = fblocks (fsimg s) (inode_of s j) \<and>
      content (fsimg u) (inode_of s j) = content (fsimg s) (inode_of s j)" if j: "1 \<le> j" "j < ?F" "j \<noteq> i" for j
    using filed_agree [OF fi [OF j(1,2)] U(1) order_trans [OF U(4) eq_refl [OF U(3) [symmetric]]] ag [OF j]]
    by (simp add: inode_ok_def Let_def content_def)
  have "fblocks (fsimg u) (inode_of u i) \<inter> fblocks (fsimg s) (inode_of s j) = {}" if j: "1 \<le> j" "j < ?F" "j \<noteq> i" for j
  proof -
    have "b \<notin> fblocks (fsimg s) (inode_of s j)" if "b \<in> fblocks (fsimg t) y" for b
      using grown_blocks [OF g that] D(6) [OF i j(1,2)] j(3) filedD(6) [OF fi [OF j(1,2)], of b] by auto
    then show ?thesis using fy(2) io [OF i(2)] by auto
  qed
  note dj = this
  have mf: "mfile_at u j = (if j = i then (d_type y, d_nlink y, content_upto (fsimg t) y sz) else mfile_at s j)" if "1 \<le> j" "j < ?F" for j
    using io [OF that(2)] fy(3) fj [OF that] sz by (auto simp: mfile_at_def content_def Let_def)
  show files: "mfiles u = (mfiles s)[i - 1 := (d_type y, d_nlink y, content_upto (fsimg t) y sz)]"
  proof (rule nth_equalityI)
    show "length (mfiles u) = length ((mfiles s)[i - 1 := (d_type y, d_nlink y, content_upto (fsimg t) y sz)])" using U(2) by (simp add: length_mfiles)
    fix k assume "k < length (mfiles u)"
    then have k: "k < ?F - 1" using U(2) by (simp add: length_mfiles)
    then show "mfiles u ! k = (mfiles s)[i - 1 := (d_type y, d_nlink y, content_upto (fsimg t) y sz)] ! k"
      using mf [of "k + 1"] i U(2) by (auto simp: nth_list_update length_mfiles nth_mfiles)
  qed
  have "fsimg u b = fsimg s b" if "unat b < 32 \<or> unat b = 45" for b
    using that low [of b] u [of b] I [OF i(2)] by (cases "b = ?I") auto
  then show "meta_same s u" by (simp add: meta_same_def)
  show "image_ok u" unfolding image_ok_def U(2)
  proof (intro conjI allI impI)
    show "mk_ok u" "1 \<le> ?F" "?F \<le> NINODES" "unat (freeblock u) = space (mfiles u)" using U(1,3) D(2,3) files fb by simp_all
    show "inode_ok u (inode_of u j)" if "1 \<le> j \<and> j < ?F" for j
      using io [of j] that fy(1) fj [of j] sz by (simp add: inode_ok_def Let_def)
    show "fblocks (fsimg u) (inode_of u j) \<inter> fblocks (fsimg u) (inode_of u k) = {}" if "1 \<le> j \<and> j < k \<and> k < ?F" for j k
      using that io [of j] io [of k] dj [of j] dj [of k] fj [of j] fj [of k] D(6) [of j k] by (cases "j = i"; cases "k = i") auto
  qed
qed

lemma sum_update:
  "k < length xs \<Longrightarrow> sum_list (map (f :: 'b \<Rightarrow> nat) (xs[k := y])) + f (xs ! k) = sum_list (map f xs) + f y"
  by (induction xs arbitrary: k) (auto split: nat.split)

lemma iappend_law:
  assumes im: "image_ok s" and k: "k < length (mfiles s)" "mfiles s ! k = (ty, nl, c)" and l: "length c + length p \<le> MAXFILE * BSIZE"
    and sp: "space ((mfiles s)[k := (ty, nl, c @ p)]) \<le> FSSIZE"
  shows "\<exists>t. iappend (of_nat (k + 1)) p s = Ok () t \<and> image_ok t \<and> mfiles t = (mfiles s)[k := (ty, nl, c @ p)] \<and> meta_same s t \<and> freeinode t = freeinode s"
proof -
  note D = imageD [OF im]
  let ?i = "k + 1"
  have i: "1 \<le> ?i" "?i < unat (freeinode s)" using k(1) by (simp_all add: length_mfiles)
  have iu: "unat (of_nat ?i :: u32) < 208" using i(2) D(3) unat_of_nat_small [of ?i] by simp
  define x where "x = inode_of s ?i"
  define sz where "sz = unat (d_size x)"
  have f: "filed s x sz (nblk sz) (NDIRECT < nblk sz)" using D(5) [OF i] by (simp add: inode_ok_def Let_def x_def sz_def)
  have c: "ty = d_type x" "nl = d_nlink x" "c = content_upto (fsimg s) x sz"
    using k nth_mfiles [OF k(1)] by (simp_all add: mfile_at_def Let_def content_def x_def sz_def)
  have lc: "length c = sz" unfolding c(3) by (rule length_content_upto [OF mk_okD(3) [OF D(1)]])
  have "sum_list (map need ((mfiles s)[k := (ty, nl, c @ p)])) + nfb (nblk sz) = sum_list (map need (mfiles s)) + nfb (nblk (sz + length p))"
    using sum_update [OF k(1), of need "(ty, nl, c @ p)"] k(2) lc by (simp add: need_def)
  note acc = this
  then obtain t y where t: "iappend_loop (length p + 1) p (of_nat sz) x s = Ok (of_nat (sz + length p), y) t"
    "filed t y (sz + length p) (nblk (sz + length p)) (NDIRECT < nblk (sz + length p))"
    "content_upto (fsimg t) y (sz + length p) = c @ p" "grown s x t y" "unat (freeblock t) + nfb (nblk sz) = unat (freeblock s) + nfb (nblk (sz + length p))"
    using iappend_loop_law [OF f, of p "length p + 1"] l sp D(4) lc c(3) by auto
  have ty: "d_type y = ty" "d_nlink y = nl" using t(4) c by (cases x; cases y; simp add: grown_def)+
  let ?n = "of_nat (sz + length p) :: u32"
  have n: "unat ?n = sz + length p" using l lc by (intro unat_of_nat_small) simp
  have fb: "unat (freeblock t) = space ((mfiles s)[?i - 1 := (d_type y, d_nlink y, content_upto (fsimg t) y (sz + length p))])"
    using t(3,5) acc D(4) ty by simp
  note u = image_update [OF im i t(4) [unfolded x_def] t(2) n fb, unfolded t(3) ty]
  have wf: "wf_dinode (y\<lparr>d_size := ?n\<rparr>)" using filedD(3) [OF t(2)] by simp
  have "of_nat sz = d_size x" by (simp add: sz_def)
  then have "iappend (of_nat ?i) p s = Ok () (t\<lparr>fsimg := store_dinode mkfs_super (fsimg t) (of_nat ?i) (y\<lparr>d_size := ?n\<rparr>)\<rparr>)"
    using rinode_Ok [OF D(1) iu] t(1) winode_Ok [OF filedD(1) [OF t(2)] iu wf] unfolding iappend_def by (simp add: run_kbind x_def [simplified])
  then show ?thesis using u t(4) by (simp add: grown_def)
qed

text \<open>A file on an image depends on its inode and on the data blocks.\<close>

lemma mfile_same:
  assumes "inode_ok s x" and "\<And>b. 46 \<le> unat b \<Longrightarrow> fsimg t b = fsimg s b" and "mk_ok t" and "freeblock s \<le> freeblock t"
  shows "inode_ok t x" "fblocks (fsimg t) x = fblocks (fsimg s) x" "content (fsimg t) x = content (fsimg s) x"
proof -
  have f: "filed s x (unat (d_size x)) (nblk (unat (d_size x))) (NDIRECT < nblk (unat (d_size x)))" using assms(1) by (simp add: inode_ok_def Let_def)
  have "fsimg t b = fsimg s b" if "b \<in> fblocks (fsimg s) x" for b using filedD(6) [OF f that] assms(2) by (simp add: layout)
  from filed_agree [OF f assms(3,4) this]
  show "inode_ok t x" "fblocks (fsimg t) x = fblocks (fsimg s) x" "content (fsimg t) x = content (fsimg s) x"
    by (simp_all add: inode_ok_def Let_def content_def)
qed

lemma store_high:
  assumes "unat inum < 208" and "46 \<le> unat b"
  shows "store_dinode mkfs_super V inum x b = V b"
  using IBLOCK_range [OF assms(1)] assms(2) by (auto simp: store_dinode_def)

lemma empty_inode:
  assumes "mk_ok s" and "x = \<lparr>d_type = ty, d_major = 0, d_minor = 0, d_nlink = nl, d_size = 0, d_addrs = replicate (NDIRECT + 1) 0\<rparr>"
  shows "inode_ok s x" "fblocks (fsimg s) x = {}" "content (fsimg s) x = []" "wf_dinode x"
proof -
  have x: "ind_addr x = 0" "faddr (fsimg s) x i = 0" "wf_dinode x" "d_size x = 0" for i by (simp_all add: assms(2) ind_addr_def faddr_def wf_dinode_def)
  then show "fblocks (fsimg s) x = {}" "content (fsimg s) x = []" "wf_dinode x" by (auto simp: fblocks_def content_def content_upto_def)
  then show "inode_ok s x" using x assms(1) by (simp add: inode_ok_def filed_def file_ok_def nblk_def)
qed

lemma ialloc_law:
  assumes im: "image_ok s" and i: "unat (freeinode s) < NINODES"
  shows "\<exists>t. mkfs_ialloc ty s = Ok (freeinode s) t \<and> image_ok t \<and> mfiles t = mfiles s @ [(ty, 1, [])] \<and> meta_same s t \<and> freeinode t = freeinode s + 1"
proof -
  note D = imageD [OF im]
  let ?F = "unat (freeinode s)"
  define x where "x = \<lparr>d_type = ty, d_major = 0, d_minor = 0, d_nlink = 1, d_size = 0, d_addrs = replicate (NDIRECT + 1) (0 :: u32)\<rparr>"
  define t where "t = s\<lparr>freeinode := freeinode s + 1, fsimg := store_dinode mkfs_super (fsimg s) (freeinode s) x\<rparr>"
  have wf: "wf_dinode x" by (simp add: x_def wf_dinode_def)
  have F: "unat (freeinode s) < 208" "unat (freeinode t) = ?F + 1" using i by (simp_all add: t_def unat_word_ariths)
  have mk: "mk_ok (s\<lparr>freeinode := freeinode s + 1\<rparr>)" using D(1) by (simp add: mk_ok_def)
  have ok: "mk_ok t" using mk_ok_store [OF mk F(1) wf] by (simp add: t_def)
  note e = empty_inode [OF ok x_def]
  have run: "mkfs_ialloc ty s = Ok (freeinode s) t"
    using winode_Ok [OF mk F(1) wf] by (simp add: mkfs_ialloc_def run_kbind run_kthen t_def x_def)
  have hi: "fsimg t b = fsimg s b" if "46 \<le> unat b" for b using store_high [OF F(1) that] by (simp add: t_def)
  have io: "inode_of t j = (if j = ?F then x else inode_of s j)" if "j \<le> ?F" for j
  proof -
    have "(of_nat j :: u32) = freeinode s \<longleftrightarrow> j = ?F" using that i unat_of_nat_small [of j] by auto
    then show ?thesis using dinode_at_store [of "fsimg s" "freeinode s" mkfs_super x "of_nat j"] mk_okD(3) [OF D(1)] wf by (simp add: t_def)
  qed
  have old: "inode_ok t (inode_of s j) \<and> fblocks (fsimg t) (inode_of s j) = fblocks (fsimg s) (inode_of s j) \<and> content (fsimg t) (inode_of s j) = content (fsimg s) (inode_of s j)"
    if "1 \<le> j" "j < ?F" for j
    using mfile_same [OF D(5) [OF that] hi ok] by (simp add: t_def)
  have "mfiles t = map (mfile_at t) [1..<?F] @ [mfile_at t ?F]" using F(2) D(2) by (simp add: mfiles_def)
  moreover have "map (mfile_at t) [1..<?F] = mfiles s" unfolding mfiles_def using io old by (intro map_cong) (auto simp: mfile_at_def Let_def)
  moreover have "mfile_at t ?F = (ty, 1, [])" using io [of ?F] e(3) by (simp add: mfile_at_def Let_def) (simp add: x_def)
  ultimately have files: "mfiles t = mfiles s @ [(ty, 1, [])]" by simp
  have "fsimg t b = fsimg s b" if "unat b < 32 \<or> unat b = 45" for b
    using that IBLOCK_range [OF F(1)] by (auto simp: t_def store_dinode_def)
  then have "meta_same s t" by (simp add: meta_same_def)
  moreover have "image_ok t" unfolding image_ok_def F(2)
  proof (intro conjI allI impI)
    show "mk_ok t" "1 \<le> ?F + 1" "?F + 1 \<le> NINODES" using ok i by simp_all
    show "unat (freeblock t) = space (mfiles t)" using D(4) files by (simp add: t_def need_def nfb_def nblk_def)
    show "inode_ok t (inode_of t j)" if "1 \<le> j \<and> j < ?F + 1" for j using io [of j] that e(1) old [of j] by (cases "j = ?F") auto
    show "fblocks (fsimg t) (inode_of t j) \<inter> fblocks (fsimg t) (inode_of t k) = {}" if "1 \<le> j \<and> j < k \<and> k < ?F + 1" for j k
      using that io [of j] io [of k] e(2) old [of j] old [of k] D(6) [of j k] by (cases "k = ?F") auto
  qed
  ultimately show ?thesis using run files by (auto simp: t_def)
qed

section \<open>Adding files\<close>

lemma need_mono: "length c \<le> length d \<Longrightarrow> need (ty, nl, c) \<le> need (ty', nl', d)"
proof -
  assume "length c \<le> length d"
  then have "nblk (length c) \<le> nblk (length d)" unfolding nblk_def by (intro div_le_mono) simp
  then show ?thesis by (auto simp: need_def nfb_def)
qed

lemma space_update_mono:
  assumes "k < length fs" and "length c \<le> length d"
  shows "space (fs[k := (ty, nl, c)]) \<le> space (fs[k := (ty, nl, d)])"
  using sum_update [OF assms(1), of need "(ty, nl, c)"] sum_update [OF assms(1), of need "(ty, nl, d)"] need_mono [OF assms(2), of ty nl ty nl] by simp

lemma append_pieces_law:
  assumes "image_ok s" and "k < length (mfiles s)" and "mfiles s ! k = (ty, nl, c)" and "length c + length (concat ps) \<le> MAXFILE * BSIZE"
    and "space ((mfiles s)[k := (ty, nl, c @ concat ps)]) \<le> FSSIZE"
  shows "\<exists>t. append_pieces (of_nat (k + 1)) ps s = Ok () t \<and> image_ok t \<and> mfiles t = (mfiles s)[k := (ty, nl, c @ concat ps)] \<and>
    meta_same s t \<and> freeinode t = freeinode s"
  using assms
proof (induction ps arbitrary: s c)
  case Nil
  then have "(mfiles s)[k := (ty, nl, c)] = mfiles s" by (metis list_update_id)
  then show ?case using Nil.prems(1) by (simp add: meta_same_def)
next
  case (Cons p ps)
  have le: "length c + length p \<le> MAXFILE * BSIZE" using Cons.prems(4) by simp
  have sp: "space ((mfiles s)[k := (ty, nl, c @ p)]) \<le> FSSIZE"
    using space_update_mono [OF Cons.prems(2), of "c @ p" "c @ concat (p # ps)" ty nl] Cons.prems(5) by simp
  obtain t where t: "iappend (of_nat (k + 1)) p s = Ok () t" "image_ok t" "mfiles t = (mfiles s)[k := (ty, nl, c @ p)]" "meta_same s t" "freeinode t = freeinode s"
    using iappend_law [OF Cons.prems(1-3) le sp] by blast
  have "k < length (mfiles t)" "mfiles t ! k = (ty, nl, c @ p)" "length (c @ p) + length (concat ps) \<le> MAXFILE * BSIZE"
    "space ((mfiles t)[k := (ty, nl, (c @ p) @ concat ps)]) \<le> FSSIZE"
    using Cons.prems(2,4,5) t(3) by simp_all
  from Cons.IH [OF t(2) this] obtain u where u: "append_pieces (of_nat (k + 1)) ps t = Ok () u" "image_ok u" "mfiles u = (mfiles t)[k := (ty, nl, (c @ p) @ concat ps)]"
    "meta_same t u" "freeinode u = freeinode t" by blast
  have "append_pieces (of_nat (k + 1)) (p # ps) s = Ok () u" using t(1) u(1) by (simp add: run_kthen run_kbind)
  then show ?case using u t(3,5) meta_same_trans [OF t(4) u(4)] by simp
qed

lemma length_mkfs_dirent: "length (mkfs_dirent inum name) = 16"
  by (simp add: mkfs_dirent_def mk_dirent_def)

text \<open>The entry of a file in the root directory, and the file, as the arguments of the program say.\<close>

abbreviation name_of :: "u8 list \<Rightarrow> u8 list" where
  "name_of path \<equiv> skip_underscore (short_name path)"

abbreviation pieces_of :: "(u8 list \<Rightarrow> u8 list list option) \<Rightarrow> u8 list \<Rightarrow> u8 list" where
  "pieces_of host path \<equiv> concat (the (host path))"

definition good_path :: "(u8 list \<Rightarrow> u8 list list option) \<Rightarrow> u8 list \<Rightarrow> bool" where
  "good_path host path \<longleftrightarrow> 47 \<notin> set (short_name path) \<and> host path \<noteq> None \<and> length (pieces_of host path) \<le> MAXFILE * BSIZE"

lemma add_file_law:
  assumes im: "image_ok s" and fs: "mfiles s = (T_DIR, 1, d) # fs" and p: "good_path host path" and n: "length fs + 2 < NINODES"
    and d: "length d + 16 \<le> MAXFILE * BSIZE"
  defines "e \<equiv> mkfs_dirent (of_nat (length fs + 2)) (name_of path)"
  assumes sp: "space ((T_DIR, 1, d @ e) # fs @ [(T_FILE, 1, pieces_of host path)]) \<le> FSSIZE"
  shows "\<exists>t. add_file host ROOTINO path s = Ok () t \<and> image_ok t \<and> mfiles t = (T_DIR, 1, d @ e) # fs @ [(T_FILE, 1, pieces_of host path)] \<and> meta_same s t"
proof -
  obtain ps where ps: "host path = Some ps" using p by (auto simp: good_path_def)
  have Fn: "unat (freeinode s) = length fs + 2" using fs length_mfiles [of s] imageD(2) [OF im] by simp
  have "of_nat (unat (freeinode s)) = freeinode s" by simp
  then have F: "freeinode s = of_nat (length fs + 2)" unfolding Fn by (rule sym)
  obtain t where t: "mkfs_ialloc T_FILE s = Ok (freeinode s) t" "image_ok t" "mfiles t = mfiles s @ [(T_FILE, 1, [])]" "meta_same s t"
    using ialloc_law [OF im, of T_FILE] n Fn by auto
  have l: "length e = 16" by (simp add: e_def length_mkfs_dirent)
  have "need (T_FILE, 1, []) \<le> need (T_FILE, 1, pieces_of host path)" by (rule need_mono) simp
  then obtain u where u: "iappend (of_nat (0 + 1)) e t = Ok () u" "image_ok u" "mfiles u = (T_DIR, 1, d @ e) # fs @ [(T_FILE, 1, [])]" "meta_same t u"
    using iappend_law [OF t(2), of 0 T_DIR 1 d e] t(3) fs d l sp by auto
  let ?k = "length fs + 1"
  have "mfiles u ! ?k = (T_FILE, 1, [])" "?k < length (mfiles u)" "(mfiles u)[?k := (T_FILE, 1, [] @ concat ps)] = (T_DIR, 1, d @ e) # fs @ [(T_FILE, 1, pieces_of host path)]"
    using u(3) ps by (simp_all add: nth_append list_update_append)
  note k = this
  obtain v where v: "append_pieces (of_nat (?k + 1)) ps u = Ok () v" "image_ok v" "mfiles v = (T_DIR, 1, d @ e) # fs @ [(T_FILE, 1, pieces_of host path)]" "meta_same u v"
    using append_pieces_law [OF u(2) k(2,1), of ps] k(3) sp p ps by (auto simp: good_path_def)
  have "add_file host ROOTINO path s = Ok () v"
    using p ps t(1) u(1) v(1) F by (simp add: add_file_def good_path_def run_kbind run_kthen e_def Let_def ROOTINO_def)
  then show ?thesis using v(2,3) meta_same_trans [OF meta_same_trans [OF t(4) u(4)] v(4)] by blast
qed

text \<open>The directory and the files after the arguments \<open>paths\<close>, when the next inode is \<open>n\<close>.\<close>

definition dir_entries :: "nat \<Rightarrow> u8 list list \<Rightarrow> u8 list" where
  "dir_entries n paths = concat (map (\<lambda>(i, path). mkfs_dirent (of_nat i) (name_of path)) (zip [n..<n + length paths] paths))"

definition file_list :: "(u8 list \<Rightarrow> u8 list list option) \<Rightarrow> u8 list list \<Rightarrow> mfile list" where
  "file_list host paths = map (\<lambda>path. (T_FILE, 1, pieces_of host path)) paths"

lemma dir_entries_Cons: "dir_entries n (path # paths) = mkfs_dirent (of_nat n) (name_of path) @ dir_entries (n + 1) paths"
  by (simp add: dir_entries_def upt_conv_Cons del: upt_Suc)

lemma length_dir_entries: "length (dir_entries n paths) = 16 * length paths"
  by (induction paths arbitrary: n) (simp_all add: dir_entries_Cons length_mkfs_dirent, simp add: dir_entries_def)

lemma add_files_law:
  assumes "image_ok s" and "mfiles s = (T_DIR, 1, d) # fs" and "list_all (good_path host) paths" and "length fs + length paths + 1 < NINODES"
    and "length d + 16 * length paths \<le> MAXFILE * BSIZE"
    and "space ((T_DIR, 1, d @ dir_entries (length fs + 2) paths) # fs @ file_list host paths) \<le> FSSIZE"
  shows "\<exists>t. add_files host ROOTINO paths s = Ok () t \<and> image_ok t \<and>
    mfiles t = (T_DIR, 1, d @ dir_entries (length fs + 2) paths) # fs @ file_list host paths \<and> meta_same s t"
  using assms
proof (induction paths arbitrary: s d fs)
  case Nil
  then show ?case by (simp add: dir_entries_def file_list_def meta_same_def)
next
  case (Cons path paths)
  let ?e = "mkfs_dirent (of_nat (length fs + 2)) (name_of path)" and ?f = "(T_FILE, 1, pieces_of host path)"
  let ?d = "d @ ?e" and ?fs = "fs @ [?f]"
  have eq: "d @ dir_entries (length fs + 2) (path # paths) = ?d @ dir_entries (length ?fs + 2) paths" "fs @ file_list host (path # paths) = ?fs @ file_list host paths"
    by (simp_all add: dir_entries_Cons file_list_def)
  note sp = Cons.prems(6) [unfolded eq]
  have "need (T_DIR, 1, ?d) \<le> need (T_DIR, 1, ?d @ dir_entries (length ?fs + 2) paths)" by (rule need_mono) simp
  then have sp': "space ((T_DIR, 1, ?d) # ?fs) \<le> FSSIZE" using sp by simp
  have gp: "good_path host path" "length fs + 2 < NINODES" "length d + 16 \<le> MAXFILE * BSIZE" using Cons.prems(3-5) by simp_all
  obtain t where t: "add_file host ROOTINO path s = Ok () t" "image_ok t" "mfiles t = (T_DIR, 1, ?d) # ?fs" "meta_same s t"
    using add_file_law [OF Cons.prems(1,2) gp] sp' by auto
  have "list_all (good_path host) paths" "length ?fs + length paths + 1 < NINODES" "length ?d + 16 * length paths \<le> MAXFILE * BSIZE"
    using Cons.prems(3-5) by (simp_all add: length_mkfs_dirent)
  from Cons.IH [OF t(2,3) this sp] obtain u where u: "add_files host ROOTINO paths t = Ok () u" "image_ok u"
    "mfiles u = (T_DIR, 1, ?d @ dir_entries (length ?fs + 2) paths) # ?fs @ file_list host paths" "meta_same t u" by blast
  have "add_files host ROOTINO (path # paths) s = Ok () u" using t(1) u(1) by (simp add: run_kthen run_kbind)
  then show ?case unfolding eq using u(2,3) meta_same_trans [OF t(4) u(4)] by blast
qed

section \<open>The whole program\<close>

lemma zero_loop:
  assumes "io_left s = None" and "fsimg s = (\<lambda>_. replicate BSIZE 0)" and "fslen s = 0" and "n \<le> FSSIZE"
  shows "kfor [0..<n] (\<lambda>i. wsect (of_nat i) (replicate BSIZE 0)) s = Ok () (s\<lparr>fslen := n\<rparr>)"
  using assms(4)
proof (induction n)
  case 0
  then show ?case using assms by (cases s) simp
next
  case (Suc n)
  have "unat (of_nat n :: u32) = n" using Suc.prems by (intro unat_of_nat_small) simp
  then have "sect_pos (of_nat n) = of_nat n" "unat (of_nat n :: u32) = n" using Suc.prems sect_pos_id [of "of_nat n"] by simp_all
  then have "wsect (of_nat n) (replicate BSIZE 0) (s\<lparr>fslen := n\<rparr>) = Ok () (s\<lparr>fslen := Suc n\<rparr>)"
    using assms(1,2) by (cases s) (simp add: wsect_def host_io_def run_kbind run_kthen fun_upd_idem max_def)
  then show ?case using Suc by (simp add: kfor_append run_kthen run_kbind)
qed

lemma superblock_read: "get_superblock (put_bytes (replicate BSIZE 0) 0 (superblock_bytes x)) = x"
proof -
  let ?xs = "[sb_magic x, sb_size x, sb_nblocks x, sb_ninodes x, sb_nlog x, sb_logstart x, sb_inodestart x, sb_bmapstart x]"
  have l: "length (superblock_bytes x) = 32" by (simp add: superblock_bytes_def)
  have "get_le 4 (put_bytes (replicate BSIZE 0) 0 (superblock_bytes x)) (4 * i) = ?xs ! i" if "i < 8" for i
  proof -
    have "take 4 (drop (0 + 4 * i) (put_bytes (replicate BSIZE 0) 0 (superblock_bytes x))) = take 4 (drop (4 * i) (superblock_bytes x))"
      using that l by (intro take_drop_put_inside) simp_all
    also have "\<dots> = bytes_of_word 4 (?xs ! i)" unfolding superblock_bytes_def using that by (intro take_drop_concat) simp_all
    finally show ?thesis by (simp add: get_le_def word_of_bytes_of_word)
  qed
  from this [of 0] this [of 1] this [of 2] this [of 3] this [of 4] this [of 5] this [of 6] this [of 7] show ?thesis
    by (simp add: get_superblock_def)
qed

lemma map_bits:
  assumes "n \<le> BPB"
  shows "length (fold (\<lambda>i buf. set_map_bit buf i) [0..<n] (replicate BSIZE 0)) = BSIZE \<and>
    (\<forall>j<BPB. map_bit (fold (\<lambda>i buf. set_map_bit buf i) [0..<n] (replicate BSIZE 0)) j \<longleftrightarrow> j < n)"
  using assms
proof (induction n)
  case 0
  then show ?case by (auto simp: map_bit_def)
next
  case (Suc n)
  let ?d = "fold (\<lambda>i buf. set_map_bit buf i) [0..<n] (replicate BSIZE 0)"
  have IH: "length ?d = BSIZE" "\<forall>j<BPB. map_bit ?d j \<longleftrightarrow> j < n" and n: "n < BPB" using Suc by auto
  have "map_bit (set_map_bit ?d n) j \<longleftrightarrow> j < Suc n" if "j < BPB" for j
    using map_bit_set [OF IH(1) n, of j] IH(2) that by auto
  moreover have "length (set_map_bit ?d n) = BSIZE" using IH(1) by (simp add: set_map_bit_def)
  ultimately show ?case by simp
qed

text \<open>The last two steps: the size of the root directory, and the free map.\<close>

lemma mkfs_finish:
  assumes im: "image_ok s" and fs: "mfiles s = (ty, nl, D) # fs" and D: "length D < 2 ^ 31"
  shows "\<exists>t. kthen (fix_root_size ROOTINO) (kbind (kget freeblock) (\<lambda>b. mkfs_balloc (unat b))) s = Ok () t \<and> mk_ok t \<and> freeblock t = freeblock s \<and>
    (\<forall>b. unat b < 32 \<longrightarrow> fsimg t b = fsimg s b) \<and> (\<forall>j<BPB. map_bit (fsimg t 45) j \<longleftrightarrow> j < unat (freeblock s)) \<and>
    (\<forall>i. 1 < i \<and> i < unat (freeinode s) \<longrightarrow> inode_of t i = inode_of s i \<and> mfile_at t i = mfile_at s i) \<and>
    (\<forall>i. 1 \<le> i \<and> i < unat (freeinode s) \<longrightarrow> fblocks (fsimg t) (inode_of t i) = fblocks (fsimg s) (inode_of s i)) \<and>
    d_type (inode_of t 1) = ty \<and> d_nlink (inode_of t 1) = nl \<and> unat (d_size (inode_of t 1)) = (length D div BSIZE + 1) * BSIZE \<and>
    content_upto (fsimg t) (inode_of t 1) (length D) = D"
proof -
  note I = imageD [OF im]
  have F: "1 < unat (freeinode s)" using fs length_mfiles [of s] by simp
  define x where "x = inode_of s 1"
  have "mfile_at s 1 = (ty, nl, D)" using nth_mfiles [of 0 s] fs by simp
  then have x: "d_type x = ty" "d_nlink x = nl" "content (fsimg s) x = D" by (simp_all add: mfile_at_def Let_def x_def)
  have xok: "inode_ok s x" using I(5) [of 1] F by (simp add: x_def)
  have sz: "unat (d_size x) = length D" using x(3) length_content_upto [OF mk_okD(3) [OF I(1)]] by (auto simp: content_def)
  define n where "n = (d_size x div of_nat BSIZE + 1) * (of_nat BSIZE :: u32)"
  have n: "unat n = (length D div BSIZE + 1) * BSIZE"
  proof -
    have "unat (d_size x div of_nat BSIZE) = length D div BSIZE" by (simp add: unat_div sz)
    moreover have "length D div BSIZE < 2 ^ 21" using D by (simp add: div_less_iff_less_mult)
    ultimately show ?thesis by (simp add: n_def unat_word_ariths)
  qed
  let ?x = "x\<lparr>d_size := n\<rparr>"
  define u where "u = s\<lparr>fsimg := store_dinode mkfs_super (fsimg s) 1 ?x\<rparr>"
  define bits where "bits = fold (\<lambda>i buf. set_map_bit buf i) [0..<unat (freeblock s)] (replicate BSIZE 0)"
  define t where "t = u\<lparr>fsimg := (fsimg u)(45 := bits)\<rparr>"
  have wf: "wf_dinode ?x" by (simp add: x_def dinode_at_def wf_get_dinode)
  have one: "unat (1 :: u32) < 208" by simp
  have uok: "mk_ok u" using mk_ok_store [OF I(1) one wf] by (simp add: u_def)
  have fb: "unat (freeblock s) \<le> BPB" "unat (freeblock s) < BSIZE * 8" using mk_okD(6) [OF I(1)] by simp_all
  note bt = map_bits [OF fb(1), folded bits_def]
  have tok: "mk_ok t" using uok bt mk_okD(5) [OF uok] by (auto simp: mk_ok_def t_def layout word_le_nat_alt)
  have "mk_sb s = mkfs_super" "mk_sb u = mkfs_super" "freeblock u = freeblock s" using mk_okD(4) I(1) uok by (simp_all add: u_def)
  then have run: "kthen (fix_root_size ROOTINO) (kbind (kget freeblock) (\<lambda>b. mkfs_balloc (unat b))) s = Ok () t"
    using rinode_Ok [OF I(1) one] winode_Ok [OF I(1) one wf] wsect_Ok [OF uok, of 45 bits] fb
    by (simp add: fix_root_size_def mkfs_balloc_def ROOTINO_def run_kthen run_kbind Let_def x_def [symmetric, simplified] n_def [symmetric, simplified] u_def [symmetric] t_def layout bits_def [symmetric, simplified])
  have hi: "fsimg t b = fsimg s b" if "46 \<le> unat b" for b using store_high [OF one that] that by (auto simp: t_def u_def)
  have low: "fsimg t b = fsimg s b" if "unat b < 32" for b using that IBLOCK_range [OF one] by (auto simp: t_def u_def store_dinode_def)
  have io: "inode_of t i = (if i = 1 then ?x else inode_of s i)" if "1 \<le> i" "i < unat (freeinode s)" for i
  proof -
    have iu: "unat (of_nat i :: u32) = i" "i < 208" using that I(3) unat_of_nat_small [of i] by simp_all
    have "inode_of t i = inode_of u i" using IBLOCK_range(2) [of "of_nat i"] iu by (auto simp: dinode_at_def t_def)
    moreover have "(of_nat i :: u32) = 1 \<longleftrightarrow> i = 1" using iu(1) by auto
    ultimately show ?thesis using dinode_at_store [of "fsimg s" 1 mkfs_super ?x "of_nat i"] mk_okD(3) [OF I(1)] wf by (simp add: u_def)
  qed
  have fbl: "freeblock s \<le> freeblock t" by (simp add: t_def u_def)
  have ms: "fblocks (fsimg t) (inode_of s i) = fblocks (fsimg s) (inode_of s i) \<and> content (fsimg t) (inode_of s i) = content (fsimg s) (inode_of s i)"
    if "1 \<le> i" "i < unat (freeinode s)" for i
    using mfile_same [OF I(5) [OF that] hi tok fbl] by blast
  have "content_upto (fsimg t) ?x (length D) = D" using ms [of 1] F x(3) sz by (simp add: content_def x_def [symmetric, simplified])
  note root = this
  have r1: "inode_of t 1 = ?x" using io [of 1] F by simp
  have b45: "\<forall>j<BPB. map_bit (fsimg t 45) j \<longleftrightarrow> j < unat (freeblock s)" using bt by (simp add: t_def)
  have others: "inode_of t i = inode_of s i \<and> mfile_at t i = mfile_at s i" if "1 < i \<and> i < unat (freeinode s)" for i
    using that io [of i] ms [of i] by (simp add: mfile_at_def Let_def)
  have blocks: "fblocks (fsimg t) (inode_of t i) = fblocks (fsimg s) (inode_of s i)" if "1 \<le> i \<and> i < unat (freeinode s)" for i
    using that io [of i] ms [of i] by (auto simp: x_def)
  have "freeblock t = freeblock s" by (simp add: t_def u_def)
  then show ?thesis using run tok low b45 others blocks root n x(1,2) by (intro exI [of _ t]) (simp add: r1 [simplified])
qed

definition root_dir :: "u8 list list \<Rightarrow> u8 list" where
  "root_dir paths = mkfs_dirent 1 [46] @ mkfs_dirent 1 [46, 46] @ dir_entries 2 paths"

lemma mkfs_BBLOCK: "b < FSSIZE \<Longrightarrow> BBLOCK (of_nat b) mkfs_super = 45"
  using BBLOCK_eq_iff [of b 0 mkfs_super] by (simp add: BBLOCK_def layout)

lemma mkfs_files:
  assumes s: "io_left s = None" "freeinode s = 1" and paths: "list_all (good_path host) paths" "length paths + 1 < NINODES"
  defines "D \<equiv> root_dir paths"
  assumes sp: "space ((T_DIR, 1, D) # file_list host paths) \<le> FSSIZE"
  shows "\<exists>t. image_ok t \<and> mfiles t = (T_DIR, 1, D) # file_list host paths \<and> get_superblock (fsimg t 1) = mkfs_super \<and>
    mkfs_main host (prog # img # paths) s = kthen (fix_root_size ROOTINO) (kbind (kget freeblock) (\<lambda>b. mkfs_balloc (unat b))) t"
proof -
  let ?z = "replicate BSIZE 0 :: u8 list" and ?sb = "put_bytes (replicate BSIZE 0) 0 (superblock_bytes mkfs_super)"
  define s0 where "s0 = s\<lparr>fsimg := (\<lambda>_. ?z), fslen := 0, mk_sb := mkfs_super, freeblock := of_nat nmeta\<rparr>"
  define s1 where "s1 = s0\<lparr>fslen := FSSIZE\<rparr>"
  define s2 where "s2 = s1\<lparr>fsimg := (fsimg s1)(1 := ?sb)\<rparr>"
  have z: "kfor [0..<FSSIZE] (\<lambda>i. wsect (of_nat i) ?z) s0 = Ok () s1" unfolding s1_def by (rule zero_loop) (simp_all add: s0_def s)
  have ok1: "mk_ok s1" by (simp add: mk_ok_def s1_def s0_def s layout)
  have w: "wsect 1 ?sb s1 = Ok () s2" unfolding s2_def by (rule wsect_Ok [OF ok1]) simp
  have "length ?sb = BSIZE" by (simp add: superblock_bytes_def)
  then have ok2: "mk_ok s2" by (auto simp: mk_ok_def s2_def s1_def s0_def s layout word_le_nat_alt)
  have im2: "image_ok s2" using ok2 by (simp add: image_ok_def mfiles_def s2_def s1_def s0_def s layout)
  have f2: "freeinode s2 = 1" "mfiles s2 = []" by (simp_all add: mfiles_def s2_def s1_def s0_def s)
  obtain s3 where s3: "mkfs_ialloc T_DIR s2 = Ok 1 s3" "image_ok s3" "mfiles s3 = [(T_DIR, 1, [])]" "meta_same s2 s3"
    using ialloc_law [OF im2, of T_DIR] f2 by auto
  let ?e1 = "mkfs_dirent 1 [46]" and ?e2 = "mkfs_dirent 1 [46, 46]"
  have l: "length ?e1 = 16" "length ?e2 = 16" by (simp_all add: length_mkfs_dirent)
  have "need (T_DIR, 1, c) \<le> need (T_DIR, 1, D)" if "length c \<le> 32" for c :: "u8 list"
    using that by (intro need_mono) (simp add: D_def root_dir_def l)
  then have nd: "space [(T_DIR, 1, c)] \<le> FSSIZE" if "length c \<le> 32" for c using that sp by fastforce
  obtain s4 where s4: "iappend 1 ?e1 s3 = Ok () s4" "image_ok s4" "mfiles s4 = [(T_DIR, 1, ?e1)]" "meta_same s3 s4"
    using iappend_law [OF s3(2), of 0 T_DIR 1 "[]" ?e1] s3(3) nd [of ?e1] l by auto
  obtain s5 where s5: "iappend 1 ?e2 s4 = Ok () s5" "image_ok s5" "mfiles s5 = [(T_DIR, 1, ?e1 @ ?e2)]" "meta_same s4 s5"
    using iappend_law [OF s4(2), of 0 T_DIR 1 ?e1 ?e2] s4(3) nd [of "?e1 @ ?e2"] l by auto
  obtain t where t: "add_files host ROOTINO paths s5 = Ok () t" "image_ok t" "mfiles t = (T_DIR, 1, D) # file_list host paths" "meta_same s5 t"
    using add_files_law [OF s5(2,3) paths(1)] paths(2) l sp by (auto simp: D_def root_dir_def numeral_2_eq_2 [symmetric])
  have m: "meta_same s2 t" using meta_same_trans [OF meta_same_trans [OF meta_same_trans [OF s3(4) s4(4)] s5(4)] t(4)] .
  then have "fsimg t 1 = ?sb" by (simp add: meta_same_def s2_def)
  then have g: "get_superblock (fsimg t 1) = mkfs_super" by (simp only: superblock_read)
  have "mkfs_main host (prog # img # paths) s = kthen (fix_root_size ROOTINO) (kbind (kget freeblock) (\<lambda>b. mkfs_balloc (unat b))) t"
    using z w s3(1) s4(1) s5(1) t(1) s by (simp add: mkfs_main_def host_io_def run_kthen run_kbind s0_def [symmetric, simplified] ROOTINO_def)
  then show ?thesis using t(2,3) g by blast
qed

text \<open>
  C11.  \<^verbatim>\<open>mkfs\<close>, on files that fit, ends and leaves an image of \<^verbatim>\<open>FSSIZE\<close> whole blocks.  The kernel
  will find the super block and, in the free map, exactly the blocks in use: the ones before the first data block and those the
  files need.  Inode \<open>i + 2\<close> is argument \<open>i\<close> with the bytes of the host's file, however they were read; inode 1 is the directory
  with an entry for each, its size rounded up to blocks; every file has its blocks for itself.
\<close>

theorem mkfs_builds_image:
  fixes host :: "u8 list \<Rightarrow> u8 list list option"
  assumes "io_left s = None" and "freeinode s = 1" and "list_all (good_path host) paths" and "length paths + 1 < NINODES"
    and "space ((T_DIR, 1, root_dir paths) # file_list host paths) \<le> FSSIZE"
  shows "\<exists>t. mkfs_main host (prog # img # paths) s = Ok () t \<and> fslen t = FSSIZE \<and> (\<forall>n. length (fsimg t n) = BSIZE) \<and>
    get_superblock (fsimg t 1) = mkfs_super \<and>
    (\<forall>b<FSSIZE. map_bit (fsimg t (BBLOCK (of_nat b) mkfs_super)) (b mod BPB) \<longleftrightarrow> b < space ((T_DIR, 1, root_dir paths) # file_list host paths)) \<and>
    (\<forall>i<length paths. mfile_at t (i + 2) = (T_FILE, 1, pieces_of host (paths ! i))) \<and>
    d_type (inode_of t 1) = T_DIR \<and> d_nlink (inode_of t 1) = 1 \<and> unat (d_size (inode_of t 1)) = (length (root_dir paths) div BSIZE + 1) * BSIZE \<and>
    content_upto (fsimg t) (inode_of t 1) (length (root_dir paths)) = root_dir paths \<and>
    (\<forall>i j. 1 \<le> i \<and> i < j \<and> j < length paths + 2 \<longrightarrow> fblocks (fsimg t) (inode_of t i) \<inter> fblocks (fsimg t) (inode_of t j) = {})"
proof -
  let ?D = "root_dir paths"
  obtain s6 where s6: "image_ok s6" "mfiles s6 = (T_DIR, 1, ?D) # file_list host paths" "get_superblock (fsimg s6 1) = mkfs_super"
    "mkfs_main host (prog # img # paths) s = kthen (fix_root_size ROOTINO) (kbind (kget freeblock) (\<lambda>b. mkfs_balloc (unat b))) s6"
    using mkfs_files [OF assms] by blast
  note I = imageD [OF s6(1)]
  have F: "unat (freeinode s6) = length paths + 2" using s6(2) length_mfiles [of s6] I(2) by (simp add: file_list_def)
  have lD: "length ?D < 2 ^ 31" using assms(4) by (simp add: root_dir_def length_mkfs_dirent length_dir_entries)
  obtain t where t: "mkfs_main host (prog # img # paths) s = Ok () t" "mk_ok t" "\<forall>b. unat b < 32 \<longrightarrow> fsimg t b = fsimg s6 b"
    "\<forall>j<BPB. map_bit (fsimg t 45) j \<longleftrightarrow> j < unat (freeblock s6)"
    "\<forall>i. 1 < i \<and> i < unat (freeinode s6) \<longrightarrow> inode_of t i = inode_of s6 i \<and> mfile_at t i = mfile_at s6 i"
    "\<forall>i. 1 \<le> i \<and> i < unat (freeinode s6) \<longrightarrow> fblocks (fsimg t) (inode_of t i) = fblocks (fsimg s6) (inode_of s6 i)"
    "d_type (inode_of t 1) = T_DIR" "d_nlink (inode_of t 1) = 1" "unat (d_size (inode_of t 1)) = (length ?D div BSIZE + 1) * BSIZE"
    "content_upto (fsimg t) (inode_of t 1) (length ?D) = ?D"
    using mkfs_finish [OF s6(1,2) lD] unfolding s6(4) by blast
  have map: "\<forall>b<FSSIZE. map_bit (fsimg t (BBLOCK (of_nat b) mkfs_super)) (b mod BPB) \<longleftrightarrow> b < space ((T_DIR, 1, ?D) # file_list host paths)"
    using t(4) I(4) s6(2) mkfs_BBLOCK by simp
  have files: "mfile_at t (i + 2) = (T_FILE, 1, pieces_of host (paths ! i))" if "i < length paths" for i
    using t(5) F that nth_mfiles [of "i + 1" s6] s6(2) length_mfiles [of s6] by (simp add: file_list_def)
  have disj: "fblocks (fsimg t) (inode_of t i) \<inter> fblocks (fsimg t) (inode_of t j) = {}" if "1 \<le> i \<and> i < j \<and> j < length paths + 2" for i j
    using t(6) I(6) [of i j] F that by simp
  have "fslen t = FSSIZE" "\<forall>n. length (fsimg t n) = BSIZE" "get_superblock (fsimg t 1) = mkfs_super" using mk_okD(2,3) [OF t(2)] t(3) s6(3) by simp_all
  then show ?thesis using t(1,7-10) map files disj by blast
qed

theorem mkfs_builds_image_witness:
  "\<exists>t. mkfs_main (\<lambda>p. if p = [98] then Some [] else Some [[1, 2], [3]]) [[109], [102], [117, 115, 101, 114, 47, 95, 97], [98]]
       \<lparr>fsimg = (\<lambda>_. []), fslen = 0, io_left = None, mk_sb = mkfs_super, freeinode = 1, freeblock = 0\<rparr> = Ok () t \<and>
     mfile_at t 2 = (T_FILE, 1, [1, 2, 3]) \<and> mfile_at t 3 = (T_FILE, 1, []) \<and>
     content_upto (fsimg t) (inode_of t 1) 64 =
       mkfs_dirent 1 [46] @ mkfs_dirent 1 [46, 46] @ mkfs_dirent 2 [97] @ mkfs_dirent 3 [98] \<and>
     map_bit (fsimg t 45) 47 \<and> \<not> map_bit (fsimg t 45) 48"
proof -
  let ?host = "\<lambda>p :: u8 list. if p = [98] then Some [] else Some [[1, 2], [3 :: u8]]" and ?ps = "[[117, 115, 101, 114, 47, 95, 97], [98]] :: u8 list list"
  let ?s = "\<lparr>fsimg = (\<lambda>_. []), fslen = 0, io_left = None, mk_sb = mkfs_super, freeinode = 1, freeblock = 0\<rparr>"
  have r: "root_dir ?ps = mkfs_dirent 1 [46] @ mkfs_dirent 1 [46, 46] @ mkfs_dirent 2 [97] @ mkfs_dirent 3 [98]" "length (root_dir ?ps) = 64"
    by (simp_all add: root_dir_def dir_entries_Cons length_mkfs_dirent length_dir_entries short_name_def skip_underscore_def) (simp add: dir_entries_def)
  have sp: "space ((T_DIR, 1, root_dir ?ps) # file_list ?host ?ps) = 48"
    using r(2) by (simp add: file_list_def need_def nfb_def nblk_def layout)
  have g: "list_all (good_path ?host) ?ps" by (simp add: good_path_def short_name_def)
  obtain t where t: "mkfs_main ?host ([109] # [102] # ?ps) ?s = Ok () t"
    "\<forall>b<FSSIZE. map_bit (fsimg t (BBLOCK (of_nat b) mkfs_super)) (b mod BPB) \<longleftrightarrow> b < 48"
    "\<forall>i<2. mfile_at t (i + 2) = (T_FILE, 1, pieces_of ?host (?ps ! i))" "content_upto (fsimg t) (inode_of t 1) 64 = root_dir ?ps"
    using mkfs_builds_image [of ?s ?host ?ps "[109]" "[102]"] g sp r(2) by auto
  have "mfile_at t 2 = (T_FILE, 1, [1, 2, 3])" "mfile_at t 3 = (T_FILE, 1, [])" using t(3) [rule_format, of 0] t(3) [rule_format, of 1] by (simp_all add: numeral_eq_Suc)
  moreover have "map_bit (fsimg t 45) 47" "\<not> map_bit (fsimg t 45) 48"
    using t(2) [rule_format, of 47] t(2) [rule_format, of 48] mkfs_BBLOCK [of 47] mkfs_BBLOCK [of 48] by simp_all
  ultimately show ?thesis using t(1,4) r(1) by auto
qed

end
