(* ===== verification/Ring.thy ===== *)
theory Ring
  imports Xv6_Prelude
begin

text \<open>
  Ring buffers.  Pipes, the transmit buffer of the UART and the input buffer of the console are all
  an array with free-running counters: byte \<open>i\<close> of the stream is at index \<^verbatim>\<open>i % SIZE\<close>, and
  the counters wrap around at the width of their type, which is a multiple of the size.  \<open>ring\<close> is the
  sequence between two counters, and the locale \<open>fifo\<close> what such a buffer promises.
\<close>

definition ring :: "'b list \<Rightarrow> 'w::len word \<Rightarrow> 'w word \<Rightarrow> 'b list" where
  "ring buf r w = map (\<lambda>i. buf ! ((unat r + i) mod length buf)) [0..<unat (w - r)]"

lemma length_ring [simp]: "length (ring buf r w) = unat (w - r)"
  by (simp add: ring_def)

lemma ring_same [simp]: "ring buf r r = []"
  by (simp add: ring_def)

lemma ring_empty: "ring buf r w = [] \<longleftrightarrow> w = r"
  by (simp add: ring_def unat_eq_0)

lemma nth_ring: "i < unat (w - r) \<Longrightarrow> ring buf r w ! i = buf ! ((unat r + i) mod length buf)"
  by (simp add: ring_def)

lemma mod_wrap: "N dvd 2 ^ LENGTH('w::len) \<Longrightarrow> unat (a + b :: 'w word) mod N = (unat a + unat b) mod N"
  by (simp add: unat_word_ariths mod_mod_cancel)

lemma word_at: "(w :: 'w::len word) = r + of_nat (unat (w - r))"
  by simp

lemma index_w:
  fixes w :: "'w::len word"
  assumes "N dvd 2 ^ LENGTH('w)"
  shows "unat w mod N = (unat r + unat (w - r)) mod N"
  using mod_wrap [OF assms, of r "w - r"] by simp

lemma unat_suc_diff:
  fixes w :: "'w::len word"
  assumes "unat (w - r) + 1 < 2 ^ LENGTH('w)"
  shows "unat (w + 1 - r) = unat (w - r) + 1"
proof -
  have "w + 1 - r = (w - r) + 1" by simp
  then have "unat (w + 1 - r) = (unat (w - r) + unat (1 :: 'w word)) mod 2 ^ LENGTH('w)"
    by (simp only: unat_word_ariths(1))
  then show ?thesis using assms by simp
qed

lemma ring_other:
  fixes w :: "'w::len word"
  assumes "length buf dvd 2 ^ LENGTH('w)" and "unat (w - r) < length buf" and "i < unat (w - r)"
  shows "(unat r + i) mod length buf \<noteq> unat w mod length buf"
proof
  assume "(unat r + i) mod length buf = unat w mod length buf"
  then have "(unat r + i) mod length buf = (unat r + unat (w - r)) mod length buf" by (simp add: index_w [OF assms(1), of w r])
  then have "length buf dvd (unat r + unat (w - r)) - (unat r + i)" by (metis mod_eq_dvd_iff_nat assms(3) add_le_cancel_left less_imp_le)
  then have "length buf dvd unat (w - r) - i" by simp
  then show False using assms(2,3) by (auto dest!: dvd_imp_le)
qed

lemma ring_put:
  fixes w :: "'w::len word"
  assumes "length buf dvd 2 ^ LENGTH('w)" and "unat (w - r) < length buf" and "length buf < 2 ^ LENGTH('w)"
  shows "ring (buf[unat w mod length buf := c]) r (w + 1) = ring buf r w @ [c]"
proof (rule nth_equalityI)
  have d: "unat (w + 1 - r) = unat (w - r) + 1" by (rule unat_suc_diff) (use assms in simp)
  then show "length (ring (buf[unat w mod length buf := c]) r (w + 1)) = length (ring buf r w @ [c])" by simp
  fix i
  assume "i < length (ring (buf[unat w mod length buf := c]) r (w + 1))"
  then have i: "i < unat (w - r) + 1" by (simp add: d)
  have pos: "unat w mod length buf < length buf" using assms(2) by (intro mod_less_divisor) auto
  show "ring (buf[unat w mod length buf := c]) r (w + 1) ! i = (ring buf r w @ [c]) ! i"
  proof (cases "i < unat (w - r)")
    case True
    then show ?thesis using i ring_other [OF assms(1,2) True] by (simp add: nth_ring d nth_append)
  next
    case False
    then have "i = unat (w - r)" using i by simp
    then show ?thesis using index_w [OF assms(1), of w r] pos by (simp add: nth_ring d nth_append)
  qed
qed

lemma unat_pred_diff:
  fixes w :: "'w::len word"
  assumes "w \<noteq> r"
  shows "unat (w - (r + 1)) = unat (w - r) - 1" and "unat (w - 1 - r) = unat (w - r) - 1" and "0 < unat (w - r)"
proof -
  have e: "w - (r + 1) = (w - r) - 1" "w - 1 - r = (w - r) - 1" by simp_all
  have "w - r \<noteq> 0" using assms by simp
  then have "unat ((w - r) - 1) = unat (w - r) - 1" by (rule unat_minus_one)
  then show "unat (w - (r + 1)) = unat (w - r) - 1" "unat (w - 1 - r) = unat (w - r) - 1" unfolding e by simp_all
  show "0 < unat (w - r)" using \<open>w - r \<noteq> 0\<close> by (simp add: unat_gt_0)
qed

lemma ring_get:
  fixes w :: "'w::len word"
  assumes "length buf dvd 2 ^ LENGTH('w)" and "w \<noteq> r"
  shows "ring buf r w = buf ! (unat r mod length buf) # ring buf (r + 1) w"
proof (rule nth_equalityI)
  note d = unat_pred_diff [OF assms(2)]
  show "length (ring buf r w) = length (buf ! (unat r mod length buf) # ring buf (r + 1) w)" using d by simp
  fix i
  assume i: "i < length (ring buf r w)"
  show "ring buf r w ! i = (buf ! (unat r mod length buf) # ring buf (r + 1) w) ! i"
  proof (cases i)
    case 0
    then show ?thesis using i by (simp add: nth_ring)
  next
    case (Suc j)
    have one: "unat (r + 1) mod length buf = (unat r + 1) mod length buf"
    proof (cases "LENGTH('w) = 0")
      case False
      then show ?thesis using mod_wrap [OF assms(1), of r 1] by simp
    qed simp
    have "(unat (r + 1) + j) mod length buf = (unat r + Suc j) mod length buf"
      using one by (metis add_Suc_right add_Suc_shift Suc_eq_plus1 mod_add_left_eq)
    then show ?thesis using i Suc d by (simp add: nth_ring)
  qed
qed

lemma ring_drop_last:
  fixes w :: "'w::len word"
  assumes "w \<noteq> r"
  shows "ring buf r (w - 1) = butlast (ring buf r w)"
  by (rule nth_equalityI) (use unat_pred_diff [OF assms] in \<open>simp_all add: nth_butlast nth_ring\<close>)

lemma ring_split:
  fixes w :: "'w::len word"
  assumes "length buf dvd 2 ^ LENGTH('w)" and "unat (m - r) \<le> unat (w - r)"
  shows "ring buf r w = ring buf r m @ ring buf m w" and "unat (w - m) = unat (w - r) - unat (m - r)"
proof -
  have "w - m = (w - r) - (m - r)" by simp
  then show d: "unat (w - m) = unat (w - r) - unat (m - r)"
    using unat_sub [of "m - r" "w - r"] assms(2) by (simp add: word_le_nat_alt)
  show "ring buf r w = ring buf r m @ ring buf m w"
  proof (rule nth_equalityI)
    show "length (ring buf r w) = length (ring buf r m @ ring buf m w)" using d assms(2) by simp
    fix i
    assume i: "i < length (ring buf r w)"
    show "ring buf r w ! i = (ring buf r m @ ring buf m w) ! i"
    proof (cases "i < unat (m - r)")
      case True
      then show ?thesis using i assms(2) by (simp add: nth_ring nth_append)
    next
      case False
      have "(unat m + (i - unat (m - r))) mod length buf = (unat r + unat (m - r) + (i - unat (m - r))) mod length buf"
        using index_w [OF assms(1), of m r] by (metis mod_add_left_eq)
      then show ?thesis using i False d by (simp add: nth_ring nth_append)
    qed
  qed
qed

lemma ring_full:
  fixes w :: "'w::len word"
  assumes "N < 2 ^ LENGTH('w)"
  shows "w = r + of_nat N \<longleftrightarrow> unat (w - r) = N"
proof
  assume "w = r + of_nat N"
  then show "unat (w - r) = N" using assms by (simp add: unsigned_of_nat take_bit_nat_eq_self)
next
  assume "unat (w - r) = N"
  then show "w = r + of_nat N" using word_at [of w r] by simp
qed

text \<open>A bounded first-in first-out queue: its representation invariant, what it holds, how much fits.\<close>

locale fifo =
  fixes inv :: "'q \<Rightarrow> bool" and content :: "'q \<Rightarrow> 'b list" and cap :: nat
    and put :: "'b \<Rightarrow> 'q \<Rightarrow> 'q" and front :: "'q \<Rightarrow> 'b" and get :: "'q \<Rightarrow> 'q"
  assumes put_law: "inv q \<Longrightarrow> length (content q) < cap \<Longrightarrow> inv (put b q) \<and> content (put b q) = content q @ [b]"
    and get_law: "inv q \<Longrightarrow> content q \<noteq> [] \<Longrightarrow> inv (get q) \<and> content q = front q # content (get q)"
begin

lemma put_many:
  "inv q \<Longrightarrow> length (content q) + length bs \<le> cap \<Longrightarrow> inv (fold put bs q) \<and> content (fold put bs q) = content q @ bs"
  by (induction bs arbitrary: q) (auto simp: put_law)

lemma get_many:
  "inv q \<Longrightarrow> n \<le> length (content q) \<Longrightarrow> inv ((get ^^ n) q) \<and> content ((get ^^ n) q) = drop n (content q)"
proof (induction n arbitrary: q)
  case (Suc n)
  then have "content q \<noteq> []" by auto
  then have g: "inv (get q)" "content q = front q # content (get q)" using get_law [OF Suc.prems(1)] by simp_all
  then have "n \<le> length (content (get q))" using Suc.prems(2) by (metis Suc_le_mono length_Cons)
  from Suc.IH [OF g(1) this] show ?case using g(2) by (simp add: funpow_swap1)
qed simp

text \<open>What is put into an empty queue comes out in the same order.\<close>

lemma in_order:
  assumes "inv q" and "content q = []" and "length bs \<le> cap" and "i < length bs"
  shows "front ((get ^^ i) (fold put bs q)) = bs ! i"
proof -
  have p: "inv (fold put bs q)" "content (fold put bs q) = bs" using put_many [OF assms(1), of bs] assms by auto
  have g: "inv ((get ^^ i) (fold put bs q))" "content ((get ^^ i) (fold put bs q)) = drop i bs"
    using get_many [OF p(1), of i] p(2) assms(4) by auto
  then have "drop i bs = front ((get ^^ i) (fold put bs q)) # content (get ((get ^^ i) (fold put bs q)))"
    using get_law [OF g(1)] assms(4) by auto
  then show ?thesis using assms(4) by (metis hd_drop_conv_nth list.sel(1))
qed

end

end
