(* ===== verification/Vm_Tables.thy ===== *)
theory Vm_Tables
  imports Vm
begin

text \<open>
  Page tables as functions.  A page table in memory represents a function from virtual pages to
  page-table entries, \<open>pte_of\<close>.  The pages a table consists of form a tree: \<open>pt_wf\<close> labels each of
  them with its path from the root, and being a function the label makes the path unique, so that
  a write to one entry cannot be seen through any other.  The lemmas say what \<^verbatim>\<open>walk\<close>,
  \<^verbatim>\<open>mappages\<close> and \<^verbatim>\<open>uvmunmap\<close> do to that function.
\<close>

section \<open>Arithmetic of entries\<close>

lemma bit_aligned_page:
  assumes "unat (p :: u64) mod 4096 = 0"
  shows "push_bit 12 (drop_bit 12 p) = p"
proof -
  have "unat (p div 4096 * 4096) = unat p"
    using assms unsigned_less [of p, where ?'a = nat]
    by (auto simp: unat_word_ariths unat_div elim!: dvdE)
  then show ?thesis
    by (simp add: push_bit_eq_mult drop_bit_eq_div word_unat_eq_iff)
qed

lemma PTE2PA_PA2PTE:
  assumes "unat p mod 4096 = 0" and "f AND 0x3FF = f"
  shows "PTE2PA (PA2PTE p OR f) = p"
proof -
  have "drop_bit 10 f = 0"
  proof (rule bit_word_eqI)
    fix n
    assume "n < LENGTH(64)"
    have "bit f (n + 10) = bit (f AND mask 10) (n + 10)" using assms(2) by (simp add: mask_eq_exp_minus_1)
    then show "bit (drop_bit 10 f) n = bit 0 n" by (simp add: bit_drop_bit_eq bit_and_iff bit_mask_iff add.commute)
  qed
  moreover have "drop_bit 10 (push_bit 10 (drop_bit 12 p)) = drop_bit 12 p"
    by (rule bit_word_eqI) (auto simp: bit_drop_bit_eq bit_push_bit_iff add.commute dest: bit_imp_le_length)
  ultimately show ?thesis using bit_aligned_page [OF assms(1)] by (simp add: PTE2PA_def PA2PTE_def)
qed

lemma PTE_V_set: "(x OR PTE_V) AND PTE_V \<noteq> 0"
  by (simp add: PTE_V_def bit.conj_disj_distrib2)

lemma PTE_V_flags: "PTE_V AND 0x3FF = PTE_V"
  by (simp add: PTE_V_def)

lemma px_less: "unat (PX l va) < 512"
proof -
  have "PX l va = take_bit 9 (drop_bit (PXSHIFT l) va)"
    by (simp add: PX_def take_bit_eq_mask mask_eq_exp_minus_1)
  then have "unat (PX l va) = take_bit 9 (unat (drop_bit (PXSHIFT l) va))"
    by (simp add: unsigned_take_bit_eq)
  then show ?thesis using take_bit_nat_less_exp [of 9] by simp
qed

text \<open>The slot of entry \<open>i\<close> of a table page.\<close>

definition pslot :: "u64 \<Rightarrow> nat \<Rightarrow> u64" where
  "pslot p i = p + 8 * of_nat i"

lemma pte_addr_slot: "pte_addr p l va = pslot p (unat (PX l va))"
  by (simp add: pte_addr_def pslot_def)

lemma pslot_off: "i < 512 \<Longrightarrow> unat (pslot p i - p) = 8 * i"
  by (simp add: pslot_def unat_word_ariths unsigned_of_nat take_bit_nat_eq_self)

lemma pslot_split:
  assumes "i < 512" and "unat (x - pslot p i) < 8"
  shows "unat (x - p) = unat (x - pslot p i) + 8 * i"
proof -
  have "unat (x - p) = unat ((x - pslot p i) + (pslot p i - p))" by simp
  also have "\<dots> = (unat (x - pslot p i) + unat (pslot p i - p)) mod 2 ^ LENGTH(64)"
    by (rule unat_word_ariths(1))
  finally show ?thesis using assms by (simp add: pslot_off)
qed

lemma pslot_in_page:
  assumes "i < 512" and "unat (x - pslot p i) < 8"
  shows "unat (x - p) < 4096"
  using pslot_split [OF assms] assms by simp

lemma load_other_page:
  assumes "same_outside q m m'" and "unat p mod 4096 = 0" and "unat q mod 4096 = 0" and "p \<noteq> q" and "i < 512"
  shows "load64 m' (pslot p i) = load64 m (pslot p i)"
proof (rule load64_cong)
  fix x
  assume "unat (x - pslot p i) < 8"
  then have "unat (x - p) < 4096" by (rule pslot_in_page [OF assms(5)])
  then have "\<not> unat (x - q) < 4096" by (rule page_disjoint [OF assms(2,3,4)])
  then show "m' x = m x" using assms(1) by (simp add: same_outside_def)
qed

lemma same_outside_slot: "i < 512 \<Longrightarrow> same_outside p m (store64 m (pslot p i) v)"
  by (auto simp: same_outside_def store64_def dest: pslot_in_page)

lemma load_other_slot:
  assumes "i < 512" and "j < 512" and "i \<noteq> j"
  shows "load64 (store64 m (pslot p i) v) (pslot p j) = load64 m (pslot p j)"
proof (rule load_store_other)
  fix x
  assume j: "unat (x - pslot p j) < 8"
  show "\<not> unat (x - pslot p i) < 8"
  proof
    assume i: "unat (x - pslot p i) < 8"
    have "unat (x - pslot p i) + 8 * i = unat (x - pslot p j) + 8 * j"
      using pslot_split [OF assms(1) i] pslot_split [OF assms(2) j] by simp
    then show False using i j assms(3) by presburger
  qed
qed


section \<open>Tables as trees\<close>

text \<open>The table or page entry \<open>i\<close> of the table page \<open>p\<close> leads to.\<close>

definition child :: "mem \<Rightarrow> u64 \<Rightarrow> nat \<Rightarrow> u64 option" where
  "child m p i = (let e = load64 m (pslot p i) in if e AND PTE_V \<noteq> 0 then Some (PTE2PA e) else None)"

definition pt_wf :: "mem \<Rightarrow> u64 \<Rightarrow> (u64 \<rightharpoonup> nat list) \<Rightarrow> bool" where
  "pt_wf m pt lab \<longleftrightarrow> lab pt = Some [] \<and>
     (\<forall>p path i c. lab p = Some path \<longrightarrow> length path < 2 \<longrightarrow> i < 512 \<longrightarrow> child m p i = Some c \<longrightarrow> lab c = Some (path @ [i])) \<and>
     (\<forall>p \<in> dom lab. unat p mod 4096 = 0 \<and> p \<noteq> 0)"

text \<open>The entry for \<open>va\<close>: its address, and its value, 0 where there is no table for it.\<close>

definition walk_fn :: "mem \<Rightarrow> u64 \<Rightarrow> u64 \<Rightarrow> u64 option" where
  "walk_fn m pt va =
     (case child m pt (unat (PX 2 va)) of None \<Rightarrow> None | Some pt1 \<Rightarrow>
      case child m pt1 (unat (PX 1 va)) of None \<Rightarrow> None | Some pt0 \<Rightarrow> Some (pte_addr pt0 0 va))"

definition pte_of :: "mem \<Rightarrow> u64 \<Rightarrow> u64 \<Rightarrow> u64" where
  "pte_of m pt va = (case walk_fn m pt va of None \<Rightarrow> 0 | Some a \<Rightarrow> load64 m a)"

definition user_pa :: "mem \<Rightarrow> u64 \<Rightarrow> u64 \<Rightarrow> u64" where
  "user_pa m pt va = (if va \<ge> MAXVA then 0 else
     let e = pte_of m pt va in if e AND PTE_V = 0 \<or> e AND PTE_U = 0 then 0 else PTE2PA e)"

lemma walk_level_False:
  "walk_level p va False l s = Ok (child (mem s) p (unat (PX l va))) s"
  by (simp add: walk_level_def child_def Let_def run_kbind read_pte_def pte_addr_slot)

lemma walk_False:
  assumes "va < MAXVA"
  shows "walk pt va False s = Ok (case walk_fn (mem s) pt va of None \<Rightarrow> 0 | Some a \<Rightarrow> a) s"
proof -
  have "\<not> va \<ge> MAXVA" using assms by simp
  then show ?thesis by (simp add: walk_def run_kbind walk_level_False walk_fn_def split: option.split)
qed

lemma pt_wf_aligned: "pt_wf m pt lab \<Longrightarrow> lab p = Some path \<Longrightarrow> unat p mod 4096 = 0 \<and> p \<noteq> 0"
  unfolding pt_wf_def by blast

lemma pt_wf_child:
  "pt_wf m pt lab \<Longrightarrow> lab p = Some path \<Longrightarrow> length path < 2 \<Longrightarrow> i < 512 \<Longrightarrow> child m p i = Some c \<Longrightarrow> lab c = Some (path @ [i])"
  by (auto simp: pt_wf_def)

lemma walk_fn_lab:
  assumes "pt_wf m pt lab" and "walk_fn m pt va = Some a"
  shows "\<exists>pt0. lab pt0 = Some [unat (PX 2 va), unat (PX 1 va)] \<and> a = pslot pt0 (unat (PX 0 va))"
proof -
  obtain pt1 pt0 where c: "child m pt (unat (PX 2 va)) = Some pt1" "child m pt1 (unat (PX 1 va)) = Some pt0"
      "a = pte_addr pt0 0 va"
    using assms(2) by (auto simp: walk_fn_def split: option.splits)
  have r: "lab pt = Some []" using assms(1) by (simp add: pt_wf_def)
  have "lab pt1 = Some [unat (PX 2 va)]" using pt_wf_child [OF assms(1) r _ px_less c(1)] by simp
  then have "lab pt0 = Some [unat (PX 2 va), unat (PX 1 va)]" using pt_wf_child [OF assms(1) _ _ px_less c(2)] by fastforce
  then show ?thesis using c(3) by (auto simp: pte_addr_slot)
qed

lemma walk_fn_nonzero:
  assumes "pt_wf m pt lab" and "walk_fn m pt va = Some a"
  shows "a \<noteq> 0"
proof
  assume "a = 0"
  obtain pt0 where p: "lab pt0 = Some [unat (PX 2 va), unat (PX 1 va)]" "a = pslot pt0 (unat (PX 0 va))"
    using walk_fn_lab [OF assms] by blast
  have al: "unat pt0 mod 4096 = 0" "pt0 \<noteq> 0" using pt_wf_aligned [OF assms(1) p(1)] by auto
  have "unat (0 - pt0) = 8 * unat (PX 0 va)" using pslot_off [OF px_less, of pt0 0 va] p(2) \<open>a = 0\<close> by simp
  moreover have "unat (0 - pt0) = 2 ^ 64 - unat pt0"
    using unat_diff_less [of 0 pt0] al(2) by (simp add: word_neq_0_conv)
  moreover obtain k where k: "unat pt0 = 4096 * k" using al(1) by auto
  ultimately have "4096 * k + 8 * unat (PX 0 va) = 18446744073709551616" "4096 * k < 18446744073709551616"
    using unsigned_less [of pt0, where ?'a = nat] by simp_all
  then show False using px_less [of 0 va] by presburger
qed

lemma walkaddr_run:
  assumes "pt_wf (mem s) pt lab"
  shows "walkaddr pt va s = Ok (user_pa (mem s) pt va) s"
proof (cases "va < MAXVA")
  case True
  show ?thesis
  proof (cases "walk_fn (mem s) pt va")
    case None
    then show ?thesis using True by (simp add: walkaddr_def run_kbind walk_False user_pa_def pte_of_def Let_def not_le)
  next
    case (Some a)
    then show ?thesis using True walk_fn_nonzero [OF assms Some]
      by (auto simp: walkaddr_def run_kbind walk_False user_pa_def pte_of_def Let_def not_le read_pte_def)
  qed
next
  case False
  then have "va \<ge> MAXVA" by simp
  then show ?thesis by (simp add: walkaddr_def user_pa_def)
qed

section \<open>What a write can change\<close>

lemma pt_loads_frame:
  assumes "pt_wf m pt lab" and "\<And>p i. p \<in> dom lab \<Longrightarrow> i < 512 \<Longrightarrow> load64 m' (pslot p i) = load64 m (pslot p i)"
  shows "pt_wf m' pt lab" and "walk_fn m' pt va = walk_fn m pt va" and "pte_of m' pt va = pte_of m pt va"
proof -
  have ch: "child m' p i = child m p i" if "p \<in> dom lab" "i < 512" for p i
    using assms(2) [OF that] by (simp add: child_def)
  have r: "lab pt = Some []" using assms(1) by (simp add: pt_wf_def)
  show wf: "pt_wf m' pt lab"
    unfolding pt_wf_def
  proof (intro conjI allI impI)
    fix p path i c
    assume "lab p = Some path" "length path < 2" "i < 512" "child m' p i = Some c"
    then show "lab c = Some (path @ [i])" using pt_wf_child [OF assms(1)] ch [OF domI] by metis
  qed (use assms(1) r in \<open>auto simp: pt_wf_def\<close>)
  have c1: "child m' pt (unat (PX 2 va)) = child m pt (unat (PX 2 va))" by (rule ch) (use r px_less in auto)
  have c2: "child m' c (unat (PX 1 va)) = child m c (unat (PX 1 va))" if "child m pt (unat (PX 2 va)) = Some c" for c
  proof (rule ch [OF _ px_less])
    show "c \<in> dom lab" using pt_wf_child [OF assms(1) r _ px_less that] by (simp add: domI)
  qed
  show w: "walk_fn m' pt va = walk_fn m pt va" using c1 c2 by (simp add: walk_fn_def split: option.split)
  show "pte_of m' pt va = pte_of m pt va"
  proof (cases "walk_fn m pt va")
    case (Some a)
    then obtain pt0 where "lab pt0 = Some [unat (PX 2 va), unat (PX 1 va)]" "a = pslot pt0 (unat (PX 0 va))"
      using walk_fn_lab [OF assms(1)] by blast
    then show ?thesis using w Some assms(2) [OF domI px_less] by (simp add: pte_of_def)
  qed (use w in \<open>simp add: pte_of_def\<close>)
qed

lemma pt_page_frame:
  assumes "pt_wf m pt lab" and "same_outside q m m'" and "unat q mod 4096 = 0" and "q \<notin> dom lab"
  shows "pt_wf m' pt lab" and "walk_fn m' pt va = walk_fn m pt va" and "pte_of m' pt va = pte_of m pt va"
proof -
  have fr: "load64 m' (pslot p i) = load64 m (pslot p i)" if "p \<in> dom lab" "i < 512" for p i
    by (rule load_other_page [OF assms(2) _ assms(3) _ that(2)]) (use assms that pt_wf_aligned [OF assms(1)] in auto)
  show "pt_wf m' pt lab" by (rule pt_loads_frame [OF assms(1) fr])
  show "walk_fn m' pt va = walk_fn m pt va" by (rule pt_loads_frame [OF assms(1) fr])
  show "pte_of m' pt va = pte_of m pt va" by (rule pt_loads_frame [OF assms(1) fr])
qed

lemma kmem_inv_write:
  assumes "kmem_inv s ps" and "same_outside q (mem s) m'" and "unat q mod 4096 = 0" and "q \<notin> set ps"
  shows "kmem_inv (s\<lparr>mem := m'\<rparr>) ps"
  using assms threaded_same_outside [OF assms(2), of ps "freelist s"]
  by (auto simp: kmem_inv_def page_ok_def)

text \<open>A new table in an invalid entry: nothing is mapped through it yet.\<close>

lemma pt_new_table:
  assumes wf: "pt_wf m pt lab" and p: "lab p = Some path" "length path < 2" "i < 512" and free: "child m p i = None"
    and pg: "pg \<notin> dom lab" "unat pg mod 4096 = 0" "pg \<noteq> 0"
    and new: "load64 m' (pslot p i) = PA2PTE pg OR PTE_V"
    and zero: "\<And>j. j < 512 \<Longrightarrow> load64 m' (pslot pg j) = 0"
    and same: "\<And>q j. q \<in> dom lab \<Longrightarrow> j < 512 \<Longrightarrow> (q, j) \<noteq> (p, i) \<Longrightarrow> load64 m' (pslot q j) = load64 m (pslot q j)"
  shows "pt_wf m' pt (lab(pg \<mapsto> path @ [i]))" and "child m' p i = Some pg" and "pte_of m' pt va = pte_of m pt va"
proof -
  have ci: "child m' p i = Some pg"
    using new PTE2PA_PA2PTE [OF pg(2) PTE_V_flags] PTE_V_set by (simp add: child_def Let_def)
  then show "child m' p i = Some pg" .
  have cz: "child m' pg j = None" if "j < 512" for j using zero [OF that] by (simp add: child_def)
  have cs: "child m' q j = child m q j" if "q \<in> dom lab" "j < 512" "(q, j) \<noteq> (p, i)" for q j
    using same [OF that] by (simp add: child_def)
  have r: "lab pt = Some []" using wf by (simp add: pt_wf_def)
  show "pt_wf m' pt (lab(pg \<mapsto> path @ [i]))"
    unfolding pt_wf_def
  proof (intro conjI allI impI ballI)
    show "(lab(pg \<mapsto> path @ [i])) pt = Some []" using r pg(1) by auto
  next
    fix q pa j c
    assume q: "(lab(pg \<mapsto> path @ [i])) q = Some pa" and l: "length pa < 2" and j: "j < 512" and c: "child m' q j = Some c"
    have qpg: "q \<noteq> pg" using c cz [OF j] by auto
    then have q': "lab q = Some pa" using q by simp
    show "(lab(pg \<mapsto> path @ [i])) c = Some (pa @ [j])"
    proof (cases "(q, j) = (p, i)")
      case True
      then show ?thesis using c ci q' p(1) by simp
    next
      case False
      then have "child m q j = Some c" using cs [OF domI [where m = lab, OF q'] j] c by simp
      then have "lab c = Some (pa @ [j])" by (rule pt_wf_child [OF wf q' l j])
      then show ?thesis using pg(1) by auto
    qed
  next
    fix q
    assume "q \<in> dom (lab(pg \<mapsto> path @ [i]))"
    then show "unat q mod 4096 = 0" "q \<noteq> 0" using pg pt_wf_aligned [OF wf] by (auto split: if_splits)
  qed
  let ?i2 = "unat (PX 2 va)" and ?i1 = "unat (PX 1 va)" and ?i0 = "unat (PX 0 va)"
  show "pte_of m' pt va = pte_of m pt va"
  proof (cases "(pt, ?i2) = (p, i)")
    case True
    then show ?thesis using ci free cz [OF px_less] by (simp add: pte_of_def walk_fn_def)
  next
    case False
    then have c2: "child m' pt ?i2 = child m pt ?i2" by (rule cs [OF domI [where m = lab, OF r] px_less])
    show ?thesis
    proof (cases "child m pt ?i2")
      case None
      then show ?thesis using c2 by (simp add: pte_of_def walk_fn_def)
    next
      case (Some pt1)
      then have l1: "lab pt1 = Some [?i2]" using pt_wf_child [OF wf r _ px_less Some] by simp
      show ?thesis
      proof (cases "(pt1, ?i1) = (p, i)")
        case True
        then show ?thesis using ci free c2 Some zero [OF px_less] by (simp add: pte_of_def walk_fn_def pte_addr_slot)
      next
        case False
        then have c1: "child m' pt1 ?i1 = child m pt1 ?i1" by (rule cs [OF domI [where m = lab, OF l1] px_less])
        have "load64 m' (pslot pt0 ?i0) = load64 m (pslot pt0 ?i0)" if c: "child m pt1 ?i1 = Some pt0" for pt0
        proof (rule same [OF _ px_less])
          have "lab pt0 = Some [?i2, ?i1]" using pt_wf_child [OF wf l1 _ px_less c] by simp
          then show "pt0 \<in> dom lab" "(pt0, ?i0) \<noteq> (p, i)" using p(1,2) by (blast, force)
        qed
        then show ?thesis using c2 c1 Some by (auto simp: pte_of_def walk_fn_def pte_addr_slot split: option.split)
      qed
    qed
  qed
qed

section \<open>Walking with allocation\<close>

definition vm_inv :: "'a kmem_scheme \<Rightarrow> u64 \<Rightarrow> (u64 \<rightharpoonup> nat list) \<Rightarrow> u64 list \<Rightarrow> bool" where
  "vm_inv s pt lab ps \<longleftrightarrow> kmem_inv s ps \<and> LKmem \<notin> set (held s) \<and> pt_wf (mem s) pt lab \<and> dom lab \<inter> set ps = {}"

text \<open>Memory outside the pages \<open>A\<close> is the same.\<close>

definition mem_frame :: "u64 set \<Rightarrow> mem \<Rightarrow> mem \<Rightarrow> bool" where
  "mem_frame A m m' \<longleftrightarrow> (\<forall>a. (\<forall>q \<in> A. \<not> unat (a - q) < 4096) \<longrightarrow> m' a = m a)"

lemma mem_frame_refl [simp]: "mem_frame A m m"
  by (simp add: mem_frame_def)

lemma mem_frame_trans: "mem_frame A m m' \<Longrightarrow> mem_frame A m' m'' \<Longrightarrow> mem_frame A m m''"
  by (simp add: mem_frame_def)

lemma mem_frame_page: "same_outside q m m' \<Longrightarrow> q \<in> A \<Longrightarrow> mem_frame A m m'"
  by (auto simp: mem_frame_def same_outside_def)

text \<open>
  From \<open>s\<close> to \<open>s'\<close> the table may have got new table pages from the free list; what it maps, and the
  rest of the state, is the same.
\<close>

definition vm_grow :: "u64 \<Rightarrow> 'a kmem_scheme \<Rightarrow> (u64 \<rightharpoonup> nat list) \<Rightarrow> u64 list \<Rightarrow> 'a kmem_scheme \<Rightarrow> (u64 \<rightharpoonup> nat list) \<Rightarrow> u64 list \<Rightarrow> bool" where
  "vm_grow pt s lab ps s' lab' ps' \<longleftrightarrow> vm_inv s' pt lab' ps' \<and> lab \<subseteq>\<^sub>m lab' \<and> dom lab' \<union> set ps' = dom lab \<union> set ps \<and>
     (\<forall>va. pte_of (mem s') pt va = pte_of (mem s) pt va) \<and> mem_frame (dom lab \<union> set ps) (mem s) (mem s') \<and>
     (\<forall>p i c. p \<in> dom lab \<longrightarrow> i < 512 \<longrightarrow> child (mem s) p i = Some c \<longrightarrow> child (mem s') p i = Some c) \<and>
     (\<exists>m f. s' = s\<lparr>mem := m, freelist := f\<rparr>)"

lemma vm_grow_refl: "vm_inv s pt lab ps \<Longrightarrow> vm_grow pt s lab ps s lab ps"
  unfolding vm_grow_def by (auto intro!: exI [of _ "mem s"] exI [of _ "freelist s"])

lemma vm_growD:
  assumes "vm_grow pt s lab ps s' lab' ps'"
  shows "vm_inv s' pt lab' ps'" and "lab \<subseteq>\<^sub>m lab'" and "dom lab' \<union> set ps' = dom lab \<union> set ps"
    and "pte_of (mem s') pt va = pte_of (mem s) pt va" and "mem_frame (dom lab \<union> set ps) (mem s) (mem s')"
    and "\<exists>m f. s' = s\<lparr>mem := m, freelist := f\<rparr>"
    and "p \<in> dom lab \<Longrightarrow> i < 512 \<Longrightarrow> child (mem s) p i = Some c \<Longrightarrow> child (mem s') p i = Some c"
  using assms unfolding vm_grow_def by blast+

lemma vm_growI:
  assumes "vm_inv s' pt lab' ps'" and "lab \<subseteq>\<^sub>m lab'" and "dom lab' \<union> set ps' = dom lab \<union> set ps"
    and "\<And>va. pte_of (mem s') pt va = pte_of (mem s) pt va" and "mem_frame (dom lab \<union> set ps) (mem s) (mem s')"
    and "s' = s\<lparr>mem := m, freelist := f\<rparr>"
    and "\<And>p i c. p \<in> dom lab \<Longrightarrow> i < 512 \<Longrightarrow> child (mem s) p i = Some c \<Longrightarrow> child (mem s') p i = Some c"
  shows "vm_grow pt s lab ps s' lab' ps'"
  using assms unfolding vm_grow_def by blast

lemma vm_grow_trans:
  assumes "vm_grow pt s lab ps s' lab' ps'" and "vm_grow pt s' lab' ps' s'' lab'' ps''"
  shows "vm_grow pt s lab ps s'' lab'' ps''"
proof -
  note a = vm_growD [OF assms(1)] and b = vm_growD [OF assms(2)]
  obtain m f where s': "s' = s\<lparr>mem := m, freelist := f\<rparr>" using a(6) by blast
  obtain m' f' where "s'' = s'\<lparr>mem := m', freelist := f'\<rparr>" using b(6) by blast
  then have s'': "s'' = s\<lparr>mem := m', freelist := f'\<rparr>" by (simp add: s')
  have fr: "mem_frame (dom lab \<union> set ps) (mem s) (mem s'')"
    by (rule mem_frame_trans [OF a(5)]) (use b(5) a(3) in simp)
  show ?thesis
  proof (rule vm_growI [OF b(1) map_le_trans [OF a(2) b(2)] _ _ fr s''])
    fix p i c
    assume p: "p \<in> dom lab" "i < 512" "child (mem s) p i = Some c"
    have "p \<in> dom lab'" using p(1) map_le_implies_dom_le [OF a(2)] by blast
    then show "child (mem s'') p i = Some c" using a(7) [OF p] b(7) p(2) by simp
  qed (use a(3,4) b(3,4) in simp_all)
qed

lemma load64_zero:
  assumes "\<And>x. unat (x - p) < 4096 \<Longrightarrow> m x = 0" and "j < 512"
  shows "load64 m (pslot p j) = 0"
proof -
  have "load64 m (pslot p j) = load64 (\<lambda>_. 0) (pslot p j)"
    by (rule load64_cong) (use assms pslot_in_page in blast)
  moreover have "load64 (\<lambda>_. 0) a = 0" for a
    by (rule bit_word_eqI) (simp add: load64_def bit_word_of_bytes bytes_at_def nth_map)
  ultimately show ?thesis by simp
qed

lemma walk_level_alloc:
  assumes inv: "vm_inv s pt lab ps" and p: "lab p = Some path" "length path < 2" and i: "i = unat (PX l va)"
  shows "\<exists>r s' lab' ps'. walk_level p va True l s = Ok r s' \<and> vm_grow pt s lab ps s' lab' ps' \<and>
    (case r of None \<Rightarrow> ps = [] | Some c \<Rightarrow> child (mem s') p i = Some c \<and> lab' c = Some (path @ [i]))"
proof (cases "child (mem s) p i")
  case (Some c)
  have wf: "pt_wf (mem s) pt lab" using inv by (simp add: vm_inv_def)
  have "walk_level p va True l s = Ok (Some c) s"
    using Some by (auto simp: walk_level_def child_def Let_def run_kbind read_pte_def pte_addr_slot i split: if_splits)
  moreover have "lab c = Some (path @ [i])"
    using pt_wf_child [OF wf p _ Some] px_less by (simp add: i)
  ultimately show ?thesis using vm_grow_refl [OF inv] Some by fastforce
next
  case None
  have i512: "i < 512" by (simp add: i px_less)
  have lk: "LKmem \<notin> set (held s)" and km: "kmem_inv s ps" and wf: "pt_wf (mem s) pt lab" and dis: "dom lab \<inter> set ps = {}"
    using inv by (auto simp: vm_inv_def)
  have v: "load64 (mem s) (pslot p i) AND PTE_V = 0" using None by (auto simp: child_def Let_def split: if_splits)
  show ?thesis
  proof (cases ps)
    case Nil
    then have "walk_level p va True l s = Ok None s"
      using v kalloc_empty [of s] km lk by (simp add: walk_level_def Let_def run_kbind read_pte_def pte_addr_slot i)
    then show ?thesis using vm_grow_refl [OF inv] Nil by fastforce
  next
    case (Cons pg ps')
    have pdom: "p \<in> dom lab" using p(1) by blast
    have pal: "unat p mod 4096 = 0" using pt_wf_aligned [OF wf p(1)] by simp
    have pg: "pg \<notin> dom lab" "unat pg mod 4096 = 0" "pg \<noteq> 0" "pg \<notin> set ps'" "pg \<noteq> p"
      using km dis pdom by (auto simp: Cons kmem_inv_def page_ok_def)
    obtain s1 where s1: "kalloc s = Ok pg s1" "kmem_inv s1 ps'" "same_outside pg (mem s) (mem s1)" "held s1 = held s"
      using kalloc_inv [of s pg ps'] km lk Cons by blast
    have s1r: "s1 = s\<lparr>freelist := freelist s1, mem := mem s1\<rparr>"
      using s1(1) kalloc_run [OF lk] pg(3) by (auto split: if_splits)
    define m2 where "m2 = memset pg 0 4096 (mem s1)"
    define m3 where "m3 = store64 m2 (pslot p i) (PA2PTE pg OR PTE_V)"
    have run: "walk_level p va True l s = Ok (Some pg) (s1\<lparr>mem := m3\<rparr>)"
      using v s1(1) pg(3) s1r
      by (simp add: walk_level_def Let_def run_kbind run_kthen read_pte_def write_pte_def zero_page_def pte_addr_slot i m3_def m2_def)
    have so2: "same_outside pg (mem s) m2" unfolding m2_def by (rule same_outside_trans [OF s1(3) same_outside_memset])
    have so3: "same_outside p m2 m3" unfolding m3_def by (rule same_outside_slot [OF i512])
    have wf2: "pt_wf m2 pt lab" by (rule pt_page_frame(1) [OF wf so2 pg(2,1)])
    have eq2: "load64 m2 (pslot q j) = load64 (mem s) (pslot q j)" if "q \<in> dom lab" "j < 512" for q j
      by (rule load_other_page [OF so2 _ pg(2) _ that(2)]) (use that pg pt_wf_aligned [OF wf] in auto)
    have nw: "load64 m3 (pslot p i) = PA2PTE pg OR PTE_V" by (simp add: m3_def)
    have zr: "load64 m3 (pslot pg j) = 0" if "j < 512" for j
    proof -
      have "load64 m3 (pslot pg j) = load64 m2 (pslot pg j)"
        by (rule load_other_page [OF so3 pg(2) pal pg(5) that])
      then show ?thesis using load64_zero [of pg m2 j] that by (simp add: m2_def memset_eq)
    qed
    have sm: "load64 m3 (pslot q j) = load64 (mem s) (pslot q j)" if q: "q \<in> dom lab" "j < 512" "(q, j) \<noteq> (p, i)" for q j
    proof (cases "q = p")
      case True
      then show ?thesis using load_other_slot [OF i512 q(2), of m2 p] q eq2 by (simp add: m3_def)
    next
      case False
      then show ?thesis using load_other_page [OF so3 _ pal False q(2)] q eq2 pt_wf_aligned [OF wf] by auto
    qed
    note nt = pt_new_table [OF wf p i512 None pg(1,2,3) nw zr sm]
    let ?lab = "lab(pg \<mapsto> path @ [i])"
    have "kmem_inv (s1\<lparr>mem := m2\<rparr>) ps'"
      by (rule kmem_inv_write [OF s1(2) _ pg(2,4)]) (simp add: m2_def same_outside_memset)
    then have km3: "kmem_inv (s1\<lparr>mem := m3\<rparr>) ps'"
      using kmem_inv_write [of "s1\<lparr>mem := m2\<rparr>" ps' p m3] so3 pal pdom dis Cons by auto
    have "mem_frame (dom lab \<union> set ps) (mem s) m2" "mem_frame (dom lab \<union> set ps) m2 m3"
      using mem_frame_page [OF so2] mem_frame_page [OF so3] pdom by (auto simp: Cons)
    then have fr: "mem_frame (dom lab \<union> set ps) (mem s) m3" by (rule mem_frame_trans)
    have "vm_inv (s1\<lparr>mem := m3\<rparr>) pt ?lab ps'"
      using km3 lk s1(4) nt(1) dis pg by (auto simp: vm_inv_def Cons)
    moreover have "lab \<subseteq>\<^sub>m ?lab" using pg(1) by (auto simp: map_le_def)
    moreover have "s1\<lparr>mem := m3\<rparr> = s\<lparr>mem := m3, freelist := freelist s1\<rparr>" by (subst s1r) simp
    moreover have "dom ?lab \<union> set ps' = dom lab \<union> set ps" by (auto simp: Cons)
    moreover have "child m3 q j = Some c" if "q \<in> dom lab" "j < 512" "child (mem s) q j = Some c" for q j c
      using sm [OF that(1,2)] that(3) None by (cases "(q, j) = (p, i)") (auto simp: child_def)
    ultimately have "vm_grow pt s lab ps (s1\<lparr>mem := m3\<rparr>) ?lab ps'"
      using nt(3) fr by (intro vm_growI) simp_all
    moreover have "child (mem (s1\<lparr>mem := m3\<rparr>)) p i = Some pg" using nt(2) by simp
    ultimately show ?thesis using run by fastforce
  qed
qed

lemma walk_alloc:
  assumes inv: "vm_inv s pt lab ps" and va: "va < MAXVA"
  shows "\<exists>r s' lab' ps'. walk pt va True s = Ok r s' \<and> vm_grow pt s lab ps s' lab' ps' \<and>
    (if r = 0 then ps' = [] else walk_fn (mem s') pt va = Some r)"
proof -
  let ?i2 = "unat (PX 2 va)" and ?i1 = "unat (PX 1 va)"
  have nva: "\<not> va \<ge> MAXVA" using va by simp
  have empty: "qs' = []" if "vm_grow pt t l [] t' l' qs'" for t l t' l' qs'
  proof -
    have "set qs' \<subseteq> dom l'" using vm_growD(2,3) [OF that] map_le_implies_dom_le by fastforce
    moreover have "dom l' \<inter> set qs' = {}" using vm_growD(1) [OF that] by (simp add: vm_inv_def)
    ultimately have "set qs' = {}" using Int_absorb1 by metis
    then show ?thesis by simp
  qed
  have root: "lab pt = Some []" using inv by (simp add: vm_inv_def pt_wf_def)
  obtain r2 s1 l1 p1 where 1: "walk_level pt va True 2 s = Ok r2 s1" "vm_grow pt s lab ps s1 l1 p1"
      "case r2 of None \<Rightarrow> ps = [] | Some c \<Rightarrow> child (mem s1) pt ?i2 = Some c \<and> l1 c = Some ([] @ [?i2])"
    using walk_level_alloc [OF inv root _ refl, where l = 2 and va = va] by auto
  show ?thesis
  proof (cases r2)
    case None
    then have "walk pt va True s = Ok 0 s1" using 1(1) nva by (simp add: walk_def run_kbind)
    moreover have "p1 = []" using empty 1(2,3) None by auto
    ultimately show ?thesis using 1(2) by fastforce
  next
    case (Some pt1)
    then have c2: "child (mem s1) pt ?i2 = Some pt1" and l: "l1 pt1 = Some [?i2]" using 1(3) by auto
    obtain r1 s2 l2 p2 where 2: "walk_level pt1 va True 1 s1 = Ok r1 s2" "vm_grow pt s1 l1 p1 s2 l2 p2"
        "case r1 of None \<Rightarrow> p1 = [] | Some c \<Rightarrow> child (mem s2) pt1 ?i1 = Some c \<and> l2 c = Some ([?i2] @ [?i1])"
      using walk_level_alloc [OF vm_growD(1) [OF 1(2)] l _ refl, where l = 1 and va = va] by auto
    have g: "vm_grow pt s lab ps s2 l2 p2" by (rule vm_grow_trans [OF 1(2) 2(2)])
    have wf2: "pt_wf (mem s2) pt l2" using vm_growD(1) [OF g] by (simp add: vm_inv_def)
    show ?thesis
    proof (cases r1)
      case None
      then have "walk pt va True s = Ok 0 s2" using 1(1) 2(1) Some nva by (simp add: walk_def run_kbind)
      moreover have "p2 = []" using empty 2(2,3) None by auto
      ultimately show ?thesis using g by fastforce
    next
      case r1: (Some pt0)
      have "pt \<in> dom l1" using vm_growD(1) [OF 1(2)] by (auto simp: vm_inv_def pt_wf_def)
      then have "child (mem s2) pt ?i2 = Some pt1" by (rule vm_growD(7) [OF 2(2) _ px_less c2])
      then have w: "walk_fn (mem s2) pt va = Some (pte_addr pt0 0 va)" using 2(3) r1 by (simp add: walk_fn_def)
      moreover have "walk pt va True s = Ok (pte_addr pt0 0 va) s2"
        using 1(1) 2(1) Some r1 nva by (simp add: walk_def run_kbind)
      moreover have "pte_addr pt0 0 va \<noteq> 0" by (rule walk_fn_nonzero [OF wf2 w])
      ultimately show ?thesis using g by fastforce
    qed
  qed
qed

section \<open>Changing an entry\<close>

text \<open>The virtual page of an address.\<close>

definition vpn :: "u64 \<Rightarrow> nat" where
  "vpn va = unat va div 4096"

lemma PX_vpn:
  assumes "va < MAXVA"
  shows "unat (PX l va) = vpn va div 512 ^ l mod 512"
proof -
  have "PX l va = take_bit 9 (drop_bit (12 + 9 * l) va)"
    by (simp add: PX_def PXSHIFT_def take_bit_eq_mask mask_eq_exp_minus_1)
  moreover have "take_bit 64 (unat va) = unat va"
    using unsigned_less [of va, where ?'a = nat] by (simp add: take_bit_nat_eq_self)
  ultimately have "unat (PX l va) = take_bit 9 (drop_bit (12 + 9 * l) (unat va))"
    by (simp add: unsigned_take_bit_eq unsigned_drop_bit_eq)
  then have "unat (PX l va) = unat va div 2 ^ (12 + 9 * l) mod 2 ^ 9"
    by (simp add: take_bit_eq_mod drop_bit_eq_div)
  also have "(2 :: nat) ^ (12 + 9 * l) = 4096 * 512 ^ l" by (simp add: power_add power_mult)
  finally show ?thesis by (simp add: vpn_def div_mult2_eq)
qed

lemma vpn_bound: "va < MAXVA \<Longrightarrow> vpn va < 2 ^ 26"
  by (simp add: vpn_def MAXVA_value word_less_nat_alt less_mult_imp_div_less)

lemma vpn_digits:
  fixes a b :: nat
  assumes "a < 2 ^ 27" and "b < 2 ^ 27" and "\<And>l. l \<le> 2 \<Longrightarrow> a div 512 ^ l mod 512 = b div 512 ^ l mod 512"
  shows "a = b"
proof -
  have 0: "a mod 512 = b mod 512" using assms(3) [of 0] by simp
  have 1: "a div 512 mod 512 = b div 512 mod 512" using assms(3) [of 1] by simp
  have "a div 512 div 512 < 512" "b div 512 div 512 < 512" using assms(1,2) by simp_all
  then have "a div 512 div 512 = b div 512 div 512"
    using assms(3) [of 2] by (simp add: div_mult2_eq [symmetric])
  then have "a div 512 = b div 512" using 1 by (metis div_mult_mod_eq)
  then show ?thesis using 0 by (metis div_mult_mod_eq)
qed

lemma vpn_eq:
  assumes "va < MAXVA" and "va' < MAXVA" and "PX 2 va = PX 2 va'" and "PX 1 va = PX 1 va'" and "PX 0 va = PX 0 va'"
  shows "vpn va = vpn va'"
proof (rule vpn_digits)
  show "vpn va < 2 ^ 27" "vpn va' < 2 ^ 27" using vpn_bound [OF assms(1)] vpn_bound [OF assms(2)] by simp_all
  fix l :: nat
  assume "l \<le> 2"
  then have "l = 0 \<or> l = 1 \<or> l = 2" by auto
  then have "PX l va = PX l va'" using assms(3-5) by auto
  then show "vpn va div 512 ^ l mod 512 = vpn va' div 512 ^ l mod 512"
    using PX_vpn [OF assms(1), of l] PX_vpn [OF assms(2), of l] by simp
qed

lemma PX_cong:
  assumes "va < MAXVA" and "va' < MAXVA" and "vpn va = vpn va'"
  shows "PX l va = PX l va'"
  using PX_vpn [OF assms(1), of l] PX_vpn [OF assms(2), of l] assms(3) by (simp add: word_unat_eq_iff)

lemma walk_fn_cong:
  assumes "va < MAXVA" and "va' < MAXVA" and "vpn va = vpn va'"
  shows "walk_fn m pt va = walk_fn m pt va'" and "pte_of m pt va = pte_of m pt va'"
  unfolding walk_fn_def pte_addr_def pte_of_def PX_cong [OF assms] by (rule refl)+

lemma walk_fn_inj:
  assumes wf: "pt_wf m pt lab" and va: "va < MAXVA" "va' < MAXVA"
    and a: "walk_fn m pt va = Some a" "walk_fn m pt va' = Some a"
  shows "vpn va = vpn va'"
proof -
  obtain p where p: "lab p = Some [unat (PX 2 va), unat (PX 1 va)]" "a = pslot p (unat (PX 0 va))"
    using walk_fn_lab [OF wf a(1)] by blast
  obtain q where q: "lab q = Some [unat (PX 2 va'), unat (PX 1 va')]" "a = pslot q (unat (PX 0 va'))"
    using walk_fn_lab [OF wf a(2)] by blast
  have al: "unat p mod 4096 = 0" "unat q mod 4096 = 0" using pt_wf_aligned [OF wf] p(1) q(1) by blast+
  have off: "unat (a - p) = 8 * unat (PX 0 va)" "unat (a - q) = 8 * unat (PX 0 va')"
    using pslot_off px_less p(2) q(2) by metis+
  then have "unat (a - p) < 4096" "unat (a - q) < 4096" using px_less [of 0 va] px_less [of 0 va'] by simp_all
  then have pq: "p = q" using page_disjoint [OF al, of a] by blast
  then have "unat (PX 0 va) = unat (PX 0 va')" using off by simp
  then have "PX 0 va = PX 0 va'" by (simp add: word_unat_eq_iff)
  moreover have "unat (PX 2 va) = unat (PX 2 va')" "unat (PX 1 va) = unat (PX 1 va')" using p(1) q(1) pq by simp_all
  then have "PX 2 va = PX 2 va'" "PX 1 va = PX 1 va'" by (simp_all add: word_unat_eq_iff)
  ultimately show ?thesis using vpn_eq [OF va] by simp
qed

lemma pt_leaf_write:
  assumes wf: "pt_wf m pt lab" and va: "va < MAXVA" and a: "walk_fn m pt va = Some a"
  shows "pt_wf (store64 m a v) pt lab" and "walk_fn (store64 m a v) pt va' = walk_fn m pt va'"
    and "va' < MAXVA \<Longrightarrow> pte_of (store64 m a v) pt va' = (if vpn va' = vpn va then v else pte_of m pt va')"
    and "\<exists>p \<in> dom lab. same_outside p m (store64 m a v)"
    and "\<And>p path i. lab p = Some path \<Longrightarrow> length path < 2 \<Longrightarrow> i < 512 \<Longrightarrow> child (store64 m a v) p i = child m p i"
proof -
  let ?m = "store64 m a v"
  obtain p0 where p0: "lab p0 = Some [unat (PX 2 va), unat (PX 1 va)]" "a = pslot p0 (unat (PX 0 va))"
    using walk_fn_lab [OF wf a] by blast
  have al: "unat p0 mod 4096 = 0" using pt_wf_aligned [OF wf p0(1)] by simp
  have so: "same_outside p0 m ?m" unfolding p0(2) by (rule same_outside_slot [OF px_less])
  then show "\<exists>p \<in> dom lab. same_outside p m ?m" using p0(1) by blast
  have ch: "child ?m p i = child m p i" if "lab p = Some path" "length path < 2" "i < 512" for p path i
  proof -
    have "p \<noteq> p0" using that p0(1) by auto
    then have "load64 ?m (pslot p i) = load64 m (pslot p i)"
      using pt_wf_aligned [OF wf that(1)] by (intro load_other_page [OF so _ al _ that(3)]) simp_all
    then show ?thesis by (simp add: child_def)
  qed
  then show "\<And>p path i. lab p = Some path \<Longrightarrow> length path < 2 \<Longrightarrow> i < 512 \<Longrightarrow> child ?m p i = child m p i" .
  have r: "lab pt = Some []" using wf by (simp add: pt_wf_def)
  show "pt_wf ?m pt lab"
    unfolding pt_wf_def
  proof (intro conjI allI impI)
    fix p path i c
    assume "lab p = Some path" "length path < 2" "i < 512" "child ?m p i = Some c"
    then show "lab c = Some (path @ [i])" using pt_wf_child [OF wf] ch by metis
  qed (use wf in \<open>auto simp: pt_wf_def\<close>)
  have w: "walk_fn ?m pt x = walk_fn m pt x" for x
  proof -
    have c2: "child ?m pt (unat (PX 2 x)) = child m pt (unat (PX 2 x))" by (rule ch [OF r _ px_less]) simp
    have c1: "child ?m c (unat (PX 1 x)) = child m c (unat (PX 1 x))" if "child m pt (unat (PX 2 x)) = Some c" for c
      by (rule ch [OF pt_wf_child [OF wf r _ px_less that] _ px_less]) simp_all
    show ?thesis using c2 c1 by (simp add: walk_fn_def split: option.split)
  qed
  then show "walk_fn ?m pt va' = walk_fn m pt va'" .
  assume va': "va' < MAXVA"
  show "pte_of ?m pt va' = (if vpn va' = vpn va then v else pte_of m pt va')"
  proof (cases "vpn va' = vpn va")
    case True
    then show ?thesis using walk_fn_cong(1) [OF va' va True] w a by (simp add: pte_of_def)
  next
    case False
    show ?thesis
    proof (cases "walk_fn m pt va'")
      case None
      then show ?thesis using False w by (simp add: pte_of_def)
    next
      case (Some b)
      obtain q where q: "lab q = Some [unat (PX 2 va'), unat (PX 1 va')]" "b = pslot q (unat (PX 0 va'))"
        using walk_fn_lab [OF wf Some] by blast
      have "load64 ?m b = load64 m b"
      proof (cases "q = p0")
        case True
        have "unat (PX 0 va') \<noteq> unat (PX 0 va)"
          using False walk_fn_inj [OF wf va' va] Some a q(2) p0(2) True by auto
        then show ?thesis unfolding q(2) p0(2) True by (intro load_other_slot px_less) simp
      next
        case False
        then show ?thesis unfolding q(2)
          using pt_wf_aligned [OF wf q(1)] by (intro load_other_page [OF so _ al _ px_less]) simp_all
      qed
      then show ?thesis using False w Some by (simp add: pte_of_def)
    qed
  qed
qed

section \<open>Mapping and unmapping\<close>

definition vm_ext :: "u64 \<Rightarrow> 'a kmem_scheme \<Rightarrow> (u64 \<rightharpoonup> nat list) \<Rightarrow> u64 list \<Rightarrow> 'a kmem_scheme \<Rightarrow> (u64 \<rightharpoonup> nat list) \<Rightarrow> u64 list \<Rightarrow> bool" where
  "vm_ext pt s lab ps s' lab' ps' \<longleftrightarrow> vm_inv s' pt lab' ps' \<and> lab \<subseteq>\<^sub>m lab' \<and> dom lab' \<union> set ps' = dom lab \<union> set ps \<and>
     mem_frame (dom lab \<union> set ps) (mem s) (mem s') \<and> (\<exists>m f. s' = s\<lparr>mem := m, freelist := f\<rparr>)"

lemma vm_grow_ext: "vm_grow pt s lab ps s' lab' ps' \<Longrightarrow> vm_ext pt s lab ps s' lab' ps'"
  unfolding vm_grow_def vm_ext_def by blast

lemma vm_extD:
  assumes "vm_ext pt s lab ps s' lab' ps'"
  shows "vm_inv s' pt lab' ps'" and "lab \<subseteq>\<^sub>m lab'" and "dom lab' \<union> set ps' = dom lab \<union> set ps"
    and "mem_frame (dom lab \<union> set ps) (mem s) (mem s')" and "\<exists>m f. s' = s\<lparr>mem := m, freelist := f\<rparr>"
  using assms unfolding vm_ext_def by blast+

lemma vm_ext_trans:
  assumes "vm_ext pt s lab ps s' lab' ps'" and "vm_ext pt s' lab' ps' s'' lab'' ps''"
  shows "vm_ext pt s lab ps s'' lab'' ps''"
proof -
  note a = vm_extD [OF assms(1)] and b = vm_extD [OF assms(2)]
  obtain m f where s': "s' = s\<lparr>mem := m, freelist := f\<rparr>" using a(5) by blast
  obtain m' f' where "s'' = s'\<lparr>mem := m', freelist := f'\<rparr>" using b(5) by blast
  then have s'': "s'' = s\<lparr>mem := m', freelist := f'\<rparr>" by (simp add: s')
  have fr: "mem_frame (dom lab \<union> set ps) (mem s) (mem s'')"
    by (rule mem_frame_trans [OF a(4)]) (use b(4) a(3) in simp)
  have "lab \<subseteq>\<^sub>m lab''" by (rule map_le_trans [OF a(2) b(2)])
  moreover have "dom lab'' \<union> set ps'' = dom lab \<union> set ps" using a(3) b(3) by simp
  ultimately show ?thesis using b(1) fr s'' unfolding vm_ext_def by blast
qed

lemma vm_write:
  assumes "vm_inv s pt lab ps" and "va < MAXVA" and "walk_fn (mem s) pt va = Some a"
  shows "vm_ext pt s lab ps (s\<lparr>mem := store64 (mem s) a v\<rparr>) lab ps"
proof -
  let ?m = "store64 (mem s) a v"
  have wf: "pt_wf (mem s) pt lab" and km: "kmem_inv s ps" and dis: "dom lab \<inter> set ps = {}"
    using assms(1) by (auto simp: vm_inv_def)
  note lw = pt_leaf_write [OF wf assms(2,3), of v]
  obtain p where p: "p \<in> dom lab" "same_outside p (mem s) ?m" using lw(4) by blast
  have al: "unat p mod 4096 = 0" using p(1) pt_wf_aligned [OF wf] by blast
  have "p \<notin> set ps" using p(1) dis by blast
  then have "kmem_inv (s\<lparr>mem := ?m\<rparr>) ps" by (rule kmem_inv_write [OF km p(2) al])
  then have "vm_inv (s\<lparr>mem := ?m\<rparr>) pt lab ps" using assms(1) lw(1) by (simp add: vm_inv_def)
  moreover have "mem_frame (dom lab \<union> set ps) (mem s) ?m" by (rule mem_frame_page [OF p(2)]) (use p(1) in blast)
  moreover have "s\<lparr>mem := ?m\<rparr> = s\<lparr>mem := ?m, freelist := freelist s\<rparr>" by simp
  then have "\<exists>m f. s\<lparr>mem := ?m\<rparr> = s\<lparr>mem := m, freelist := f\<rparr>" by (intro exI)
  ultimately show ?thesis unfolding vm_ext_def by simp
qed

text \<open>The table \<open>A\<close> with \<open>j\<close> pages from \<open>a\<close> mapped to those from \<open>pa\<close>.\<close>

definition map_pages :: "(u64 \<Rightarrow> u64) \<Rightarrow> u64 \<Rightarrow> u64 \<Rightarrow> u64 \<Rightarrow> nat \<Rightarrow> u64 \<Rightarrow> u64" where
  "map_pages A a pa perm j va = (if vpn a \<le> vpn va \<and> vpn va < vpn a + j
     then PA2PTE (pa + of_nat (4096 * (vpn va - vpn a))) OR perm OR PTE_V else A va)"

lemma vpn_next: "unat a + 4096 < 2 ^ 64 \<Longrightarrow> vpn (a + 4096) = vpn a + 1"
  by (simp add: vpn_def unat_next_page)

lemma map_pages_Suc:
  assumes "unat a + 4096 < 2 ^ 64" and "\<And>x. x < MAXVA \<Longrightarrow> B x = (if vpn x = vpn a then PA2PTE pa OR perm OR PTE_V else A x)" and "va < MAXVA"
  shows "map_pages B (a + 4096) (pa + 4096) perm j va = map_pages A a pa perm (Suc j) va"
proof (cases "vpn a < vpn va")
  case True
  then have "vpn va - vpn a = Suc (vpn va - Suc (vpn a))" by simp
  then have "pa + 4096 + of_nat (4096 * (vpn va - Suc (vpn a))) = pa + of_nat (4096 * (vpn va - vpn a))"
    by (simp add: algebra_simps)
  then show ?thesis using True assms by (auto simp: map_pages_def vpn_next)
next
  case False
  then show ?thesis using assms by (auto simp: map_pages_def vpn_next)
qed

lemma mappages_one:
  assumes inv: "vm_inv s pt lab ps" and va: "va < MAXVA" and free: "pte_of (mem s) pt va AND PTE_V = 0"
  shows "(\<exists>s' lab'. walk pt va True s = Ok 0 s' \<and> vm_grow pt s lab ps s' lab' []) \<or>
    (\<exists>r t s' lab' ps'. walk pt va True s = Ok r t \<and> r \<noteq> 0 \<and> load64 (mem t) r AND PTE_V = 0 \<and>
       s' = t\<lparr>mem := store64 (mem t) r e\<rparr> \<and> vm_ext pt s lab ps s' lab' ps' \<and>
       (\<forall>x<MAXVA. pte_of (mem s') pt x = (if vpn x = vpn va then e else pte_of (mem s) pt x)))"
proof -
  obtain r t lab' ps' where w: "walk pt va True s = Ok r t" "vm_grow pt s lab ps t lab' ps'"
      "if r = 0 then ps' = [] else walk_fn (mem t) pt va = Some r"
    using walk_alloc [OF inv va] by blast
  show ?thesis
  proof (cases "r = 0")
    case True
    then show ?thesis using w by auto
  next
    case False
    then have wf: "walk_fn (mem t) pt va = Some r" using w(3) by simp
    have g: "vm_inv t pt lab' ps'" "pt_wf (mem t) pt lab'" using vm_growD(1) [OF w(2)] by (simp_all add: vm_inv_def)
    define s' where "s' = t\<lparr>mem := store64 (mem t) r e\<rparr>"
    have "load64 (mem t) r = pte_of (mem t) pt va" by (simp add: pte_of_def wf)
    then have ld: "load64 (mem t) r AND PTE_V = 0" using free vm_growD(4) [OF w(2)] by simp
    have e: "vm_ext pt s lab ps s' lab' ps'"
      unfolding s'_def by (rule vm_ext_trans [OF vm_grow_ext [OF w(2)] vm_write [OF g(1) va wf]])
    have "pte_of (mem s') pt x = (if vpn x = vpn va then e else pte_of (mem s) pt x)" if "x < MAXVA" for x
      using pt_leaf_write(3) [OF g(2) va wf that, of e] vm_growD(4) [OF w(2)] by (simp add: s'_def)
    then show ?thesis using w(1) False ld e s'_def by blast
  qed
qed

lemma mappages_loop_law:
  assumes "vm_inv s pt lab ps" and "unat a + 4096 * n < unat MAXVA"
    and "\<And>x. x < MAXVA \<Longrightarrow> vpn a \<le> vpn x \<Longrightarrow> vpn x \<le> vpn a + n \<Longrightarrow> pte_of (mem s) pt x AND PTE_V = 0" and "n < k"
  shows "\<exists>r s' lab' ps' j. mappages_loop k pt a (a + of_nat (4096 * n)) pa perm s = Ok r s' \<and> vm_ext pt s lab ps s' lab' ps'
    \<and> (\<forall>x<MAXVA. pte_of (mem s') pt x = map_pages (pte_of (mem s) pt) a pa perm j x)
    \<and> (r = 0 \<and> j = n + 1 \<or> r = - 1 \<and> j \<le> n \<and> ps' = [])"
  using assms
proof (induction n arbitrary: s lab ps a pa k)
  case 0
  have va: "a < MAXVA" using "0.prems"(2) by (simp add: word_less_nat_alt)
  have fr: "pte_of (mem s) pt a AND PTE_V = 0" using "0.prems"(3) [OF va] by simp
  obtain k' where k: "k = Suc k'" using "0.prems"(4) by (cases k) auto
  have m0: "map_pages A a pa perm 0 = A" and
    m1: "map_pages A a pa perm 1 x = (if vpn x = vpn a then PA2PTE pa OR perm OR PTE_V else A x)" for A x
    by (auto simp: map_pages_def fun_eq_iff)
  from mappages_one [OF "0.prems"(1) va fr, of "PA2PTE pa OR perm OR PTE_V"] show ?case
  proof (elim disjE exE conjE)
    fix s' lab'
    assume w: "walk pt a True s = Ok 0 s'" "vm_grow pt s lab ps s' lab' []"
    then have "mappages_loop k pt a (a + of_nat (4096 * 0)) pa perm s = Ok (- 1) s'" by (simp add: k run_kbind)
    moreover have "\<forall>x<MAXVA. pte_of (mem s') pt x = map_pages (pte_of (mem s) pt) a pa perm 0 x"
      using vm_growD(4) [OF w(2)] by (simp add: m0)
    ultimately show ?thesis using vm_grow_ext [OF w(2)] by blast
  next
    fix r t s' lab' ps'
    assume w: "walk pt a True s = Ok r t" "r \<noteq> 0" "load64 (mem t) r AND PTE_V = 0"
      "s' = t\<lparr>mem := store64 (mem t) r (PA2PTE pa OR perm OR PTE_V)\<rparr>" "vm_ext pt s lab ps s' lab' ps'"
      "\<forall>x<MAXVA. pte_of (mem s') pt x = (if vpn x = vpn a then PA2PTE pa OR perm OR PTE_V else pte_of (mem s) pt x)"
    have "mappages_loop k pt a (a + of_nat (4096 * 0)) pa perm s = Ok 0 s'"
      using w(1-4) by (simp add: k run_kbind run_kthen read_pte_def write_pte_def)
    moreover have "\<forall>x<MAXVA. pte_of (mem s') pt x = map_pages (pte_of (mem s) pt) a pa perm (0 + 1) x"
      using w(6) by (simp only: m1 add_0)
    ultimately show ?thesis using w(5) by blast
  qed
next
  case (Suc n)
  have va: "a < MAXVA" using Suc.prems(2) by (simp add: word_less_nat_alt)
  have fr: "pte_of (mem s) pt a AND PTE_V = 0" using Suc.prems(3) [OF va] by simp
  obtain k' where k: "k = Suc k'" "n < k'" using Suc.prems(4) by (cases k) auto
  have m0: "map_pages A a pa perm 0 = A" for A by (auto simp: map_pages_def fun_eq_iff)
  have up: "unat a + 4096 < 2 ^ 64" using Suc.prems(2) by (simp add: MAXVA_value)
  have lst: "a + of_nat (4096 * Suc n) = a + 4096 + of_nat (4096 * n)" by (simp add: algebra_simps)
  have ne: "a \<noteq> a + 4096 + of_nat (4096 * n)"
  proof
    assume "a = a + 4096 + of_nat (4096 * n)"
    then have "(of_nat (4096 * Suc n) :: u64) = 0" by (simp add: algebra_simps)
    moreover have "4096 * Suc n < 2 ^ 64" using Suc.prems(2) by (simp add: MAXVA_value)
    then have "unat (of_nat (4096 * Suc n) :: u64) = 4096 * Suc n" by (simp only: unsigned_of_nat) (simp add: take_bit_nat_eq_self)
    ultimately show False by simp
  qed
  from mappages_one [OF Suc.prems(1) va fr, of "PA2PTE pa OR perm OR PTE_V"] show ?case
  proof (elim disjE exE conjE)
    fix s' lab'
    assume w: "walk pt a True s = Ok 0 s'" "vm_grow pt s lab ps s' lab' []"
    then have "mappages_loop k pt a (a + of_nat (4096 * Suc n)) pa perm s = Ok (- 1) s'" by (simp add: k run_kbind)
    moreover have "\<forall>x<MAXVA. pte_of (mem s') pt x = map_pages (pte_of (mem s) pt) a pa perm 0 x"
      using vm_growD(4) [OF w(2)] by (simp add: m0)
    ultimately show ?thesis using vm_grow_ext [OF w(2)] by blast
  next
    fix r t s' lab' ps'
    assume w: "walk pt a True s = Ok r t" "r \<noteq> 0" "load64 (mem t) r AND PTE_V = 0"
      "s' = t\<lparr>mem := store64 (mem t) r (PA2PTE pa OR perm OR PTE_V)\<rparr>" "vm_ext pt s lab ps s' lab' ps'"
      "\<forall>x<MAXVA. pte_of (mem s') pt x = (if vpn x = vpn a then PA2PTE pa OR perm OR PTE_V else pte_of (mem s) pt x)"
    have run: "mappages_loop k pt a (a + of_nat (4096 * Suc n)) pa perm s =
        mappages_loop k' pt (a + 4096) (a + 4096 + of_nat (4096 * n)) (pa + 4096) perm s'"
      unfolding lst using w(1-4) ne by (simp add: k run_kbind run_kthen read_pte_def write_pte_def)
    have "\<exists>r s2 lab' ps2 j. mappages_loop k' pt (a + 4096) (a + 4096 + of_nat (4096 * n)) (pa + 4096) perm s' = Ok r s2
      \<and> vm_ext pt s' lab'' ps' s2 lab' ps2
      \<and> (\<forall>x<MAXVA. pte_of (mem s2) pt x = map_pages (pte_of (mem s') pt) (a + 4096) (pa + 4096) perm j x)
      \<and> (r = 0 \<and> j = n + 1 \<or> r = - 1 \<and> j \<le> n \<and> ps2 = [])" if "lab'' = lab'" for lab''
      unfolding that
    proof (rule Suc.IH [OF vm_extD(1) [OF w(5)] _ _ k(2)])
      show "unat (a + 4096) + 4096 * n < unat MAXVA" using Suc.prems(2) unat_next_page [OF up] by simp
      fix x
      assume x: "x < MAXVA" "vpn (a + 4096) \<le> vpn x" "vpn x \<le> vpn (a + 4096) + n"
      then show "pte_of (mem s') pt x AND PTE_V = 0" using w(6) Suc.prems(3) [OF x(1)] by (simp add: vpn_next [OF up])
    qed
    then obtain r2 s2 lab2 ps2 j where i: "mappages_loop k' pt (a + 4096) (a + 4096 + of_nat (4096 * n)) (pa + 4096) perm s' = Ok r2 s2"
      "vm_ext pt s' lab' ps' s2 lab2 ps2" "\<forall>x<MAXVA. pte_of (mem s2) pt x = map_pages (pte_of (mem s') pt) (a + 4096) (pa + 4096) perm j x"
      "r2 = 0 \<and> j = n + 1 \<or> r2 = - 1 \<and> j \<le> n \<and> ps2 = []" by blast
    have mp: "\<forall>x<MAXVA. pte_of (mem s2) pt x = map_pages (pte_of (mem s) pt) a pa perm (Suc j) x"
      using i(3) map_pages_Suc [OF up, of "pte_of (mem s') pt" pa perm "pte_of (mem s) pt"] w(6) by simp
    have "r2 = 0 \<and> Suc j = Suc n + 1 \<or> r2 = - 1 \<and> Suc j \<le> Suc n \<and> ps2 = []" using i(4) by auto
    then show ?thesis using run i(1) mp vm_ext_trans [OF w(5) i(2)] by metis
  qed
qed

section \<open>mappages\<close>

lemma round_range:
  assumes "0 < sz" and "unat va + unat sz \<le> unat MAXVA"
  defines "n \<equiv> vpn (va + sz - 1) - vpn va"
  shows "PGROUNDDOWN (va + sz - 1) = PGROUNDDOWN va + of_nat (4096 * n)" and "unat (PGROUNDDOWN va) + 4096 * n < unat MAXVA"
    and "vpn (PGROUNDDOWN va) = vpn va" and "vpn (va + sz - 1) = vpn va + n" and "unat (of_nat (4096 * n) :: u64) = 4096 * n"
proof -
  have s1: "unat (sz - 1) = unat sz - 1" using assms(1) by (simp add: unat_minus_one)
  have sp: "0 < unat sz" using assms(1) by (simp add: word_less_nat_alt)
  have lim: "unat va + unat sz \<le> 0x4000000000" using assms(2) by (simp add: MAXVA_value)
  have "unat (va + (sz - 1)) = (unat va + unat (sz - 1)) mod 2 ^ 64" by (simp add: unat_word_ariths(1))
  also have "\<dots> = unat va + unat sz - 1" using s1 sp lim by simp
  finally have l: "unat (va + sz - 1) = unat va + unat sz - 1" by (simp add: algebra_simps)
  have le: "vpn va \<le> vpn (va + sz - 1)" using sp by (simp add: vpn_def l div_le_mono)
  show v: "vpn (va + sz - 1) = vpn va + n" using le by (simp add: n_def)
  show "vpn (PGROUNDDOWN va) = vpn va" by (simp add: vpn_def unat_PGROUNDDOWN)
  have e: "unat (PGROUNDDOWN va) + 4096 * n = unat (PGROUNDDOWN (va + sz - 1))"
    using v by (simp add: unat_PGROUNDDOWN vpn_def)
  also have "\<dots> \<le> unat va + unat sz - 1" by (simp add: unat_PGROUNDDOWN l)
  also have "\<dots> < unat MAXVA" using lim sp by (simp add: MAXVA_value)
  finally show lt: "unat (PGROUNDDOWN va) + 4096 * n < unat MAXVA" .
  then have "4096 * n < 2 ^ 64" by (simp add: MAXVA_value)
  then show n: "unat (of_nat (4096 * n) :: u64) = 4096 * n" by (simp only: unsigned_of_nat) (simp add: take_bit_nat_eq_self)
  have "unat (PGROUNDDOWN va + of_nat (4096 * n)) = (unat (PGROUNDDOWN va) + 4096 * n) mod 2 ^ 64"
    using n by (simp add: unat_word_ariths(1))
  also have "\<dots> = unat (PGROUNDDOWN va) + 4096 * n" using lt by (simp add: MAXVA_value)
  finally show "PGROUNDDOWN (va + sz - 1) = PGROUNDDOWN va + of_nat (4096 * n)" using e by (simp add: word_unat_eq_iff)
qed

text \<open>
  C15. \<^verbatim>\<open>mappages\<close> on a range of unmapped pages below \<^const>\<open>MAXVA\<close> neither panics nor runs on.
  It returns 0 with exactly the pages of the range mapped, in order, to the physical pages from
  \<^verbatim>\<open>pa\<close>, with the permissions and the valid bit; or it returns -1 because no free page is left,
  with a prefix of the range mapped.  The table stays a tree, and only the pages of the table and
  of the free list have changed.
\<close>

theorem mappages_maps:
  assumes "vm_inv s pt lab ps" and "0 < sz" and "unat va + unat sz \<le> unat MAXVA"
    and "\<forall>x<MAXVA. vpn va \<le> vpn x \<and> vpn x \<le> vpn (va + sz - 1) \<longrightarrow> pte_of (mem s) pt x AND PTE_V = 0"
  shows "\<exists>r s' lab' ps'. mappages pt va sz pa perm s = Ok r s' \<and> vm_ext pt s lab ps s' lab' ps' \<and>
    (r = 0 \<and> (\<forall>x<MAXVA. pte_of (mem s') pt x =
        (if vpn va \<le> vpn x \<and> vpn x \<le> vpn (va + sz - 1)
         then PA2PTE (pa + of_nat (4096 * (vpn x - vpn va))) OR perm OR PTE_V else pte_of (mem s) pt x))
     \<or> r = - 1 \<and> ps' = [] \<and> (\<exists>j. vpn va + j \<le> vpn (va + sz - 1) \<and> (\<forall>x<MAXVA. pte_of (mem s') pt x =
        (if vpn va \<le> vpn x \<and> vpn x < vpn va + j
         then PA2PTE (pa + of_nat (4096 * (vpn x - vpn va))) OR perm OR PTE_V else pte_of (mem s) pt x))))"
proof -
  define n where "n = vpn (va + sz - 1) - vpn va"
  note r = round_range [OF assms(2,3), folded n_def]
  have fuel: "unat (PGROUNDDOWN (va + sz - 1) - PGROUNDDOWN va) div 4096 + 1 = n + 1"
    unfolding r(1) using r(5) by (simp add: algebra_simps)
  have nz: "(sz = 0) = False" using assms(2) by auto
  have run: "mappages pt va sz pa perm = mappages_loop (n + 1) pt (PGROUNDDOWN va) (PGROUNDDOWN va + of_nat (4096 * n)) pa perm"
    unfolding mappages_def Let_def fuel by (simp only: nz if_False r(1))
  have "\<exists>r s' lab' ps' j. mappages_loop (n + 1) pt (PGROUNDDOWN va) (PGROUNDDOWN va + of_nat (4096 * n)) pa perm s = Ok r s'
    \<and> vm_ext pt s lab ps s' lab' ps'
    \<and> (\<forall>x<MAXVA. pte_of (mem s') pt x = map_pages (pte_of (mem s) pt) (PGROUNDDOWN va) pa perm j x)
    \<and> (r = 0 \<and> j = n + 1 \<or> r = - 1 \<and> j \<le> n \<and> ps' = [])"
    by (rule mappages_loop_law [OF assms(1) r(2)]) (use assms(4) r(3,4) in auto)
  then obtain q s' lab' ps' j where l: "mappages pt va sz pa perm s = Ok q s'" "vm_ext pt s lab ps s' lab' ps'"
      "\<forall>x<MAXVA. pte_of (mem s') pt x = map_pages (pte_of (mem s) pt) (PGROUNDDOWN va) pa perm j x"
      "q = 0 \<and> j = n + 1 \<or> q = - 1 \<and> j \<le> n \<and> ps' = []"
    unfolding run by blast
  show ?thesis
    by (intro exI [of _ q] exI [of _ s'] exI [of _ lab'] exI [of _ ps'] conjI, rule l(1), rule l(2))
      (use l(3,4) in \<open>auto simp: map_pages_def r(3,4) less_Suc_eq_le\<close>)
qed

definition demo_vm :: kmem where
  "demo_vm = demo_mem\<lparr>mem := store64 (\<lambda>_. 0) 0x87FFE000 0x87FFD000, freelist := 0x87FFE000,
     ld := \<lparr>ld_end = 0x80021234, ld_etext = 0x80008000, ld_trampoline = 0x80007000\<rparr>\<rparr>"

lemma load_zero_mem: "load64 (\<lambda>_. 0) a = 0"
  by (rule bit_word_eqI) (simp add: load64_def bit_word_of_bytes bytes_at_def nth_map)

lemma demo_vm_load:
  assumes "unat p mod 4096 = 0" and "p \<noteq> 0x87FFE000" and "j < 512"
  shows "load64 (mem demo_vm) (pslot p j) = 0"
proof -
  have "load64 (mem demo_vm) (pslot p j) = load64 (\<lambda>_. 0) (pslot p j)"
    by (rule load_other_page [of "0x87FFE000"]) (use assms same_outside_store in \<open>auto simp: demo_vm_def\<close>)
  then show ?thesis by (simp add: load_zero_mem)
qed

lemma demo_vm_inv: "vm_inv demo_vm 0x87FFF000 [0x87FFF000 \<mapsto> []] [0x87FFE000, 0x87FFD000]"
proof -
  have "load64 (mem demo_vm) (pslot 0x87FFD000 0) = 0" by (rule demo_vm_load) simp_all
  moreover have "load64 (mem demo_vm) 0x87FFE000 = 0x87FFD000" by (simp add: demo_vm_def)
  ultimately have "kmem_inv demo_vm [0x87FFE000, 0x87FFD000]"
    by (simp add: kmem_inv_def page_ok_def PHYSTOP_value pslot_def) (simp add: demo_vm_def)
  moreover have "child (mem demo_vm) 0x87FFF000 i = None" if "i < 512" for i
    using demo_vm_load [of "0x87FFF000" i] that by (simp add: child_def)
  then have "pt_wf (mem demo_vm) 0x87FFF000 [0x87FFF000 \<mapsto> []]" by (auto simp: pt_wf_def split: if_splits)
  ultimately show ?thesis by (simp add: vm_inv_def demo_vm_def demo_mem_def)
qed

lemma demo_vm_unmapped: "pte_of (mem demo_vm) 0x87FFF000 x = 0"
  using demo_vm_load [of "0x87FFF000" "unat (PX 2 x)"] px_less [of 2 x]
  by (simp add: pte_of_def walk_fn_def child_def)

theorem mappages_maps_witness:
  "\<exists>r s' lab' ps'. mappages 0x87FFF000 0x1000 0x1800 0x87000000 PTE_R demo_vm = Ok r s'
    \<and> vm_ext 0x87FFF000 demo_vm [0x87FFF000 \<mapsto> []] [0x87FFE000, 0x87FFD000] s' lab' ps'"
  using mappages_maps [OF demo_vm_inv, of "0x1800" "0x1000" "0x87000000" PTE_R]
  by (auto simp: demo_vm_unmapped MAXVA_value)

end
