(* ===== verification/Vm_User.thy ===== *)
theory Vm_User
  imports Vm_Tables
begin

text \<open>
  User memory.  \<open>ubyte\<close> is the byte a user address denotes under a page table, absent where the
  page is not mapped for user mode.  The theorems say what \<^verbatim>\<open>copyout\<close>, \<^verbatim>\<open>copyin\<close>
  and \<^verbatim>\<open>copyinstr\<close> do in these terms.
\<close>

section \<open>The bytes a user address denotes\<close>

definition ubyte :: "mem \<Rightarrow> u64 \<Rightarrow> u64 \<Rightarrow> u8 option" where
  "ubyte m pt x = (let pa = user_pa m pt (PGROUNDDOWN x) in
     if pa = 0 then None else Some (m (pa + (x - PGROUNDDOWN x))))"

text \<open>No user page is a page of the table, and no two virtual pages share a user page.\<close>

definition user_inv :: "mem \<Rightarrow> u64 \<Rightarrow> (u64 \<rightharpoonup> nat list) \<Rightarrow> bool" where
  "user_inv m pt lab \<longleftrightarrow> pt_wf m pt lab \<and> (\<forall>x. user_pa m pt x \<notin> dom lab) \<and>
     (\<forall>x y. user_pa m pt x = user_pa m pt y \<longrightarrow> user_pa m pt x \<noteq> 0 \<longrightarrow> vpn x = vpn y)"

definition user_pages :: "mem \<Rightarrow> u64 \<Rightarrow> u64 set" where
  "user_pages m pt = {user_pa m pt x | x. user_pa m pt x \<noteq> 0}"

lemma user_pa_aligned: "unat (user_pa m pt x) mod 4096 = 0"
proof -
  have "4096 dvd unat (push_bit 12 w :: u64)" for w :: u64
    by (simp add: push_bit_eq_mult unat_word_ariths dvd_mod)
  then show ?thesis by (auto simp: user_pa_def PTE2PA_def Let_def)
qed

lemma user_pa_frame:
  assumes "user_inv m pt lab" and "same_outside q m m'" and "q \<in> user_pages m pt"
  shows "user_pa m' pt x = user_pa m pt x" and "user_inv m' pt lab" and "user_pages m' pt = user_pages m pt"
proof -
  have wf: "pt_wf m pt lab" using assms(1) by (simp add: user_inv_def)
  obtain y where y: "q = user_pa m pt y" using assms(3) by (auto simp: user_pages_def)
  have q: "unat q mod 4096 = 0" "q \<notin> dom lab" using user_pa_aligned [of m pt y] assms(1) y by (auto simp: user_inv_def)
  have f: "user_pa m' pt x = user_pa m pt x" for x
    using pt_page_frame(3) [OF wf assms(2) q] by (simp add: user_pa_def)
  show "user_pa m' pt x = user_pa m pt x" by (rule f)
  show "user_inv m' pt lab" using assms(1) pt_page_frame(1) [OF wf assms(2) q] unfolding user_inv_def f by blast
  show "user_pages m' pt = user_pages m pt" by (simp add: user_pages_def f)
qed

lemma round_below: "unat (x - PGROUNDDOWN x) = unat x mod 4096"
proof -
  have "unat (x - PGROUNDDOWN x) = unat x - unat (PGROUNDDOWN x)"
    by (rule unat_sub) (simp add: word_le_nat_alt unat_PGROUNDDOWN)
  then show ?thesis by (simp add: unat_PGROUNDDOWN minus_div_mult_eq_mod)
qed

lemma round_eq_vpn: "PGROUNDDOWN x = PGROUNDDOWN y \<longleftrightarrow> vpn x = vpn y"
  by (simp add: word_unat_eq_iff unat_PGROUNDDOWN vpn_def)

lemma unat_diff_shift:
  fixes x a :: u64
  assumes "c \<le> unat (x - a)"
  shows "unat (x - (a + of_nat c)) = unat (x - a) - c"
proof -
  have c: "unat (of_nat c :: u64) = c" using assms unsigned_less [of "x - a", where ?'a = nat] by (simp add: unsigned_of_nat take_bit_nat_eq_self)
  have "unat (x - a - of_nat c) = unat (x - a) - unat (of_nat c :: u64)"
    by (rule unat_sub) (use assms c in \<open>simp add: word_le_nat_alt\<close>)
  then show ?thesis using c by (simp add: algebra_simps)
qed

lemma same_page_range:
  fixes x va :: u64
  assumes "unat (x - va) < k" and "unat va mod 4096 + k \<le> 4096"
  shows "vpn x = vpn va" and "x - PGROUNDDOWN va = (va - PGROUNDDOWN va) + (x - va)"
proof -
  have "unat va < 4503599627370496 * 4096" using unsigned_less [of va, where ?'a = nat] by simp
  then have q: "unat va div 4096 < 4503599627370496" by (rule less_mult_imp_div_less)
  have d: "unat va = 4096 * (unat va div 4096) + unat va mod 4096" by simp
  then have "unat va + k \<le> 4096 * (unat va div 4096) + 4096" using assms(2) by linarith
  also have "\<dots> \<le> 2 ^ 64" using q by simp
  finally have "unat va + k \<le> 2 ^ 64" .
  then have "unat (va + (x - va)) = unat va + unat (x - va)"
    using assms(1) by (simp only: unat_word_ariths(1)) simp
  then have "unat x = 4096 * (unat va div 4096) + (unat va mod 4096 + unat (x - va))" by simp
  then have "vpn x = unat va div 4096 + (unat va mod 4096 + unat (x - va)) div 4096" by (simp only: vpn_def)
  then show "vpn x = vpn va" using assms by (simp add: vpn_def)
  show "x - PGROUNDDOWN va = (va - PGROUNDDOWN va) + (x - va)" by simp
qed

lemma unat_add_small: "unat (a :: u64) + k < 2 ^ 64 \<Longrightarrow> unat (a + of_nat k) = unat a + k"
  by (simp add: unat_word_ariths unsigned_of_nat take_bit_nat_eq_self)

lemma write_user_page:
  assumes inv: "user_inv m pt lab" and pa: "pa = user_pa m pt (PGROUNDDOWN va)" "pa \<noteq> 0"
    and len: "unat va mod 4096 + length bs \<le> 4096"
  defines "m' \<equiv> write_bytes (pa + (va - PGROUNDDOWN va)) bs m"
  shows "same_outside pa m m'" and "ubyte m' pt x = (if unat (x - va) < length bs then Some (bs ! unat (x - va)) else ubyte m pt x)"
proof -
  have inpage: "unat (a - pa) < 4096" if "unat (a - (pa + (va - PGROUNDDOWN va))) < length bs" for a
  proof -
    have e: "a - pa = (va - PGROUNDDOWN va) + (a - (pa + (va - PGROUNDDOWN va)))" by simp
    have "unat (a - pa) = (unat (va - PGROUNDDOWN va) + unat (a - (pa + (va - PGROUNDDOWN va)))) mod 2 ^ 64"
      by (subst e) (simp only: unat_word_ariths(1), simp)
    also have "\<dots> \<le> unat (va - PGROUNDDOWN va) + unat (a - (pa + (va - PGROUNDDOWN va)))" by (rule mod_less_eq_dividend)
    finally show ?thesis using that len by (simp add: round_below)
  qed
  show so: "same_outside pa m m'" using inpage by (auto simp: same_outside_def m'_def write_bytes_def)
  have up: "pa \<in> user_pages m pt" using pa by (auto simp: user_pages_def)
  note f = user_pa_frame(1) [OF inv so up]
  show "ubyte m' pt x = (if unat (x - va) < length bs then Some (bs ! unat (x - va)) else ubyte m pt x)"
  proof (cases "vpn x = vpn va")
    case True
    then have r: "PGROUNDDOWN x = PGROUNDDOWN va" by (simp add: round_eq_vpn)
    then show ?thesis using pa by (simp add: ubyte_def f Let_def) (simp add: m'_def write_bytes_def)
  next
    case False
    then have lt: "\<not> unat (x - va) < length bs" using same_page_range(1) [OF _ len] by blast
    show ?thesis
    proof (cases "user_pa m pt (PGROUNDDOWN x) = 0")
      case True
      then show ?thesis using lt by (simp add: ubyte_def f)
    next
      case xm: False
      have "vpn (PGROUNDDOWN x) \<noteq> vpn (PGROUNDDOWN va)" using False by (simp add: vpn_def unat_PGROUNDDOWN)
      then have ne: "user_pa m pt (PGROUNDDOWN x) \<noteq> pa" using inv xm pa(1) unfolding user_inv_def by blast
      have "unat (user_pa m pt (PGROUNDDOWN x) + (x - PGROUNDDOWN x) - user_pa m pt (PGROUNDDOWN x)) < 4096" by (simp add: round_below)
      then have "\<not> unat (user_pa m pt (PGROUNDDOWN x) + (x - PGROUNDDOWN x) - pa) < 4096"
        by (rule page_disjoint [OF user_pa_aligned user_pa_aligned [of m pt "PGROUNDDOWN va", folded pa(1)] ne])
      then show ?thesis using so lt by (simp add: ubyte_def f Let_def same_outside_def)
    qed
  qed
qed

section \<open>copyout and copyin\<close>

lemma unat_page_part: "unat (page_part va len) = min (4096 - unat va mod 4096) (unat len)"
proof -
  have lt: "unat va mod 4096 < 4096" by simp
  have "unat ((4096 :: u64) - (va - PGROUNDDOWN va)) = unat (4096 :: u64) - unat (va - PGROUNDDOWN va)"
    by (rule unat_sub) (use lt in \<open>simp add: word_le_nat_alt round_below\<close>)
  then have "unat ((4096 :: u64) - (va - PGROUNDDOWN va)) = 4096 - unat va mod 4096" by (simp add: round_below)
  then show ?thesis by (auto simp: page_part_def Let_def word_less_nat_alt min_def)
qed

text \<open>After the write the bytes from \<open>va\<close> are \<open>bs\<close>, and no other user byte has changed.\<close>

definition copied :: "mem \<Rightarrow> u64 \<Rightarrow> u64 \<Rightarrow> u8 list \<Rightarrow> mem \<Rightarrow> bool" where
  "copied m pt va bs m' \<longleftrightarrow>
     (\<forall>x. ubyte m' pt x = (if unat (x - va) < length bs then Some (bs ! unat (x - va)) else ubyte m pt x))"

lemma copied_Nil [simp]: "copied m pt va [] m"
  by (simp add: copied_def)

lemma copied_append:
  assumes "copied m pt va as m1" and "copied m1 pt (va + of_nat (length as)) bs m2" and "length as + length bs < 2 ^ 64"
  shows "copied m pt va (as @ bs) m2"
  unfolding copied_def
proof
  fix x
  let ?d = "unat (x - va)" and ?e = "unat (x - (va + of_nat (length as)))"
  have la: "unat (of_nat (length as) :: u64) = length as" using assms(3) by (simp add: unsigned_of_nat take_bit_nat_eq_self)
  show "ubyte m2 pt x = (if ?d < length (as @ bs) then Some ((as @ bs) ! ?d) else ubyte m pt x)"
  proof (cases "?d < length as")
    case True
    then have "x - va < of_nat (length as)" by (simp add: word_less_nat_alt la)
    from unat_diff_less [OF this] have "?e = 2 ^ 64 + ?d - length as" by (simp add: la algebra_simps)
    then have "\<not> ?e < length bs" using assms(3) by linarith
    then show ?thesis using assms(1,2) True by (simp add: copied_def nth_append)
  next
    case False
    then have "?e = ?d - length as" by (intro unat_diff_shift) simp
    then show ?thesis using assms(1,2) False by (simp add: copied_def nth_append less_diff_conv2 add.commute)
  qed
qed

lemma next_page:
  "PGROUNDDOWN va + 4096 = va + of_nat (4096 - unat va mod 4096)"
proof -
  have "va - PGROUNDDOWN va = of_nat (unat va mod 4096)" by (simp add: round_below [symmetric])
  moreover have "(of_nat (4096 - unat va mod 4096) :: u64) = 4096 - of_nat (unat va mod 4096)"
    by (subst of_nat_diff) (simp_all add: less_imp_le)
  ultimately show ?thesis by (simp add: algebra_simps)
qed

lemma user_pa_below: "user_pa m pt x \<noteq> 0 \<Longrightarrow> x < MAXVA"
  by (auto simp: user_pa_def split: if_splits)

lemma mapped_below:
  assumes "user_pa m pt (PGROUNDDOWN va) \<noteq> 0"
  shows "unat va + 4096 < 2 ^ 64"
proof -
  have "unat va div 4096 * 4096 < 0x4000000000"
    using user_pa_below [OF assms] by (simp add: word_less_nat_alt unat_PGROUNDDOWN MAXVA_value)
  moreover have "unat va = unat va div 4096 * 4096 + unat va mod 4096" by simp
  moreover have "unat va mod 4096 < 4096" by simp
  ultimately have "unat va + 4096 < 0x4000002000" by linarith
  then show ?thesis by simp
qed

lemma copyout_loop_law:
  assumes "user_inv (mem s) pt lab" and "length src < k" and "length src < 2 ^ 64"
  shows "\<exists>r m n. copyout_loop k pt va src s = Ok r (s\<lparr>mem := m\<rparr>) \<and> user_inv m pt lab \<and>
    (\<forall>x. user_pa m pt x = user_pa (mem s) pt x) \<and> mem_frame (user_pages (mem s) pt) (mem s) m \<and>
    copied (mem s) pt va (take n src) m \<and>
    (r = 0 \<and> n = length src \<or> r = - 1 \<and> n < length src \<and> ubyte (mem s) pt (va + of_nat n) = None)"
  using assms
proof (induction k arbitrary: s va src)
  case 0
  then show ?case by simp
next
  case (Suc k)
  have wf: "pt_wf (mem s) pt lab" using Suc.prems(1) by (simp add: user_inv_def)
  let ?pa = "user_pa (mem s) pt (PGROUNDDOWN va)"
  consider (nil) "src = []" | (unmapped) "src \<noteq> []" "?pa = 0" | (mapped) "src \<noteq> []" "?pa \<noteq> 0" by blast
  then show ?case
  proof cases
    case nil
    then show ?thesis using Suc.prems(1) by (intro exI [of _ 0] exI [of _ "mem s"] exI [of _ "0 :: nat"]) simp
  next
    case unmapped
    then have "copyout_loop (Suc k) pt va src s = Ok (- 1) (s\<lparr>mem := mem s\<rparr>)"
      by (simp add: Let_def run_kbind walkaddr_run [OF wf])
    moreover have "ubyte (mem s) pt (va + of_nat 0) = None" using unmapped by (simp add: ubyte_def)
    ultimately show ?thesis using Suc.prems(1) unmapped(1)
      by (intro exI [of _ "- 1"] exI [of _ "mem s"] exI [of _ "0 :: nat"]) simp
  next
    case mapped
    define c where "c = unat (page_part va (of_nat (length src)))"
    have lsrc: "unat (of_nat (length src) :: u64) = length src"
      using Suc.prems(3) by (simp add: unsigned_of_nat take_bit_nat_eq_self)
    have c: "c = min (4096 - unat va mod 4096) (length src)" by (simp add: c_def unat_page_part lsrc)
    have mod: "unat va mod 4096 < 4096" by simp
    have cpos: "0 < c" "c \<le> length src" using c mapped(1) mod by (simp_all add: min_def)
    define m1 where "m1 = write_bytes (?pa + (va - PGROUNDDOWN va)) (take c src) (mem s)"
    have len: "unat va mod 4096 + length (take c src) \<le> 4096" using c by simp
    note wr = write_user_page [OF Suc.prems(1) refl mapped(2) len, folded m1_def]
    have up: "?pa \<in> user_pages (mem s) pt" using mapped(2) by (auto simp: user_pages_def)
    note fr = user_pa_frame [OF Suc.prems(1) wr(1) up]
    have cp1: "copied (mem s) pt va (take c src) m1" unfolding copied_def using wr(2) by blast
    have mf1: "mem_frame (user_pages (mem s) pt) (mem s) m1" by (rule mem_frame_page [OF wr(1) up])
    have run: "copyout_loop (Suc k) pt va src s = copyout_loop k pt (PGROUNDDOWN va + 4096) (drop c src) (s\<lparr>mem := m1\<rparr>)"
      using mapped by (simp add: Let_def run_kbind run_kthen walkaddr_run [OF wf] c_def [symmetric] m1_def)
    have "length (drop c src) < k" "length (drop c src) < 2 ^ 64" using Suc.prems(2,3) cpos by simp_all
    then obtain r m n where ih: "copyout_loop k pt (PGROUNDDOWN va + 4096) (drop c src) (s\<lparr>mem := m1\<rparr>) = Ok r (s\<lparr>mem := m\<rparr>)"
      "user_inv m pt lab" "\<forall>x. user_pa m pt x = user_pa m1 pt x" "mem_frame (user_pages m1 pt) m1 m"
      "copied m1 pt (PGROUNDDOWN va + 4096) (take n (drop c src)) m"
      "r = 0 \<and> n = length (drop c src) \<or> r = - 1 \<and> n < length (drop c src) \<and> ubyte m1 pt (PGROUNDDOWN va + 4096 + of_nat n) = None"
      using Suc.IH [of "s\<lparr>mem := m1\<rparr>" "drop c src" "PGROUNDDOWN va + 4096"] fr(2) by auto
    have nx: "PGROUNDDOWN va + 4096 = va + of_nat c" if "c < length src"
      using that c next_page [of va] by (simp add: min_def split: if_splits)
    have un: "ubyte m1 pt x = None \<longleftrightarrow> ubyte (mem s) pt x = None" for x by (simp add: ubyte_def fr(1) Let_def)
    have res: "r = 0 \<and> c + n = length src \<or> r = - 1 \<and> c + n < length src \<and> ubyte (mem s) pt (va + of_nat (c + n)) = None"
    proof -
      have "ubyte (mem s) pt (va + of_nat (c + n)) = None"
        if "n < length src - c" "ubyte m1 pt (PGROUNDDOWN va + 4096 + of_nat n) = None"
        using that(2) nx that(1) unfolding un by (simp add: add.assoc)
      then show ?thesis using ih(6) cpos by (elim disjE conjE) simp_all
    qed
    have "copied (mem s) pt va (take c src @ take n (drop c src)) m"
    proof (cases "c < length src")
      case True
      have "length (take c src) + length (take n (drop c src)) \<le> length src" using cpos by simp
      then have "length (take c src) + length (take n (drop c src)) < 2 ^ 64" using Suc.prems(3) by (rule le_less_trans)
      then show ?thesis using ih(5) True cpos by (intro copied_append [OF cp1]) (simp_all add: nx)
    next
      case False
      then show ?thesis using ih(5) cp1 by (simp add: copied_def)
    qed
    then have "copied (mem s) pt va (take (c + n) src) m" by (simp add: take_add)
    then show ?thesis unfolding run using ih(1-4) res mem_frame_trans [OF mf1] fr(1,3)
      by (intro exI [of _ r] exI [of _ m] exI [of _ "c + n"]) simp
  qed
qed

lemma ubyte_page:
  assumes "user_pa m pt (PGROUNDDOWN va) \<noteq> 0" and "i < 4096 - unat va mod 4096"
  shows "ubyte m pt (va + of_nat i) = Some (m (user_pa m pt (PGROUNDDOWN va) + (va - PGROUNDDOWN va) + of_nat i))"
proof -
  have i: "unat (of_nat i :: u64) = i" using assms(2) by (simp add: unsigned_of_nat take_bit_nat_eq_self)
  have d: "unat (va + of_nat i - va) < Suc i" "unat va mod 4096 + Suc i \<le> 4096" using assms(2) i by simp_all
  have r: "PGROUNDDOWN (va + of_nat i) = PGROUNDDOWN va" using same_page_range(1) [OF d] by (simp add: round_eq_vpn)
  show ?thesis unfolding ubyte_def Let_def r using assms(1) by (simp add: algebra_simps)
qed

lemma ubyte_unmapped: "user_pa m pt (PGROUNDDOWN va) = 0 \<Longrightarrow> ubyte m pt va = None"
  by (simp add: ubyte_def)

text \<open>The bytes from \<open>va\<close> on are \<open>bs\<close>.\<close>

definition ubytes :: "mem \<Rightarrow> u64 \<Rightarrow> u64 \<Rightarrow> u8 list \<Rightarrow> bool" where
  "ubytes m pt va bs \<longleftrightarrow> (\<forall>i<length bs. ubyte m pt (va + of_nat i) = Some (bs ! i))"

lemma ubytes_Nil [simp]: "ubytes m pt va []"
  by (simp add: ubytes_def)

lemma ubytes_append: "ubytes m pt va (as @ bs) \<longleftrightarrow> ubytes m pt va as \<and> ubytes m pt (va + of_nat (length as)) bs"
proof (intro iffI conjI)
  assume l: "ubytes m pt va (as @ bs)"
  show "ubytes m pt va as" unfolding ubytes_def
  proof (intro allI impI)
    fix i assume "i < length as"
    then show "ubyte m pt (va + of_nat i) = Some (as ! i)" using l [unfolded ubytes_def, rule_format, of i] by (simp add: nth_append)
  qed
  show "ubytes m pt (va + of_nat (length as)) bs" unfolding ubytes_def
  proof (intro allI impI)
    fix i assume "i < length bs"
    then show "ubyte m pt (va + of_nat (length as) + of_nat i) = Some (bs ! i)"
      using l [unfolded ubytes_def, rule_format, of "length as + i"] by (simp add: nth_append add.assoc)
  qed
next
  assume r: "ubytes m pt va as \<and> ubytes m pt (va + of_nat (length as)) bs"
  show "ubytes m pt va (as @ bs)" unfolding ubytes_def
  proof (intro allI impI)
    fix i assume i: "i < length (as @ bs)"
    show "ubyte m pt (va + of_nat i) = Some ((as @ bs) ! i)"
    proof (cases "i < length as")
      case True
      then show ?thesis using r by (simp add: ubytes_def nth_append)
    next
      case False
      then have "i - length as < length bs" using i by simp
      then have "ubyte m pt (va + of_nat (length as) + of_nat (i - length as)) = Some (bs ! (i - length as))"
        using r unfolding ubytes_def by blast
      moreover have "va + of_nat (length as) + of_nat (i - length as) = va + of_nat i"
        using False by (simp add: of_nat_diff)
      ultimately show ?thesis using False by (simp add: nth_append)
    qed
  qed
qed

lemma ubytes_page:
  assumes "user_pa m pt (PGROUNDDOWN va) \<noteq> 0" and "c \<le> 4096 - unat va mod 4096"
  shows "ubytes m pt va (bytes_at c (user_pa m pt (PGROUNDDOWN va) + (va - PGROUNDDOWN va)) m)"
  using ubyte_page [OF assms(1)] assms(2) by (simp add: ubytes_def bytes_at_def)

lemma copyin_loop_law:
  assumes "pt_wf (mem s) pt lab" and "unat len < k"
  shows "\<exists>r bs. copyin_loop k pt va len dst s = Ok (r, dst @ bs) s \<and> ubytes (mem s) pt va bs \<and>
    (r = 0 \<and> length bs = unat len \<or> r = - 1 \<and> length bs < unat len \<and> ubyte (mem s) pt (va + of_nat (length bs)) = None)"
  using assms(2)
proof (induction k arbitrary: va len dst)
  case 0
  then show ?case by simp
next
  case (Suc k)
  let ?pa = "user_pa (mem s) pt (PGROUNDDOWN va)"
  consider (nil) "len = 0" | (unmapped) "len \<noteq> 0" "?pa = 0" | (mapped) "len \<noteq> 0" "?pa \<noteq> 0" by blast
  then show ?case
  proof cases
    case nil
    then show ?thesis by (intro exI [of _ 0] exI [of _ "[]"]) simp
  next
    case unmapped
    then show ?thesis
      by (intro exI [of _ "- 1"] exI [of _ "[]"])
        (simp add: Let_def run_kbind walkaddr_run [OF assms(1)] ubyte_unmapped unat_gt_0)
  next
    case mapped
    define c where "c = page_part va len"
    have c: "unat c = min (4096 - unat va mod 4096) (unat len)" by (simp add: c_def unat_page_part)
    have mod: "unat va mod 4096 < 4096" by simp
    have cpos: "0 < unat c" "unat c \<le> unat len" "unat c \<le> 4096 - unat va mod 4096"
      using c mapped(1) mod by (simp_all add: min_def unat_gt_0)
    define b1 where "b1 = bytes_at (unat c) (?pa + (va - PGROUNDDOWN va)) (mem s)"
    have lb: "length b1 = unat c" by (simp add: b1_def bytes_at_def)
    have b1: "ubytes (mem s) pt va b1" unfolding b1_def by (rule ubytes_page [OF mapped(2) cpos(3)])
    have run: "copyin_loop (Suc k) pt va len dst s = copyin_loop k pt (PGROUNDDOWN va + 4096) (len - c) (dst @ b1) s"
      using mapped by (simp add: Let_def run_kbind walkaddr_run [OF assms(1)] c_def [symmetric] b1_def)
    have rest: "unat (len - c) = unat len - unat c" by (rule unat_sub) (simp add: word_le_nat_alt cpos)
    have "unat (len - c) < k" using Suc.prems cpos rest by simp
    from Suc.IH [OF this, of "PGROUNDDOWN va + 4096" "dst @ b1"] obtain r bs where
      ih: "copyin_loop k pt (PGROUNDDOWN va + 4096) (len - c) (dst @ b1) s = Ok (r, (dst @ b1) @ bs) s"
        "ubytes (mem s) pt (PGROUNDDOWN va + 4096) bs"
        "r = 0 \<and> length bs = unat (len - c) \<or> r = - 1 \<and> length bs < unat (len - c) \<and>
         ubyte (mem s) pt (PGROUNDDOWN va + 4096 + of_nat (length bs)) = None" by blast
    have nx: "PGROUNDDOWN va + 4096 = va + of_nat (unat c)" if "unat c < unat len"
      using that c next_page [of va] by (simp add: min_def split: if_splits)
    have "ubytes (mem s) pt va (b1 @ bs)"
      using b1 ih(2,3) cpos nx rest by (cases "unat c < unat len") (auto simp: ubytes_append lb)
    moreover have "ubyte (mem s) pt (va + of_nat (length (b1 @ bs))) = None"
      if "length bs < unat (len - c)" "ubyte (mem s) pt (PGROUNDDOWN va + 4096 + of_nat (length bs)) = None"
      using that(2) nx that(1) rest lb by (simp add: add.assoc)
    then have "r = 0 \<and> length (b1 @ bs) = unat len \<or> r = - 1 \<and> length (b1 @ bs) < unat len \<and>
        ubyte (mem s) pt (va + of_nat (length (b1 @ bs))) = None"
      using ih(3) cpos rest lb by (elim disjE conjE) simp_all
    ultimately show ?thesis unfolding run ih(1) by (intro exI [of _ r] exI [of _ "b1 @ bs"]) simp
  qed
qed

text \<open>
  C10. \<^verbatim>\<open>copyout\<close> always returns.  It stores the longest prefix of \<^verbatim>\<open>src\<close> that lies in
  pages mapped for user mode, and returns 0 exactly when that is all of it; every other user byte,
  the mapping itself and all memory outside the user pages are as before.
\<close>

theorem copyout_confined:
  assumes "user_inv (mem s) pt lab" and "length src < 2 ^ 64"
  shows "\<exists>r m n. copyout pt va src s = Ok r (s\<lparr>mem := m\<rparr>) \<and>
    (r = 0 \<and> n = length src \<or> r = - 1 \<and> n < length src \<and> ubyte (mem s) pt (va + of_nat n) = None) \<and>
    (\<forall>x. ubyte m pt x = (if unat (x - va) < n then Some (src ! unat (x - va)) else ubyte (mem s) pt x)) \<and>
    user_inv m pt lab \<and> (\<forall>x. user_pa m pt x = user_pa (mem s) pt x) \<and> mem_frame (user_pages (mem s) pt) (mem s) m"
proof -
  obtain r m n where c: "copyout_loop (length src + 1) pt va src s = Ok r (s\<lparr>mem := m\<rparr>)" "user_inv m pt lab"
    "\<forall>x. user_pa m pt x = user_pa (mem s) pt x" "mem_frame (user_pages (mem s) pt) (mem s) m"
    "copied (mem s) pt va (take n src) m"
    "r = 0 \<and> n = length src \<or> r = - 1 \<and> n < length src \<and> ubyte (mem s) pt (va + of_nat n) = None"
    using copyout_loop_law [OF assms(1) _ assms(2), of "length src + 1" va] by auto
  have "ubyte m pt x = (if unat (x - va) < n then Some (src ! unat (x - va)) else ubyte (mem s) pt x)" for x
    using c(5,6) by (auto simp: copied_def)
  then show ?thesis using c unfolding copyout_def by blast
qed

text \<open>
  C19. What \<^verbatim>\<open>copyout\<close> has written in full, \<^verbatim>\<open>copyin\<close> reads back.
\<close>

theorem copyout_copyin_roundtrip:
  assumes "user_inv (mem s) pt lab" and "length src < 2 ^ 64" and "copyout pt va src s = Ok 0 s'"
  shows "copyin pt va (of_nat (length src)) s' = Ok (0, src) s'"
proof -
  obtain r m n where c: "copyout_loop (length src + 1) pt va src s = Ok r (s\<lparr>mem := m\<rparr>)" "user_inv m pt lab"
    "copied (mem s) pt va (take n src) m"
    "r = 0 \<and> n = length src \<or> r = - 1 \<and> n < length src \<and> ubyte (mem s) pt (va + of_nat n) = None"
    using copyout_loop_law [OF assms(1) _ assms(2), of "length src + 1" va] by auto
  have s': "s' = s\<lparr>mem := m\<rparr>" and n: "n = length src" using assms(3) c(1,4) by (auto simp: copyout_def)
  have wf: "pt_wf (mem s') pt lab" using c(2) s' by (simp add: user_inv_def)
  have len: "unat (of_nat (length src) :: u64) = length src" using assms(2) by (simp add: unsigned_of_nat take_bit_nat_eq_self)
  have small: "unat (of_nat i :: u64) = i" if "i < length src" for i
    using that assms(2) by (simp add: unsigned_of_nat take_bit_nat_eq_self)
  have b: "ubyte (mem s') pt (va + of_nat i) = Some (src ! i)" if "i < length src" for i
    using c(3) that small [OF that] by (simp add: copied_def n s')
  obtain q bs where i: "copyin pt va (of_nat (length src)) s' = Ok (q, bs) s'" "ubytes (mem s') pt va bs"
      "q = 0 \<and> length bs = length src \<or> q = - 1 \<and> length bs < length src \<and> ubyte (mem s') pt (va + of_nat (length bs)) = None"
    using copyin_loop_law [OF wf, of "of_nat (length src)" "length src + 1" va "[]"] len by (auto simp: copyin_def)
  have q: "q = 0" "length bs = length src" using i(3) b by auto
  moreover have "bs = src" using i(2) q b by (intro nth_equalityI) (auto simp: ubytes_def)
  ultimately show ?thesis using i(1) by simp
qed

section \<open>An address space with one user page\<close>

lemma load_slot:
  assumes "unat p mod 4096 = 0" and "unat q mod 4096 = 0" and "i < 512" and "j < 512"
  shows "load64 (store64 m (pslot p i) v) (pslot q j) = (if p = q \<and> i = j then v else load64 m (pslot q j))"
proof (cases "p = q")
  case True
  then show ?thesis using load_other_slot [OF assms(3,4), of m p v] by auto
next
  case False
  then show ?thesis using load_other_page [OF same_outside_slot [OF assms(3)] assms(2,1) _ assms(4)] by simp
qed

definition demo_um :: mem where
  "demo_um = store64 (store64 (store64 (\<lambda>_. 0)
     (pslot 0x87FFF000 0) (PA2PTE 0x87FFE000 OR PTE_V))
     (pslot 0x87FFE000 0) (PA2PTE 0x87FFD000 OR PTE_V))
     (pslot 0x87FFD000 1) (PA2PTE 0x87000000 OR PTE_R OR PTE_W OR PTE_U OR PTE_V)"

definition demo_lab :: "u64 \<rightharpoonup> nat list" where
  "demo_lab = [0x87FFF000 \<mapsto> [], 0x87FFE000 \<mapsto> [0], 0x87FFD000 \<mapsto> [0, 0]]"

lemma demo_um_load:
  assumes "unat p mod 4096 = 0" and "j < 512"
  shows "load64 demo_um (pslot p j) =
    (if p = 0x87FFD000 \<and> j = 1 then 0x21C00017 else if p = 0x87FFE000 \<and> j = 0 then 0x21FFF401
     else if p = 0x87FFF000 \<and> j = 0 then 0x21FFF801 else 0)"
  using assms by (auto simp: demo_um_def load_slot load_zero_mem PA2PTE_def pte_flag_defs)

lemma demo_um_child:
  assumes "unat p mod 4096 = 0" and "j < 512"
  shows "child demo_um p j = (if p = 0x87FFD000 \<and> j = 1 then Some 0x87000000 else if p = 0x87FFE000 \<and> j = 0 then Some 0x87FFD000
     else if p = 0x87FFF000 \<and> j = 0 then Some 0x87FFE000 else None)"
  using assms by (simp add: child_def demo_um_load PTE2PA_def pte_flag_defs)

lemma demo_um_wf: "pt_wf demo_um 0x87FFF000 demo_lab"
  unfolding pt_wf_def
proof (intro conjI allI impI ballI)
  fix p path i c
  assume a: "demo_lab p = Some path" "length path < 2" "i < 512" "child demo_um p i = Some c"
  then have "unat p mod 4096 = 0" by (auto simp: demo_lab_def split: if_splits)
  then show "demo_lab c = Some (path @ [i])" using a by (auto simp: demo_um_child demo_lab_def split: if_splits)
qed (auto simp: demo_lab_def split: if_splits)

lemma demo_um_pte:
  assumes "x < MAXVA"
  shows "pte_of demo_um 0x87FFF000 x = (if vpn x = 1 then 0x21C00017 else 0)"
proof -
  have l: "unat (PX 2 x) < 512" "unat (PX 1 x) < 512" "unat (PX 0 x) < 512" by (rule px_less)+
  have p: "unat (PX 2 0x1000) = 0" "unat (PX 1 0x1000) = 0" "unat (PX 0 0x1000) = 1" and one: "vpn 0x1000 = 1"
    by (simp_all add: PX_def PXSHIFT_def vpn_def)
  have "pte_of demo_um 0x87FFF000 x = (if unat (PX 2 x) = 0 \<and> unat (PX 1 x) = 0 \<and> unat (PX 0 x) = 1 then 0x21C00017 else 0)"
    using l by (simp add: pte_of_def walk_fn_def demo_um_child pte_addr_slot demo_um_load)
  moreover have "unat (PX 2 x) = 0 \<and> unat (PX 1 x) = 0 \<and> unat (PX 0 x) = 1 \<longleftrightarrow> vpn x = 1"
  proof
    assume h: "unat (PX 2 x) = 0 \<and> unat (PX 1 x) = 0 \<and> unat (PX 0 x) = 1"
    have "vpn x = vpn 0x1000"
      by (rule vpn_eq [OF assms]) (use h p in \<open>simp_all add: MAXVA_value word_unat_eq_iff\<close>)
    then show "vpn x = 1" using one by simp
  next
    assume "vpn x = 1"
    then show "unat (PX 2 x) = 0 \<and> unat (PX 1 x) = 0 \<and> unat (PX 0 x) = 1" by (simp add: PX_vpn [OF assms])
  qed
  ultimately show ?thesis by simp
qed

lemma demo_um_user_pa: "user_pa demo_um 0x87FFF000 x = (if vpn x = 1 then 0x87000000 else 0)"
proof (cases "x < MAXVA")
  case True
  then have "\<not> MAXVA \<le> x" by (simp add: not_le)
  then show ?thesis using True by (simp add: user_pa_def demo_um_pte pte_flag_defs PTE2PA_def)
next
  case False
  then have "vpn x \<noteq> 1" by (auto simp: vpn_def MAXVA_value word_less_nat_alt)
  moreover have "MAXVA \<le> x" using False by (simp add: not_less)
  ultimately show ?thesis by (simp add: user_pa_def)
qed

lemma demo_um_inv: "user_inv demo_um 0x87FFF000 demo_lab"
  using demo_um_wf by (auto simp: user_inv_def demo_um_user_pa demo_lab_def split: if_splits)

theorem copyout_confined_witness:
  "\<exists>m. copyout 0x87FFF000 0x1FFE [1, 2, 3] (demo_vm\<lparr>mem := demo_um\<rparr>) = Ok (- 1) (demo_vm\<lparr>mem := m\<rparr>)
    \<and> ubyte m 0x87FFF000 0x1FFF = Some 2 \<and> ubyte m 0x87FFF000 0x1FFD = ubyte demo_um 0x87FFF000 0x1FFD"
proof -
  have u: "ubyte demo_um 0x87FFF000 0x1FFE \<noteq> None" "ubyte demo_um 0x87FFF000 0x1FFF \<noteq> None" "ubyte demo_um 0x87FFF000 0x2000 = None"
    by (simp_all add: ubyte_def demo_um_user_pa vpn_def unat_PGROUNDDOWN)
  have inv: "user_inv (mem (demo_vm\<lparr>mem := demo_um\<rparr>)) 0x87FFF000 demo_lab" and l: "length [1, 2, 3 :: u8] < 2 ^ 64"
    using demo_um_inv by simp_all
  have sel: "mem (demo_vm\<lparr>mem := demo_um\<rparr>) = demo_um" "demo_vm\<lparr>mem := demo_um\<rparr>\<lparr>mem := x\<rparr> = demo_vm\<lparr>mem := x\<rparr>"
    "length [1, 2, 3 :: u8] = 3" for x by simp_all
  obtain r m n where c: "copyout 0x87FFF000 0x1FFE [1, 2, 3] (demo_vm\<lparr>mem := demo_um\<rparr>) = Ok r (demo_vm\<lparr>mem := m\<rparr>)"
    "r = 0 \<and> n = 3 \<or> r = - 1 \<and> n < 3 \<and> ubyte demo_um 0x87FFF000 (0x1FFE + of_nat n) = None"
    "\<forall>x. ubyte m 0x87FFF000 x = (if unat (x - 0x1FFE) < n then Some ([1, 2, 3] ! unat (x - 0x1FFE)) else ubyte demo_um 0x87FFF000 x)"
    "\<forall>x. user_pa m 0x87FFF000 x = user_pa demo_um 0x87FFF000 x"
    using copyout_confined [OF inv l, of "0x1FFE", unfolded sel] by blast
  have "ubyte m 0x87FFF000 0x2000 = None" using c(4) u(3) by (simp add: ubyte_def Let_def split: if_splits)
  then have "n \<noteq> 3" using c(3) [rule_format, of "0x2000"] by auto
  moreover have "n \<noteq> 0" using c(2) u(1) by (cases "n = 0") auto
  moreover have "n \<noteq> 1" using c(2) u(2) by (cases "n = 1") auto
  ultimately have "r = - 1" "n = 2" using c(2) by auto
  moreover have "\<not> unat (0x1FFD - 0x1FFE :: u64) < 2" by (simp add: unsigned_minus_1_eq_mask mask_eq_exp_minus_1)
  ultimately show ?thesis using c(1) c(3) [rule_format, of "0x1FFF"] c(3) [rule_format, of "0x1FFD"]
    by (intro exI [of _ m]) simp
qed

theorem copyout_copyin_roundtrip_witness:
  "\<exists>s'. copyout 0x87FFF000 0x1000 [7, 8] (demo_vm\<lparr>mem := demo_um\<rparr>) = Ok 0 s' \<and> copyin 0x87FFF000 0x1000 2 s' = Ok (0, [7, 8]) s'"
proof -
  have u: "ubyte demo_um 0x87FFF000 0x1000 \<noteq> None" "ubyte demo_um 0x87FFF000 0x1001 \<noteq> None"
    by (simp_all add: ubyte_def demo_um_user_pa vpn_def unat_PGROUNDDOWN)
  have inv: "user_inv (mem (demo_vm\<lparr>mem := demo_um\<rparr>)) 0x87FFF000 demo_lab" and l: "length [7, 8 :: u8] < 3" "length [7, 8 :: u8] < 2 ^ 64"
    using demo_um_inv by simp_all
  have sel: "mem (demo_vm\<lparr>mem := demo_um\<rparr>) = demo_um" "demo_vm\<lparr>mem := demo_um\<rparr>\<lparr>mem := x\<rparr> = demo_vm\<lparr>mem := x\<rparr>"
    "length [7, 8 :: u8] = 2" for x by simp_all
  obtain r m n where c: "copyout_loop 3 0x87FFF000 0x1000 [7, 8] (demo_vm\<lparr>mem := demo_um\<rparr>) = Ok r (demo_vm\<lparr>mem := m\<rparr>)"
    "r = 0 \<and> n = 2 \<or> r = - 1 \<and> n < 2 \<and> ubyte demo_um 0x87FFF000 (0x1000 + of_nat n) = None"
    using copyout_loop_law [OF inv l, of "0x1000", unfolded sel] by blast
  have "n \<noteq> 0" if "r = - 1" using c(2) u(1) that by (cases "n = 0") auto
  moreover have "n \<noteq> 1" if "r = - 1" using c(2) u(2) that by (cases "n = 1") auto
  ultimately have "r = 0" using c(2) by auto
  then have e: "copyout 0x87FFF000 0x1000 [7, 8] (demo_vm\<lparr>mem := demo_um\<rparr>) = Ok 0 (demo_vm\<lparr>mem := m\<rparr>)"
    using c(1) by (simp add: copyout_def numeral_3_eq_3)
  show ?thesis using e copyout_copyin_roundtrip [OF _ _ e, of demo_lab] demo_um_inv by simp
qed

end
