(* ===== verification/Pipe_Fifo.thy ===== *)
theory Pipe_Fifo
  imports Demo Ring Vm_User
begin

text \<open>
  Pipes are bounded queues of bytes.  \<open>pipe_content\<close> is what a pipe holds; \<^verbatim>\<open>pipewrite\<close> appends
  bytes of the writer's memory to it and \<^verbatim>\<open>piperead\<close> moves its first bytes into the reader's.
\<close>

section \<open>The queue a pipe represents\<close>

definition pipe_ok :: "pipe \<Rightarrow> bool" where
  "pipe_ok q \<longleftrightarrow> length (pi_data q) = PIPESIZE \<and> unat (pi_nwrite q - pi_nread q) \<le> PIPESIZE"

definition pipe_content :: "pipe \<Rightarrow> u8 list" where
  "pipe_content q = ring (pi_data q) (pi_nread q) (pi_nwrite q)"

abbreviation pipe_front :: "pipe \<Rightarrow> u8" where
  "pipe_front q \<equiv> pi_data q ! (unat (pi_nread q) mod PIPESIZE)"

abbreviation pipe_get :: "pipe \<Rightarrow> pipe" where
  "pipe_get q \<equiv> q\<lparr>pi_nread := pi_nread q + 1\<rparr>"

lemma pipe_put_law:
  assumes "pipe_ok q" and "length (pipe_content q) < PIPESIZE"
  shows "pipe_ok (pipe_put b q) \<and> pipe_content (pipe_put b q) = pipe_content q @ [b]"
proof
  have d: "unat (pi_nwrite q - pi_nread q) < 512" using assms(2) by (simp add: pipe_content_def)
  then show "pipe_ok (pipe_put b q)" using assms(1) unat_suc_diff [of "pi_nwrite q" "pi_nread q"]
    by (simp add: pipe_ok_def pipe_put_def)
  show "pipe_content (pipe_put b q) = pipe_content q @ [b]"
    using ring_put [of "pi_data q" "pi_nwrite q" "pi_nread q" b] assms(1) d
    by (simp add: pipe_ok_def pipe_content_def pipe_put_def)
qed

lemma pipe_get_law:
  assumes "pipe_ok q" and "pipe_content q \<noteq> []"
  shows "pipe_ok (pipe_get q) \<and> pipe_content q = pipe_front q # pipe_content (pipe_get q)"
proof
  have ne: "pi_nwrite q \<noteq> pi_nread q" using assms(2) by (auto simp: pipe_content_def)
  then show "pipe_ok (pipe_get q)" using assms(1) unat_pred_diff [OF ne] by (auto simp: pipe_ok_def)
  show "pipe_content q = pipe_front q # pipe_content (pipe_get q)"
    using ring_get [of "pi_data q" "pi_nwrite q" "pi_nread q"] assms(1) ne by (simp add: pipe_ok_def pipe_content_def)
qed

interpretation pq: fifo pipe_ok pipe_content PIPESIZE pipe_put pipe_front pipe_get
  by unfold_locales (rule pipe_put_law pipe_get_law, assumption, assumption)+

lemma pipe_content_open [simp]:
  "pipe_content (q\<lparr>pi_readopen := x\<rparr>) = pipe_content q" "pipe_content (q\<lparr>pi_writeopen := x\<rparr>) = pipe_content q"
  "pipe_ok (q\<lparr>pi_readopen := x\<rparr>) = pipe_ok q" "pipe_ok (q\<lparr>pi_writeopen := x\<rparr>) = pipe_ok q"
  by (simp_all add: pipe_content_def pipe_ok_def)

lemma pipe_put_open [simp]: "pi_readopen (pipe_put b q) = pi_readopen q" "pi_writeopen (pipe_put b q) = pi_writeopen q"
  by (simp_all add: pipe_put_def)

lemma pipe_full: "pi_nwrite q = pi_nread q + of_nat PIPESIZE \<longleftrightarrow> length (pipe_content q) = PIPESIZE"
  using ring_full [of PIPESIZE "pi_nwrite q" "pi_nread q"] by (simp add: pipe_content_def)

lemma pipe_empty: "pi_nread q = pi_nwrite q \<longleftrightarrow> pipe_content q = []"
  by (auto simp: pipe_content_def ring_empty)

section \<open>Writing\<close>

lemma with_pipe_Ok: "pipes s pi = Some q \<Longrightarrow> with_pipe pi f s = f q s"
  by (simp add: with_pipe_def run_kbind)

lemma set_pipe_Ok: "set_pipe pi q s = Ok () (s\<lparr>pipes := (pipes s)(pi \<mapsto> q)\<rparr>)"
  by (simp add: set_pipe_def)

lemma copyin_one:
  assumes "pt_wf (mem s) pt lab"
  shows "copyin pt a 1 s = (case ubyte (mem s) pt a of None \<Rightarrow> Ok (- 1, []) s | Some b \<Rightarrow> Ok (0, [b]) s)"
proof -
  obtain r bs where c: "copyin pt a 1 s = Ok (r, bs) s" "ubytes (mem s) pt a bs"
      "r = 0 \<and> length bs = 1 \<or> r = - 1 \<and> length bs < 1 \<and> ubyte (mem s) pt (a + of_nat (length bs)) = None"
    using copyin_loop_law [OF assms, of 1 2 a "[]"] by (auto simp: copyin_def numeral_2_eq_2)
  show ?thesis
  proof (cases bs)
    case Nil
    then show ?thesis using c by auto
  next
    case (Cons b cs)
    then have "bs = [b]" "r = 0" using c(3) by auto
    then show ?thesis using c by (auto simp: ubytes_def)
  qed
qed

text \<open>The writer holds the lock of the pipe and nothing else.\<close>

definition pipe_user :: "nat \<Rightarrow> u64 \<Rightarrow> pipe \<Rightarrow> 'a kfile_scheme \<Rightarrow> bool" where
  "pipe_user p pi q s \<longleftrightarrow> curproc s = Some p \<and> p < NPROC \<and> length (procs s) = NPROC \<and> held s = [LPipe pi] \<and>
     pipes s pi = Some q \<and> pipe_ok q"

lemma pipewrite_end_Ok:
  assumes "pipe_user p pi q s"
  shows "pipewrite_end pi i s = Ok i (s\<lparr>held := [], procs := woken (ChPipeR pi) (curproc s) (procs s)\<rparr>)"
  using assms by (simp add: pipe_user_def pipewrite_end_def run_simps)

lemma pipe_sleep:
  assumes "pipe_user p pi q s"
  shows "kthen (sleep ch (LPipe pi)) m s =
    Sleep (s\<lparr>held := [LProc p], procs := (procs s)[p := (procs s ! p)\<lparr>p_chan := ch, p_state := SLEEPING\<rparr>]\<rparr>)"
  using assms by (simp add: pipe_user_def sleep_def sched_def run_simps)

text \<open>
  One call of the loop: the bytes \<open>bs\<close> of the writer's memory have been appended.  It returns when all
  are written or one cannot be read, fails when there is no reader or the writer is killed, and
  sleeps when the pipe is full.
\<close>

definition pipe_wrote :: "nat \<Rightarrow> nat \<Rightarrow> u64 \<Rightarrow> u64 \<Rightarrow> int \<Rightarrow> pipe \<Rightarrow> 'a kfile_scheme \<Rightarrow> ('a kfile_scheme, int) out \<Rightarrow> u8 list \<Rightarrow> bool" where
  "pipe_wrote k p pi addr i q s res bs \<longleftrightarrow>
     (\<exists>q' h ps. let s' = s\<lparr>held := h, procs := ps, pipes := (pipes s)(pi \<mapsto> q')\<rparr>; a = addr + of_int i;
                    pt = p_pagetable (procs s ! p) in
       pipe_ok q' \<and> pipe_content q' = pipe_content q @ bs \<and> pi_readopen q' = pi_readopen q \<and> pi_writeopen q' = pi_writeopen q \<and>
       ubytes (mem s) pt a bs \<and> length bs \<le> k \<and> length ps = NPROC \<and>
       (if k > 0 \<and> (\<not> pi_readopen q \<or> p_killed (procs s ! p)) then res = Ok (- 1) s' \<and> bs = [] \<and> h = []
        else res = Ok (i + int (length bs)) s' \<and> h = [] \<and> (length bs = k \<or> ubyte (mem s) pt (a + of_nat (length bs)) = None)
           \<or> res = Sleep s' \<and> h = [LProc p] \<and> length (pipe_content q') = PIPESIZE \<and> length bs < k
             \<and> p_state (ps ! p) = SLEEPING \<and> p_chan (ps ! p) = ChPipeW pi))"
lemma ubytes_Cons:
  "ubytes m pt a (b # bs) \<longleftrightarrow> ubyte m pt a = Some b \<and> ubytes m pt (a + 1) bs"
  using ubytes_append [of m pt a "[b]" bs] by (simp add: ubytes_def)

lemma pipe_wrote_Cons:
  assumes b: "ubyte (mem s) (p_pagetable (procs s ! p)) (addr + of_int i) = Some b" and go: "pi_readopen q" "\<not> p_killed (procs s ! p)"
    and content: "pipe_content (pipe_put b q) = pipe_content q @ [b]"
    and w: "pipe_wrote k p pi addr (i + 1) (pipe_put b q) (s\<lparr>pipes := (pipes s)(pi \<mapsto> pipe_put b q)\<rparr>) res bs"
  shows "pipe_wrote (Suc k) p pi addr i q s res (b # bs)"
proof -
  have a: "addr + of_int (i + 1) = addr + of_int i + 1" by simp
  have a2: "addr + of_int i + 1 + of_nat n = addr + of_int i + of_nat (Suc n)" for n by (simp add: add.assoc)
  obtain q' h ps where x: "pipe_ok q'" "pipe_content q' = pipe_content q @ b # bs" "pi_readopen q' = pi_readopen q" "pi_writeopen q' = pi_writeopen q"
      "ubytes (mem s) (p_pagetable (procs s ! p)) (addr + of_int i + 1) bs" "length bs \<le> k" "length ps = NPROC"
      "res = Ok (i + 1 + int (length bs)) (s\<lparr>held := h, procs := ps, pipes := (pipes s)(pi \<mapsto> q')\<rparr>) \<and> h = []
         \<and> (length bs = k \<or> ubyte (mem s) (p_pagetable (procs s ! p)) (addr + of_int i + 1 + of_nat (length bs)) = None)
       \<or> res = Sleep (s\<lparr>held := h, procs := ps, pipes := (pipes s)(pi \<mapsto> q')\<rparr>) \<and> h = [LProc p] \<and> length (pipe_content q') = PIPESIZE \<and> length bs < k
           \<and> p_state (ps ! p) = SLEEPING \<and> p_chan (ps ! p) = ChPipeW pi"
    using w go content unfolding pipe_wrote_def Let_def a by auto
  have "ubytes (mem s) (p_pagetable (procs s ! p)) (addr + of_int i) (b # bs)" using x(5) b by (simp add: ubytes_Cons)
  then show ?thesis
    unfolding pipe_wrote_def Let_def
    apply (intro exI [of _ q'] exI [of _ h] exI [of _ ps])
    using x(1-4,6,7,8) go unfolding a2 by auto
qed

lemma pipewrite_loop_law:
  assumes "pipe_user p pi q s" and "pt_wf (mem s) (p_pagetable (procs s ! p)) lab"
  shows "\<exists>bs. pipe_wrote k p pi addr i q s (pipewrite_loop k p pi addr i s) bs"
  using assms
proof (induction k arbitrary: s q i)
  case 0
  have "s = s\<lparr>pipes := (pipes s)(pi \<mapsto> q)\<rparr>" using "0.prems"(1) by (simp add: pipe_user_def fun_upd_idem)
  then have "pipe_wrote 0 p pi addr i q s (pipewrite_loop 0 p pi addr i s) []"
    unfolding pipe_wrote_def Let_def
    by (intro exI [of _ q] exI [of _ "[]"] exI [of _ "woken (ChPipeR pi) (curproc s) (procs s)"])
      (use "0.prems"(1) in \<open>simp add: pipewrite_end_Ok [OF "0.prems"(1)] pipe_user_def fun_upd_idem\<close>)
  then show ?case by blast
next
  case (Suc k)
  note u = Suc.prems(1) [unfolded pipe_user_def]
  have same: "(pipes s)(pi \<mapsto> q) = pipes s" using u by (simp add: fun_upd_idem)
  let ?pt = "p_pagetable (procs s ! p)" and ?a = "addr + of_int i"
  consider (fail) "\<not> pi_readopen q \<or> p_killed (procs s ! p)"
    | (full) "pi_readopen q" "\<not> p_killed (procs s ! p)" "length (pipe_content q) = PIPESIZE"
    | (bad) "pi_readopen q" "\<not> p_killed (procs s ! p)" "length (pipe_content q) \<noteq> PIPESIZE" "ubyte (mem s) ?pt ?a = None"
    | (go) b where "pi_readopen q" "\<not> p_killed (procs s ! p)" "length (pipe_content q) \<noteq> PIPESIZE" "ubyte (mem s) ?pt ?a = Some b"
    by (cases "ubyte (mem s) ?pt ?a") auto
  then show ?case
  proof cases
    case fail
    then have "pipewrite_loop (Suc k) p pi addr i s = Ok (- 1) (s\<lparr>held := []\<rparr>)" using u by (simp add: with_pipe_Ok run_simps)
    then have "pipe_wrote (Suc k) p pi addr i q s (pipewrite_loop (Suc k) p pi addr i s) []"
      unfolding pipe_wrote_def Let_def
      by (intro exI [of _ q] exI [of _ "[]"] exI [of _ "procs s"]) (use fail u in \<open>simp add: same\<close>)
    then show ?thesis by blast
  next
    case full
    let ?s = "s\<lparr>procs := woken (ChPipeR pi) (curproc s) (procs s)\<rparr>"
    have us: "pipe_user p pi q ?s" using Suc.prems(1) by (simp add: pipe_user_def)
    define ps where "ps = (procs ?s)[p := (procs ?s ! p)\<lparr>p_chan := ChPipeW pi, p_state := SLEEPING\<rparr>]"
    have ps: "kthen (sleep (ChPipeW pi) (LPipe pi)) (kret 0) ?s = Sleep (s\<lparr>held := [LProc p], procs := ps\<rparr>)"
      unfolding pipe_sleep [OF us] ps_def by simp
    have st: "length ps = NPROC" "p_state (ps ! p) = SLEEPING" "p_chan (ps ! p) = ChPipeW pi" using u by (simp_all add: ps_def)
    have fullq: "pi_nwrite q = pi_nread q + 512" using full(3) pipe_full [of q] by simp
    have "pipewrite_loop (Suc k) p pi addr i s = kthen (sleep (ChPipeW pi) (LPipe pi)) (kret 0) ?s"
      using u full(1,2) fullq by (simp add: with_pipe_Ok run_kbind run_kthen wakeup_Ok)
    then have "pipe_wrote (Suc k) p pi addr i q s (pipewrite_loop (Suc k) p pi addr i s) []"
      unfolding pipe_wrote_def Let_def
      by (intro exI [of _ q] exI [of _ "[LProc p]"] exI [of _ ps]) (use full u ps st in \<open>simp add: same\<close>)
    then show ?thesis by blast
  next
    case bad
    have nf: "pi_nwrite q \<noteq> pi_nread q + 512" using bad(3) pipe_full [of q] by simp
    have "pipewrite_loop (Suc k) p pi addr i s = pipewrite_end pi i s"
      using u bad nf by (simp add: with_pipe_Ok run_kbind copyin_one [OF Suc.prems(2)])
    then have "pipe_wrote (Suc k) p pi addr i q s (pipewrite_loop (Suc k) p pi addr i s) []"
      unfolding pipe_wrote_def Let_def
      by (intro exI [of _ q] exI [of _ "[]"] exI [of _ "woken (ChPipeR pi) (curproc s) (procs s)"])
        (use bad u in \<open>simp add: pipewrite_end_Ok [OF Suc.prems(1)] same\<close>)
    then show ?thesis by blast
  next
    case go
    have nf: "pi_nwrite q \<noteq> pi_nread q + 512" using go(3) pipe_full [of q] by simp
    let ?s = "s\<lparr>pipes := (pipes s)(pi \<mapsto> pipe_put b q)\<rparr>"
    have "length (pipe_content q) < PIPESIZE" using u go(3) by (auto simp: pipe_ok_def pipe_content_def)
    then have put: "pipe_ok (pipe_put b q)" "pipe_content (pipe_put b q) = pipe_content q @ [b]" using pq.put_law u by blast+
    have us: "pipe_user p pi (pipe_put b q) ?s" using Suc.prems(1) put(1) by (simp add: pipe_user_def)
    have run: "pipewrite_loop (Suc k) p pi addr i s = pipewrite_loop k p pi addr (i + 1) ?s"
      using u go nf by (simp add: with_pipe_Ok run_kbind run_kthen set_pipe_Ok copyin_one [OF Suc.prems(2)])
    obtain bs where "pipe_wrote k p pi addr (i + 1) (pipe_put b q) ?s (pipewrite_loop k p pi addr (i + 1) ?s) bs"
      using Suc.IH [OF us, of "i + 1"] Suc.prems(2) by auto
    then show ?thesis unfolding run using pipe_wrote_Cons [OF go(4) go(1,2) put(2)] by blast
  qed
qed

section \<open>Reading\<close>

lemma copyout_one_bad:
  assumes "pt_wf (mem s) pt lab" and "ubyte (mem s) pt a = None"
  shows "copyout pt a [c] s = Ok (- 1) s"
  using assms(2) by (simp add: copyout_def Let_def run_kbind walkaddr_run [OF assms(1)] ubyte_def split: if_splits)

lemma copyout_one:
  assumes "user_inv (mem s) pt lab" and "ubyte (mem s) pt a \<noteq> None"
  shows "\<exists>m. copyout pt a [c] s = Ok 0 (s\<lparr>mem := m\<rparr>) \<and> user_inv m pt lab \<and> copied (mem s) pt a [c] m \<and>
    mem_frame (user_pages (mem s) pt) (mem s) m \<and> user_pages m pt = user_pages (mem s) pt"
proof -
  obtain r m n where c: "copyout_loop 2 pt a [c] s = Ok r (s\<lparr>mem := m\<rparr>)" "user_inv m pt lab"
      "\<forall>x. user_pa m pt x = user_pa (mem s) pt x" "mem_frame (user_pages (mem s) pt) (mem s) m" "copied (mem s) pt a (take n [c]) m"
      "r = 0 \<and> n = length [c] \<or> r = - 1 \<and> n < length [c] \<and> ubyte (mem s) pt (a + of_nat n) = None"
    using copyout_loop_law [OF assms(1), of "[c]" 2 a] by auto
  have "r = 0 \<and> n = 1"
  proof (rule ccontr)
    assume "\<not> (r = 0 \<and> n = 1)"
    then have "n = 0" "ubyte (mem s) pt (a + of_nat n) = None" using c(6) by auto
    then show False using assms(2) by simp
  qed
  moreover have "user_pages m pt = user_pages (mem s) pt" using c(3) by (simp add: user_pages_def)
  ultimately show ?thesis using c by (intro exI [of _ m]) (simp add: copyout_def numeral_2_eq_2)
qed

text \<open>
  The bytes \<open>bs\<close> have moved from the pipe to the reader's memory.  When one cannot be stored, it is
  gone from the pipe all the same: \<open>lost\<close>.
\<close>

definition pipe_took :: "nat \<Rightarrow> nat \<Rightarrow> u64 \<Rightarrow> u64 \<Rightarrow> int \<Rightarrow> pipe \<Rightarrow> (u64 \<rightharpoonup> nat list) \<Rightarrow> 'a kfile_scheme \<Rightarrow> ('a kfile_scheme, int) out \<Rightarrow> u8 list \<Rightarrow> u8 list \<Rightarrow> bool" where
  "pipe_took k p pi addr i q lab s res bs lost \<longleftrightarrow>
     (\<exists>q' ps m. let pt = p_pagetable (procs s ! p); a = addr + of_int i in
       res = Ok (i + int (length bs)) (s\<lparr>held := [], procs := ps, pipes := (pipes s)(pi \<mapsto> q'), mem := m\<rparr>) \<and>
       pipe_ok q' \<and> pi_readopen q' = pi_readopen q \<and> pi_writeopen q' = pi_writeopen q \<and>
       pipe_content q = bs @ lost @ pipe_content q' \<and> length bs \<le> k \<and> length ps = NPROC \<and>
       user_inv m pt lab \<and> copied (mem s) pt a bs m \<and> mem_frame (user_pages (mem s) pt) (mem s) m \<and>
       (lost = [] \<and> (length bs = k \<or> pipe_content q' = [])
        \<or> length lost = 1 \<and> length bs < k \<and> ubyte (mem s) pt (a + of_nat (length bs)) = None))"

lemma piperead_end_Ok:
  assumes "pipe_user p pi q s"
  shows "piperead_end pi i s = Ok i (s\<lparr>held := [], procs := woken (ChPipeW pi) (curproc s) (procs s)\<rparr>)"
  using assms by (simp add: pipe_user_def piperead_end_def run_simps)

lemma pipe_took_stop:
  assumes u: "pipe_user p pi q s" and inv: "user_inv (mem s) (p_pagetable (procs s ! p)) lab"
    and res: "res = piperead_end pi i (s\<lparr>pipes := (pipes s)(pi \<mapsto> q')\<rparr>)" and q': "pipe_ok q'" "pi_readopen q' = pi_readopen q" "pi_writeopen q' = pi_writeopen q"
    and c: "pipe_content q = lost @ pipe_content q'"
    and l: "lost = [] \<and> (k = 0 \<or> pipe_content q' = []) \<or> length lost = 1 \<and> 0 < k \<and> ubyte (mem s) (p_pagetable (procs s ! p)) (addr + of_int i) = None"
  shows "pipe_took k p pi addr i q lab s res [] lost"
proof -
  have "pipe_user p pi q' (s\<lparr>pipes := (pipes s)(pi \<mapsto> q')\<rparr>)" using u q'(1) by (simp add: pipe_user_def)
  from piperead_end_Ok [OF this] show ?thesis
    unfolding pipe_took_def Let_def res
    by (intro exI [of _ q'] exI [of _ "woken (ChPipeW pi) (curproc s) (procs s)"] exI [of _ "mem s"])
      (use u inv q' c l in \<open>simp add: pipe_user_def\<close>)
qed

lemma pipe_took_Cons:
  assumes go: "ubyte (mem s) (p_pagetable (procs s ! p)) (addr + of_int i) \<noteq> None"
    and m: "copied (mem s) (p_pagetable (procs s ! p)) (addr + of_int i) [c] m"
      "mem_frame (user_pages (mem s) (p_pagetable (procs s ! p))) (mem s) m"
      "user_pages m (p_pagetable (procs s ! p)) = user_pages (mem s) (p_pagetable (procs s ! p))"
    and q1: "pipe_content q = c # pipe_content q1" "pi_readopen q1 = pi_readopen q" "pi_writeopen q1 = pi_writeopen q" and q: "pipe_ok q"
    and t: "pipe_took k p pi addr (i + 1) q1 lab (s\<lparr>pipes := (pipes s)(pi \<mapsto> q1), mem := m\<rparr>) res bs lost"
  shows "pipe_took (Suc k) p pi addr i q lab s res (c # bs) lost"
proof -
  let ?pt = "p_pagetable (procs s ! p)"
  have a: "addr + of_int (i + 1) = addr + of_int i + 1" by simp
  have a2: "addr + of_int i + 1 + of_nat n = addr + of_int i + of_nat (Suc n)" for n by (simp add: add.assoc)
  obtain q' ps m' where x: "res = Ok (i + 1 + int (length bs)) (s\<lparr>held := [], procs := ps, pipes := (pipes s)(pi \<mapsto> q'), mem := m'\<rparr>)"
      "pipe_ok q'" "pi_readopen q' = pi_readopen q" "pi_writeopen q' = pi_writeopen q" "pipe_content q1 = bs @ lost @ pipe_content q'"
      "length bs \<le> k" "length ps = NPROC" "user_inv m' ?pt lab" "copied m ?pt (addr + of_int i + 1) bs m'"
      "mem_frame (user_pages (mem s) ?pt) m m'"
      "lost = [] \<and> (length bs = k \<or> pipe_content q' = [])
        \<or> length lost = 1 \<and> length bs < k \<and> ubyte m ?pt (addr + of_int i + 1 + of_nat (length bs)) = None"
    using t q1(2,3) m(3) unfolding pipe_took_def Let_def a by auto
  have "length (pipe_content q) \<le> 512" using q by (simp add: pipe_ok_def pipe_content_def)
  then have len: "length (c # bs) \<le> 512" using q1(1) x(5) by simp
  have cp: "copied (mem s) ?pt (addr + of_int i) ([c] @ bs) m'"
    by (rule copied_append [OF m(1)]) (use x(9) len in simp_all)
  have un: "ubyte (mem s) ?pt x = None" if "ubyte m ?pt x = None" for x
    using m(1) that unfolding copied_def by (metis option.distinct(1))
  show ?thesis
    unfolding pipe_took_def Let_def
    apply (intro exI [of _ q'] exI [of _ ps] exI [of _ m'])
    using x(1-8) x(11) cp un [of "addr + of_int i + 1 + of_nat (length bs)"] q1(1) mem_frame_trans [OF m(2) x(10)] unfolding a2 by auto
qed

lemma piperead_copy_law:
  assumes "pipe_user p pi q s" and "user_inv (mem s) (p_pagetable (procs s ! p)) lab"
  shows "\<exists>bs lost. pipe_took k p pi addr i q lab s (piperead_copy k p pi addr i s) bs lost"
  using assms
proof (induction k arbitrary: s q i)
  case 0
  have "pipe_took 0 p pi addr i q lab s (piperead_copy 0 p pi addr i s) [] []"
    by (rule pipe_took_stop [OF "0.prems", of _ i q]) (use "0.prems"(1) in \<open>simp_all add: pipe_user_def fun_upd_idem\<close>)
  then show ?case by blast
next
  case (Suc k)
  note u = Suc.prems(1) [unfolded pipe_user_def]
  let ?pt = "p_pagetable (procs s ! p)" and ?a = "addr + of_int i"
  have wf: "pt_wf (mem s) ?pt lab" using Suc.prems(2) by (simp add: user_inv_def)
  show ?case
  proof (cases "pipe_content q = []")
    case True
    then have e: "pi_nread q = pi_nwrite q" by (simp add: pipe_empty)
    have "pipe_took (Suc k) p pi addr i q lab s (piperead_copy (Suc k) p pi addr i s) [] []"
      by (rule pipe_took_stop [OF Suc.prems, of _ i q]) (use u True e in \<open>simp_all add: fun_upd_idem with_pipe_Ok\<close>)
    then show ?thesis by blast
  next
    case False
    then have e: "pi_nread q \<noteq> pi_nwrite q" by (simp add: pipe_empty)
    note g = pq.get_law [of q, OF _ False]
    have g: "pipe_ok (pipe_get q)" "pipe_content q = pipe_front q # pipe_content (pipe_get q)" using g u by blast+
    let ?s = "s\<lparr>pipes := (pipes s)(pi \<mapsto> pipe_get q)\<rparr>"
    have us: "pipe_user p pi (pipe_get q) ?s" using Suc.prems(1) g(1) by (simp add: pipe_user_def)
    have run: "piperead_copy (Suc k) p pi addr i s =
        kbind (copyout ?pt ?a [pipe_front q]) (\<lambda>r. if r = - 1 then piperead_end pi i else piperead_copy k p pi addr (i + 1)) ?s"
      using u e by (simp add: with_pipe_Ok Let_def run_kthen run_kbind set_pipe_Ok)
    show ?thesis
    proof (cases "ubyte (mem s) ?pt ?a = None")
      case True
      have "copyout ?pt ?a [pipe_front q] ?s = Ok (- 1) ?s" by (rule copyout_one_bad) (use wf True in simp_all)
      then have r: "piperead_copy (Suc k) p pi addr i s = piperead_end pi i ?s" unfolding run by (simp add: run_kbind)
      have "pipe_took (Suc k) p pi addr i q lab s (piperead_copy (Suc k) p pi addr i s) [] [pipe_front q]"
        by (rule pipe_took_stop [OF Suc.prems r]) (use True g in simp_all)
      then show ?thesis by blast
    next
      case ok: False
      obtain m where m: "copyout ?pt ?a [pipe_front q] ?s = Ok 0 (?s\<lparr>mem := m\<rparr>)" "user_inv m ?pt lab"
          "copied (mem s) ?pt ?a [pipe_front q] m" "mem_frame (user_pages (mem s) ?pt) (mem s) m" "user_pages m ?pt = user_pages (mem s) ?pt"
        using copyout_one [of ?s ?pt lab ?a "pipe_front q"] Suc.prems(2) ok by auto
      let ?t = "s\<lparr>pipes := (pipes s)(pi \<mapsto> pipe_get q), mem := m\<rparr>"
      have r: "piperead_copy (Suc k) p pi addr i s = piperead_copy k p pi addr (i + 1) ?t" unfolding run run_kbind m(1) by simp
      have "pipe_user p pi (pipe_get q) ?t" using us by (simp add: pipe_user_def)
      then obtain bs lost where "pipe_took k p pi addr (i + 1) (pipe_get q) lab ?t (piperead_copy k p pi addr (i + 1) ?t) bs lost"
        using Suc.IH [of "pipe_get q" ?t "i + 1"] m(2) by auto
      then have "pipe_took (Suc k) p pi addr i q lab s (piperead_copy k p pi addr (i + 1) ?t) (pipe_front q # bs) lost"
        by (intro pipe_took_Cons [OF ok m(3-5) g(2)]) (use u in simp_all)
      then show ?thesis unfolding r by blast
    qed
  qed
qed

section \<open>The system-call level\<close>

text \<open>
  C14. \<^verbatim>\<open>pipewrite\<close> appends to the queue of the pipe the first bytes of the writer's buffer, in
  order, and nothing else.  It returns their number once all \<^verbatim>\<open>n\<close> are in, or the next one is
  in a page the writer has not mapped; with no reader, or killed, it returns -1 and has written
  nothing; and it sleeps only when the queue is full.
\<close>

theorem pipewrite_appends:
  assumes "curproc s = Some p" and "p < NPROC" and "length (procs s) = NPROC" and "held s = []"
    and "pipes s pi = Some q" and "pipe_ok q" and "pt_wf (mem s) (p_pagetable (procs s ! p)) lab"
  shows "\<exists>bs q' h ps. let s' = s\<lparr>held := h, procs := ps, pipes := (pipes s)(pi \<mapsto> q')\<rparr>; pt = p_pagetable (procs s ! p) in
    pipe_ok q' \<and> pipe_content q' = pipe_content q @ bs \<and> ubytes (mem s) pt addr bs \<and>
    (if 0 < n \<and> (\<not> pi_readopen q \<or> p_killed (procs s ! p)) then pipewrite pi addr n s = Ok (- 1) s' \<and> bs = []
     else pipewrite pi addr n s = Ok (int (length bs)) s' \<and> (length bs = nat n \<or> ubyte (mem s) pt (addr + of_nat (length bs)) = None)
       \<or> pipewrite pi addr n s = Sleep s' \<and> length (pipe_content q') = PIPESIZE \<and> length bs < nat n
         \<and> p_state (ps ! p) = SLEEPING \<and> p_chan (ps ! p) = ChPipeW pi)"
proof -
  let ?s = "s\<lparr>held := [LPipe pi]\<rparr>"
  have run: "pipewrite pi addr n s = pipewrite_loop (nat n) p pi addr 0 ?s"
    using assms by (simp add: pipewrite_def run_simps with_pipe_Ok)
  have u: "pipe_user p pi q ?s" using assms by (simp add: pipe_user_def)
  have wf: "pt_wf (mem ?s) (p_pagetable (procs ?s ! p)) lab" using assms(7) by simp
  obtain bs where "pipe_wrote (nat n) p pi addr 0 q ?s (pipewrite_loop (nat n) p pi addr 0 ?s) bs"
    using pipewrite_loop_law [OF u wf] by blast
  then show ?thesis unfolding run pipe_wrote_def Let_def
    apply (elim exE)
    subgoal for q' h ps
      by (intro exI [of _ bs] exI [of _ q'] exI [of _ h] exI [of _ ps]) (auto split: if_splits)
    done
qed

text \<open>
  C16. \<^verbatim>\<open>piperead\<close> on an empty pipe that still has a writer sleeps, or returns -1 when the reader is
  killed.  Otherwise it returns: the first bytes of the queue, at most \<^verbatim>\<open>n\<close>, are now in the
  reader's buffer, no other user byte has changed, and the queue goes on after them.  It stops short
  only when the queue is empty or a byte cannot be stored, and that byte is lost.
\<close>

theorem piperead_takes:
  assumes "curproc s = Some p" and "p < NPROC" and "length (procs s) = NPROC" and "held s = []"
    and "pipes s pi = Some q" and "pipe_ok q" and "user_inv (mem s) (p_pagetable (procs s ! p)) lab"
  shows "if pipe_content q = [] \<and> pi_writeopen q
    then piperead pi addr n s = (if p_killed (procs s ! p) then Ok (- 1) s
      else Sleep (s\<lparr>held := [LProc p], procs := (procs s)[p := (procs s ! p)\<lparr>p_chan := ChPipeR pi, p_state := SLEEPING\<rparr>]\<rparr>))
    else \<exists>bs lost q' ps m. let pt = p_pagetable (procs s ! p) in
      piperead pi addr n s = Ok (int (length bs)) (s\<lparr>procs := ps, pipes := (pipes s)(pi \<mapsto> q'), mem := m\<rparr>) \<and>
      pipe_content q = bs @ lost @ pipe_content q' \<and> length bs \<le> nat n \<and> pipe_ok q' \<and>
      (\<forall>x. ubyte m pt x = (if unat (x - addr) < length bs then Some (bs ! unat (x - addr)) else ubyte (mem s) pt x)) \<and>
      mem_frame (user_pages (mem s) pt) (mem s) m \<and>
      (lost = [] \<and> (length bs = nat n \<or> pipe_content q' = [])
       \<or> length lost = 1 \<and> length bs < nat n \<and> ubyte (mem s) pt (addr + of_nat (length bs)) = None)"
proof -
  let ?s = "s\<lparr>held := [LPipe pi]\<rparr>"
  have u: "pipe_user p pi q ?s" using assms by (simp add: pipe_user_def)
  have acq: "piperead pi addr n s = piperead_wait p pi addr n ?s"
    using assms by (simp add: piperead_def run_simps with_pipe_Ok)
  have same: "s\<lparr>held := []\<rparr> = s" using assms(4) by simp
  show ?thesis
  proof (cases "pipe_content q = [] \<and> pi_writeopen q")
    case True
    then have e: "pi_nread q = pi_nwrite q" by (simp add: pipe_empty)
    show ?thesis
    proof (cases "p_killed (procs s ! p)")
      case killed: True
      then have "piperead_wait p pi addr n ?s = Ok (- 1) (s\<lparr>held := []\<rparr>)"
        using assms True e by (simp add: piperead_wait_def run_simps with_pipe_Ok)
      then show ?thesis using True killed acq same by simp
    next
      case False
      then have "piperead_wait p pi addr n ?s = kthen (sleep (ChPipeR pi) (LPipe pi)) (kret 0) ?s"
        using assms True e by (simp add: piperead_wait_def run_kbind with_pipe_Ok)
      then show ?thesis using True False acq pipe_sleep [OF u] by simp
    qed
  next
    case False
    then have run: "piperead pi addr n s = piperead_copy (nat n) p pi addr 0 ?s"
      using acq assms by (auto simp: piperead_wait_def run_kbind with_pipe_Ok pipe_empty)
    have inv: "user_inv (mem ?s) (p_pagetable (procs ?s ! p)) lab" using assms(7) by simp
    obtain bs lost where "pipe_took (nat n) p pi addr 0 q lab ?s (piperead_copy (nat n) p pi addr 0 ?s) bs lost"
      using piperead_copy_law [OF u inv] by blast
    then obtain q' ps m where t: "piperead_copy (nat n) p pi addr 0 ?s = Ok (int (length bs)) (s\<lparr>held := [], procs := ps, pipes := (pipes s)(pi \<mapsto> q'), mem := m\<rparr>)"
      "pipe_ok q'" "pipe_content q = bs @ lost @ pipe_content q'" "length bs \<le> nat n"
      "copied (mem s) (p_pagetable (procs s ! p)) addr bs m" "mem_frame (user_pages (mem s) (p_pagetable (procs s ! p))) (mem s) m"
      "lost = [] \<and> (length bs = nat n \<or> pipe_content q' = [])
       \<or> length lost = 1 \<and> length bs < nat n \<and> ubyte (mem s) (p_pagetable (procs s ! p)) (addr + of_nat (length bs)) = None"
      unfolding pipe_took_def Let_def by auto
    have fields: "s\<lparr>held := [], procs := ps, pipes := (pipes s)(pi \<mapsto> q'), mem := m\<rparr> = s\<lparr>procs := ps, pipes := (pipes s)(pi \<mapsto> q'), mem := m\<rparr>"
      using assms(4) by simp
    show ?thesis unfolding if_not_P [OF False] Let_def run
      by (intro exI [of _ bs] exI [of _ lost] exI [of _ q'] exI [of _ ps] exI [of _ m])
        (use t fields in \<open>simp add: copied_def\<close>)
  qed
qed

section \<open>An example\<close>

definition demo_q :: pipe where
  "demo_q = \<lparr>pi_data = replicate PIPESIZE 0, pi_nread = 0xFFFFFFFF, pi_nwrite = 0xFFFFFFFF, pi_readopen = True, pi_writeopen = False\<rparr>"

definition demo_pipe :: "pipe \<Rightarrow> kfile" where
  "demo_pipe q = demo_file\<lparr>mem := demo_um, procs := replicate NPROC (proc0\<lparr>p_pagetable := 0x87FFF000\<rparr>), pipes := [0x87001000 \<mapsto> q]\<rparr>"

lemma demo_pipe_fields [simp]:
  "curproc (demo_pipe q) = Some 0" "length (procs (demo_pipe q)) = NPROC" "held (demo_pipe q) = []"
  "pipes (demo_pipe q) = [0x87001000 \<mapsto> q]" "mem (demo_pipe q) = demo_um"
  "p_pagetable (procs (demo_pipe q) ! 0) = 0x87FFF000" "\<not> p_killed (procs (demo_pipe q) ! 0)"
  by (simp_all add: demo_pipe_def proc0_def)

lemma demo_q_ok: "pipe_ok demo_q" "pipe_content demo_q = []" "pi_readopen demo_q"
  by (simp_all add: pipe_ok_def pipe_content_def demo_q_def)

theorem pipewrite_appends_witness:
  "\<exists>q' s' bs. pipe_content q' = bs \<and> (pipewrite 0x87001000 0x1FFE 3 (demo_pipe demo_q) = Ok (int (length bs)) s'
     \<or> pipewrite 0x87001000 0x1FFE 3 (demo_pipe demo_q) = Sleep s') \<and> ubytes demo_um 0x87FFF000 0x1FFE bs"
  using pipewrite_appends [of "demo_pipe demo_q" 0 "0x87001000" demo_q demo_lab "0x1FFE" 3] demo_um_wf demo_q_ok
  by (simp add: Let_def) blast

theorem piperead_takes_witness:
  "\<exists>m s'. piperead 0x87001000 0x1000 8 (demo_pipe (pipe_put 9 (pipe_put 7 demo_q))) = Ok 2 s'
    \<and> ubyte (mem s') 0x87FFF000 0x1000 = Some 7 \<and> ubyte (mem s') 0x87FFF000 0x1001 = Some 9"
proof -
  let ?q = "pipe_put 9 (pipe_put 7 demo_q)"
  have q: "pipe_ok ?q" "pipe_content ?q = [7, 9]" using pq.put_many [OF demo_q_ok(1), of "[7, 9]"] demo_q_ok(2) by simp_all
  have m: "ubyte demo_um 0x87FFF000 0x1000 \<noteq> None" "ubyte demo_um 0x87FFF000 0x1001 \<noteq> None"
    by (simp_all add: ubyte_def demo_um_user_pa vpn_def unat_PGROUNDDOWN)
  obtain bs lost q' ps m where r: "piperead 0x87001000 0x1000 8 (demo_pipe ?q) =
      Ok (int (length bs)) ((demo_pipe ?q)\<lparr>procs := ps, pipes := (pipes (demo_pipe ?q))(0x87001000 \<mapsto> q'), mem := m\<rparr>)"
    "[7, 9] = bs @ lost @ pipe_content q'"
    "\<forall>x. ubyte m 0x87FFF000 x = (if unat (x - 0x1000) < length bs then Some (bs ! unat (x - 0x1000)) else ubyte demo_um 0x87FFF000 x)"
    "lost = [] \<and> (length bs = 8 \<or> pipe_content q' = []) \<or> length lost = 1 \<and> length bs < 8 \<and> ubyte demo_um 0x87FFF000 (0x1000 + of_nat (length bs)) = None"
    using piperead_takes [of "demo_pipe ?q" 0 "0x87001000" ?q demo_lab "0x1000" 8] demo_um_inv q
    by (auto simp: Let_def)
  have l2: "length bs \<le> 2" using arg_cong [OF r(2), of length] by simp
  have "lost = []"
  proof (rule ccontr)
    assume "lost \<noteq> []"
    then have lo: "length lost = 1" "ubyte demo_um 0x87FFF000 (0x1000 + of_nat (length bs)) = None" using r(4) by auto
    then have "length bs \<le> 1" using arg_cong [OF r(2), of length] by simp
    then have "length bs = 0 \<or> length bs = 1" by linarith
    then show False
    proof
      assume "length bs = 0"
      then show False using lo(2) m(1) by simp
    next
      assume "length bs = 1"
      then show False using lo(2) m(2) by simp
    qed
  qed
  then have "bs = [7, 9]" using r(2,4) l2 by auto
  then show ?thesis using r(1,3) by (intro exI) auto
qed

end
