(* ===== verification/Console_Buf.thy ===== *)
theory Console_Buf
  imports Demo Ring
begin

text \<open>
  The buffers of the serial line and the console.  Bytes leave the UART in the order
  \<^verbatim>\<open>uartputc\<close> got them; \<^verbatim>\<open>consoleintr\<close> edits the line being typed and hands complete lines
  to the readers; \<^verbatim>\<open>printint\<close> prints the number it is given and stays within its buffer.
\<close>

section \<open>The transmit queue\<close>

definition uart_ok :: "'a kcons_scheme \<Rightarrow> bool" where
  "uart_ok s \<longleftrightarrow> length (uart_tx_buf s) = UART_TX_BUF_SIZE \<and> unat (uart_tx_w s - uart_tx_r s) \<le> UART_TX_BUF_SIZE"

definition uart_content :: "'a kcons_scheme \<Rightarrow> u8 list" where
  "uart_content s = ring (uart_tx_buf s) (uart_tx_r s) (uart_tx_w s)"

text \<open>The bytes the driver has put into the transmit register.\<close>

definition uart_sent :: "'a kcons_scheme \<Rightarrow> u8 list" where
  "uart_sent s = map snd (filter (\<lambda>(reg, v). reg = THR) (uart_wr s))"

abbreviation uart_put :: "u8 \<Rightarrow> 'a kcons_scheme \<Rightarrow> 'a kcons_scheme" where
  "uart_put c s \<equiv> s\<lparr>uart_tx_buf := (uart_tx_buf s)[unat (uart_tx_w s) mod UART_TX_BUF_SIZE := c], uart_tx_w := uart_tx_w s + 1\<rparr>"

abbreviation uart_front :: "'a kcons_scheme \<Rightarrow> u8" where
  "uart_front s \<equiv> uart_tx_buf s ! (unat (uart_tx_r s) mod UART_TX_BUF_SIZE)"

abbreviation uart_get :: "'a kcons_scheme \<Rightarrow> 'a kcons_scheme" where
  "uart_get s \<equiv> s\<lparr>uart_tx_r := uart_tx_r s + 1\<rparr>"

lemma uart_put_law:
  assumes "uart_ok s" and "length (uart_content s) < UART_TX_BUF_SIZE"
  shows "uart_ok (uart_put c s) \<and> uart_content (uart_put c s) = uart_content s @ [c]"
proof
  have d: "unat (uart_tx_w s - uart_tx_r s) < 32" using assms(2) by (simp add: uart_content_def)
  then show "uart_ok (uart_put c s)" using assms(1) unat_suc_diff [of "uart_tx_w s" "uart_tx_r s"] by (simp add: uart_ok_def)
  show "uart_content (uart_put c s) = uart_content s @ [c]"
    using ring_put [of "uart_tx_buf s" "uart_tx_w s" "uart_tx_r s" c] assms(1) d by (simp add: uart_ok_def uart_content_def)
qed

lemma uart_get_law:
  assumes "uart_ok s" and "uart_content s \<noteq> []"
  shows "uart_ok (uart_get s) \<and> uart_content s = uart_front s # uart_content (uart_get s)"
proof
  have ne: "uart_tx_w s \<noteq> uart_tx_r s" using assms(2) by (auto simp: uart_content_def)
  then show "uart_ok (uart_get s)" using assms(1) unat_pred_diff [OF ne] by (auto simp: uart_ok_def)
  show "uart_content s = uart_front s # uart_content (uart_get s)"
    using ring_get [of "uart_tx_buf s" "uart_tx_w s" "uart_tx_r s"] assms(1) ne by (simp add: uart_ok_def uart_content_def)
qed

interpretation uq: fifo uart_ok uart_content UART_TX_BUF_SIZE uart_put uart_front uart_get
  by unfold_locales (rule uart_put_law uart_get_law, assumption, assumption)+

text \<open>The driver may wake sleepers: it holds no process lock.\<close>

definition can_wake :: "'a kcore_scheme \<Rightarrow> bool" where
  "can_wake s \<longleftrightarrow> (\<forall>i. LProc i \<notin> set (held s)) \<and> length (procs s) = NPROC"

lemma can_wake_Ok: "can_wake s \<Longrightarrow> wakeup ch s = Ok () (s\<lparr>procs := woken ch (curproc s) (procs s)\<rparr>)"
  by (simp add: can_wake_def wakeup_Ok)

lemma uart_content_frame [simp]:
  "uart_content (s\<lparr>procs := x\<rparr>) = uart_content s" "uart_content (s\<lparr>uart_wr := y\<rparr>) = uart_content s"
  "uart_content (s\<lparr>uart_rd := z\<rparr>) = uart_content s" "uart_content (s\<lparr>held := h\<rparr>) = uart_content s"
  "uart_ok (s\<lparr>procs := x\<rparr>) = uart_ok s" "uart_ok (s\<lparr>uart_wr := y\<rparr>) = uart_ok s"
  "uart_ok (s\<lparr>uart_rd := z\<rparr>) = uart_ok s" "uart_ok (s\<lparr>held := h\<rparr>) = uart_ok s"
  by (simp_all add: uart_content_def uart_ok_def)

lemma uart_sent_frame [simp]:
  "uart_sent (s\<lparr>procs := x\<rparr>) = uart_sent s" "uart_sent (s\<lparr>uart_rd := z\<rparr>) = uart_sent s" "uart_sent (s\<lparr>held := h\<rparr>) = uart_sent s"
  "uart_sent (s\<lparr>uart_tx_r := r\<rparr>) = uart_sent s" "uart_sent (s\<lparr>uart_tx_buf := b, uart_tx_w := w\<rparr>) = uart_sent s"
  "uart_sent (s\<lparr>uart_wr := uart_wr s @ [(THR, c)]\<rparr>) = uart_sent s @ [c]"
  by (simp_all add: uart_sent_def)

definition idle_read :: "u8 \<Rightarrow> bool" where
  "idle_read v \<longleftrightarrow> v AND LSR_TX_IDLE \<noteq> 0"

lemma uartstart_loop_law:
  assumes "uart_ok s" and "can_wake s" and "length (uart_content s) < k"
  shows "\<exists>s'. uartstart_loop k s = Ok () s' \<and> uart_ok s' \<and> can_wake s' \<and> held s' = held s \<and>
    uart_sent s' @ uart_content s' = uart_sent s @ uart_content s \<and> length (uart_content s') \<le> length (uart_content s) \<and>
    (length (uart_content s) \<le> length (uart_rd s) \<and> (\<forall>v \<in> set (uart_rd s). idle_read v) \<longrightarrow> uart_content s' = [])"
  using assms
proof (induction k arbitrary: s)
  case 0
  then show ?case by simp
next
  case (Suc k)
  let ?ctr = "uart_tx_w s = uart_tx_r s"
  have empty: "?ctr \<longleftrightarrow> uart_content s = []" by (simp add: uart_content_def ring_empty)
  consider (empty) "uart_content s = []" | (none) "uart_content s \<noteq> []" "uart_rd s = []"
    | (busy) v vs where "uart_content s \<noteq> []" "uart_rd s = v # vs" "\<not> idle_read v"
    | (go) v vs where "uart_content s \<noteq> []" "uart_rd s = v # vs" "idle_read v" by (cases "uart_rd s") blast+
  then show ?case
  proof cases
    case empty
    then show ?thesis using Suc.prems \<open>?ctr \<longleftrightarrow> _\<close> by (intro exI [of _ s]) (simp add: run_kbind)
  next
    case none
    then show ?thesis using Suc.prems \<open>?ctr \<longleftrightarrow> _\<close> by (intro exI [of _ s]) (simp add: run_kbind ReadReg_def)
  next
    case busy
    then show ?thesis using Suc.prems \<open>?ctr \<longleftrightarrow> _\<close>
      by (intro exI [of _ "s\<lparr>uart_rd := vs\<rparr>"]) (simp add: run_kbind ReadReg_def idle_read_def can_wake_def)
  next
    case go
    note g = uq.get_law [OF Suc.prems(1) go(1)]
    define t where "t = s\<lparr>uart_rd := vs, uart_tx_r := uart_tx_r s + 1, procs := woken ChUart (curproc s) (procs s), uart_wr := uart_wr s @ [(THR, uart_front s)]\<rparr>"
    have run: "uartstart_loop (Suc k) s = uartstart_loop k t"
      using go Suc.prems(2) \<open>?ctr \<longleftrightarrow> _\<close>
      by (simp add: run_kbind run_kthen ReadReg_def WriteReg_def idle_read_def can_wake_def wakeup_Ok t_def)
    have t: "uart_ok t" "uart_content t = uart_content (uart_get s)" "can_wake t" "held t = held s" "uart_rd t = vs"
      using g Suc.prems(2) by (simp_all add: t_def uart_ok_def uart_content_def can_wake_def)
    have sent: "uart_sent t = uart_sent s @ [uart_front s]" by (simp add: t_def uart_sent_def)
    have less: "length (uart_content t) < k" using g t(2) Suc.prems(3) by (metis length_Cons not_less_eq less_Suc_eq)
    obtain s' where s': "uartstart_loop k t = Ok () s'" "uart_ok s'" "can_wake s'" "held s' = held t"
      "uart_sent s' @ uart_content s' = uart_sent t @ uart_content t" "length (uart_content s') \<le> length (uart_content t)"
      "length (uart_content t) \<le> length (uart_rd t) \<and> (\<forall>v \<in> set (uart_rd t). idle_read v) \<longrightarrow> uart_content s' = []"
      using Suc.IH [OF t(1,3) less] by blast
    have c: "uart_content s = uart_front s # uart_content t" using g t(2) by simp
    show ?thesis unfolding run
      by (intro exI [of _ s']) (use s' t sent c go in \<open>simp del: uartstart_loop.simps\<close>)
  qed
qed

text \<open>
  C21. \<^verbatim>\<open>uartstart\<close> returns on every device, and the bytes go out in order: what has been sent
  followed by what is still queued does not change.  A device that is idle whenever it is asked gets
  all of them.
\<close>

theorem uartstart_in_order:
  assumes "uart_ok s" and "can_wake s"
  shows "\<exists>s'. uartstart s = Ok () s' \<and> uart_ok s' \<and> held s' = held s \<and>
    uart_sent s' @ uart_content s' = uart_sent s @ uart_content s \<and>
    (length (uart_content s) \<le> length (uart_rd s) \<and> (\<forall>v \<in> set (uart_rd s). v AND LSR_TX_IDLE \<noteq> 0) \<longrightarrow>
      uart_content s' = [] \<and> uart_sent s' = uart_sent s @ uart_content s)"
proof -
  have "uartstart s = uartstart_loop (length (uart_content s) + 1) s"
    by (simp add: uartstart_def run_kbind uart_content_def)
  then show ?thesis using uartstart_loop_law [OF assms, of "length (uart_content s) + 1"]
    by (auto simp: idle_read_def simp del: uartstart_loop.simps)
qed

text \<open>
  C24. \<^verbatim>\<open>uartputc\<close> sleeps exactly when the transmit buffer is full; otherwise its byte joins the end
  of the stream and the buffer never holds more than it can.
\<close>

theorem uartputc_queues:
  assumes "uart_ok s" and "can_wake s" and "held s = []" and "\<not> panicked s" and "curproc s = Some p" and "p < NPROC"
  shows "if length (uart_content s) = UART_TX_BUF_SIZE
    then uartputc c s = Sleep (s\<lparr>held := [LProc p], procs := (procs s)[p := (procs s ! p)\<lparr>p_chan := ChUart, p_state := SLEEPING\<rparr>]\<rparr>)
    else \<exists>s'. uartputc c s = Ok () s' \<and> uart_ok s' \<and> held s' = [] \<and>
      uart_sent s' @ uart_content s' = uart_sent s @ uart_content s @ [c]"
proof -
  have full: "uart_tx_w s = uart_tx_r s + 32 \<longleftrightarrow> length (uart_content s) = UART_TX_BUF_SIZE"
    using ring_full [of UART_TX_BUF_SIZE "uart_tx_w s" "uart_tx_r s"] by (simp add: uart_content_def)
  show ?thesis
  proof (cases "length (uart_content s) = UART_TX_BUF_SIZE")
    case True
    then show ?thesis using assms full
      by (simp add: uartputc_def uartputc_turn_def run_simps sleep_def sched_def can_wake_def)
  next
    case False
    let ?s = "uart_put c (s\<lparr>held := [LUart]\<rparr>)"
    have lt: "length (uart_content s) < UART_TX_BUF_SIZE" using False assms(1) by (simp add: uart_ok_def uart_content_def)
    then have put: "uart_ok ?s" "uart_content ?s = uart_content s @ [c]"
      using uq.put_law [of "s\<lparr>held := [LUart]\<rparr>" c] assms(1) by simp_all
    have cw: "can_wake ?s" using assms(2) by (simp add: can_wake_def)
    have st: "uartstart ?s = uartstart_loop (length (uart_content ?s) + 1) ?s"
      by (simp add: uartstart_def run_kbind uart_content_def)
    obtain s' where s': "uartstart ?s = Ok () s'" "uart_ok s'" "held s' = [LUart]"
        "uart_sent s' @ uart_content s' = uart_sent s @ uart_content s @ [c]"
      unfolding st using uartstart_loop_law [OF put(1) cw, of "length (uart_content ?s) + 1"] put(2)
      by (auto simp del: uartstart_loop.simps)
    have "uartputc c s = Ok () (s'\<lparr>held := []\<rparr>)"
      using assms full False s'(1,3) by (simp add: uartputc_def uartputc_turn_def run_simps)
    then show ?thesis using False s' by simp
  qed
qed

theorem uartstart_in_order_witness:
  "\<exists>s'. uartstart (demo_cons\<lparr>uart_tx_buf := [1, 2] @ replicate 30 0, uart_tx_w := 2, uart_rd := [0x60, 0x20]\<rparr>) = Ok () s' \<and> uart_sent s' = [1, 2]"
proof -
  let ?s = "demo_cons\<lparr>uart_tx_buf := [1, 2] @ replicate 30 0, uart_tx_w := 2, uart_rd := [0x60, 0x20]\<rparr>"
  have "uart_ok ?s" "can_wake ?s" by (simp_all add: uart_ok_def can_wake_def)
  moreover have "uart_content ?s = [1, 2]" by (simp add: uart_content_def ring_def upt_rec)
  moreover have "uart_sent ?s = []" by (simp add: uart_sent_def)
  ultimately show ?thesis using uartstart_in_order [of ?s] by (auto simp: LSR_TX_IDLE_def)
qed

theorem uartputc_queues_witness: "\<exists>s'. uartputc 65 demo_cons = Ok () s' \<and> uart_sent s' @ uart_content s' = [65]"
proof -
  have "uart_ok demo_cons" "can_wake demo_cons" by (simp_all add: uart_ok_def can_wake_def)
  moreover have "uart_content demo_cons = []" "uart_sent demo_cons = []" by (simp_all add: uart_content_def uart_sent_def)
  ultimately show ?thesis using uartputc_queues [of demo_cons 0 65] by auto
qed
section \<open>Line editing\<close>

type_synonym cview = "u8 list \<times> u32 \<times> u32 \<times> u32"

definition cons_view :: "'a kcons_scheme \<Rightarrow> cview" where
  "cons_view s = (cons_buf s, cons_r s, cons_w s, cons_e s)"

lemma keeps_kmodI: "(\<And>s. P s \<Longrightarrow> P (f s)) \<Longrightarrow> keeps P (kmod f)"
  by (auto simp: keeps_def)

lemma keeps_view_acquire: "keeps (\<lambda>s. cons_view s = v) (acquire lk)"
  by (auto simp: keeps_def acquire_def cons_view_def split: if_splits)

lemma keeps_view_release: "keeps (\<lambda>s. cons_view s = v) (release lk)"
  by (auto simp: keeps_def release_def cons_view_def split: if_splits)

lemma keeps_view_wakeup: "keeps (\<lambda>s. cons_view s = v) (wakeup ch)"
  unfolding wakeup_def wakeup_one_def set_proc_def myproc_def
  by (intro keeps_intros keeps_view_acquire keeps_view_release keeps_kmodI) (simp_all add: cons_view_def)

lemma keeps_view_putc: "keeps (\<lambda>s. cons_view s = v) (uartputc_sync c)"
  unfolding uartputc_sync_def WriteReg_def
  by (intro keeps_intros keeps_Hang keeps_kmodI) (auto simp: keeps_def cons_view_def split: option.splits)

lemma keeps_view_consputc: "keeps (\<lambda>s. cons_view s = v) (consputc c)"
  unfolding consputc_def by (intro keeps_intros keeps_view_putc)

lemma keeps_view_puts: "keeps (\<lambda>s. cons_view s = v) (consputs cs)"
  by (induction cs) (auto intro!: keeps_intros keeps_view_consputc simp: keeps_Ok)

lemma keeps_view_conv: "keeps (\<lambda>s. cons_view s = v) (print_conv c args)"
  unfolding print_conv_def printint_def printptr_def bad_va_arg_def
  by (auto intro!: keeps_intros keeps_view_consputc keeps_view_puts split: list.split fmtarg.split)

lemma keeps_view_printf_loop: "keeps (\<lambda>s :: 'a kcons_scheme. cons_view s = v) (printf_loop f args)"
proof (induction f args rule: printf_loop.induct)
  case (1 args)
  show ?case unfolding printf_loop.simps by (rule keeps_kret)
next
  case (2 c cs args)
  have percent: "keeps (\<lambda>s :: 'a kcons_scheme. cons_view s = v) (case cs of [] \<Rightarrow> kret ()
      | d # ds \<Rightarrow> if d = 0 then kret () else kbind (print_conv d args) (printf_loop ds))" if "c \<noteq> 0" "\<not> c \<noteq> 37"
  proof (cases cs)
    case Nil
    then show ?thesis by (simp only: list.case keeps_kret)
  next
    case (Cons d ds)
    then show ?thesis using that "2.IH"(2) [OF _ _ Cons] by (simp only: list.case) (intro keeps_intros keeps_view_conv; simp)
  qed
  show ?case unfolding printf_loop.simps
    by (intro keeps_if keeps_kret keeps_kthen keeps_view_consputc) (use 2 percent in simp_all)
qed

lemma keeps_view_printf: "keeps (\<lambda>s. cons_view s = v) (printf f args)"
  unfolding printf_def
  by (auto intro!: keeps_intros keeps_view_acquire keeps_view_release keeps_view_printf_loop split: option.split)

lemma keeps_view_procdump: "keeps (\<lambda>s. cons_view s = v) procdump"
  unfolding procdump_def procdump_one_def by (auto intro!: keeps_intros keeps_view_printf)

lemma view_kept: "keeps (\<lambda>s. cons_view s = cons_view t) m \<Longrightarrow> m t = Ok a s' \<Longrightarrow> cons_view s' = cons_view t"
  by (drule keepsD [where s = t and a = a and s' = s'], simp_all)

text \<open>What has been entered, and the line being typed.\<close>

definition committed :: "cview \<Rightarrow> u8 list" where
  "committed = (\<lambda>(buf, r, w, e). ring buf r w)"

definition typing :: "cview \<Rightarrow> u8 list" where
  "typing = (\<lambda>(buf, r, w, e). ring buf w e)"

definition view_ok :: "cview \<Rightarrow> bool" where
  "view_ok = (\<lambda>(buf, r, w, e). length buf = INPUT_BUF \<and> unat (w - r) \<le> unat (e - r) \<and> unat (e - r) \<le> INPUT_BUF \<and> 10 \<notin> set (ring buf w e))"

abbreviation cons_ok :: "'a kcons_scheme \<Rightarrow> bool" where "cons_ok s \<equiv> view_ok (cons_view s)"
abbreviation cons_abs :: "'a kcons_scheme \<Rightarrow> u8 list \<times> u8 list" where
  "cons_abs s \<equiv> (committed (cons_view s), typing (cons_view s))"

text \<open>The line discipline: the effect of one typed character.\<close>

definition edit_step :: "int \<Rightarrow> u8 list \<times> u8 list \<Rightarrow> u8 list \<times> u8 list" where
  "edit_step c = (\<lambda>(entered, line).
     if c = Ctrl CHR ''P'' then (entered, line)
     else if c = Ctrl CHR ''U'' then (entered, [])
     else if c = Ctrl CHR ''H'' \<or> c = 127 then (entered, butlast line)
     else if c = 0 \<or> INPUT_BUF \<le> length entered + length line then (entered, line)
     else let ch = (if c = 13 then 10 else c); line' = line @ [of_int ch] in
       if ch = 10 \<or> ch = Ctrl CHR ''D'' \<or> length entered + length line' = INPUT_BUF then (entered @ line', [])
       else (entered, line'))"

lemma view_lengths:
  assumes "view_ok (buf, r, w, e)"
  shows "unat (e - w) = unat (e - r) - unat (w - r)" and "ring buf r e = ring buf r w @ ring buf w e"
  using ring_split [of buf w r e] assms by (simp_all add: view_ok_def)

lemma view_push:
  assumes v: "view_ok (buf, r, w, e)" and room: "unat (e - r) < INPUT_BUF" and x: "x \<noteq> 10"
  shows "view_ok (buf[unat e mod INPUT_BUF := x], r, w, e + 1)"
    and "committed (buf[unat e mod INPUT_BUF := x], r, w, e + 1) = committed (buf, r, w, e)"
    and "typing (buf[unat e mod INPUT_BUF := x], r, w, e + 1) = typing (buf, r, w, e) @ [x]"
proof -
  have lens: "length buf = 128" "unat (w - r) \<le> unat (e - r)" using v by (simp_all add: view_ok_def)
  have ew: "unat (e - w) \<le> unat (e - r)" using view_lengths(1) [OF v] by simp
  have d: "unat (e + 1 - r) = unat (e - r) + 1" by (rule unat_suc_diff) (use room in simp)
  have t: "ring (buf[unat e mod 128 := x]) w (e + 1) = ring buf w e @ [x]"
    using ring_put [of buf e w x] lens ew room by simp
  have a: "ring (buf[unat e mod 128 := x]) r (e + 1) = ring buf r e @ [x]"
    using ring_put [of buf e r x] lens room by simp
  have "ring (buf[unat e mod 128 := x]) r (e + 1) = ring (buf[unat e mod 128 := x]) r w @ ring (buf[unat e mod 128 := x]) w (e + 1)"
    using ring_split [of "buf[unat e mod 128 := x]" w r "e + 1"] lens d by simp
  then have c: "ring (buf[unat e mod 128 := x]) r w = ring buf r w" using a t view_lengths(2) [OF v] by simp
  show "committed (buf[unat e mod INPUT_BUF := x], r, w, e + 1) = committed (buf, r, w, e)" using c by (simp add: committed_def)
  show "typing (buf[unat e mod INPUT_BUF := x], r, w, e + 1) = typing (buf, r, w, e) @ [x]" using t by (simp add: typing_def)
  show "view_ok (buf[unat e mod INPUT_BUF := x], r, w, e + 1)" using v room d t x by (simp add: view_ok_def)
qed

lemma view_enter:
  assumes v: "view_ok (buf, r, w, e)" and room: "unat (e - r) < INPUT_BUF"
  shows "view_ok (buf[unat e mod INPUT_BUF := x], r, e + 1, e + 1)"
    and "committed (buf[unat e mod INPUT_BUF := x], r, e + 1, e + 1) = committed (buf, r, w, e) @ typing (buf, r, w, e) @ [x]"
    and "typing (buf[unat e mod INPUT_BUF := x], r, e + 1, e + 1) = []"
proof -
  have lens: "length buf = 128" using v by (simp add: view_ok_def)
  have d: "unat (e + 1 - r) = unat (e - r) + 1" by (rule unat_suc_diff) (use room in simp)
  show "view_ok (buf[unat e mod INPUT_BUF := x], r, e + 1, e + 1)" using lens d room by (simp add: view_ok_def)
  show "typing (buf[unat e mod INPUT_BUF := x], r, e + 1, e + 1) = []" by (simp add: typing_def)
  show "committed (buf[unat e mod INPUT_BUF := x], r, e + 1, e + 1) = committed (buf, r, w, e) @ typing (buf, r, w, e) @ [x]"
    using ring_put [of buf e r x] lens room view_lengths(2) [OF v] by (simp add: committed_def typing_def)
qed

lemma view_erase:
  assumes v: "view_ok (buf, r, w, e)" and ne: "e \<noteq> w"
  shows "view_ok (buf, r, w, e - 1)" and "committed (buf, r, w, e - 1) = committed (buf, r, w, e)"
    and "typing (buf, r, w, e - 1) = butlast (typing (buf, r, w, e))"
proof -
  have "0 < unat (e - w)" using unat_pred_diff [OF ne] by simp
  then have lt: "unat (w - r) < unat (e - r)" using view_lengths(1) [OF v] by simp
  then have "e \<noteq> r" by auto
  note d = unat_pred_diff [OF this]
  have t: "ring buf w (e - 1) = butlast (ring buf w e)" by (rule ring_drop_last [OF ne])
  show "typing (buf, r, w, e - 1) = butlast (typing (buf, r, w, e))" using t by (simp add: typing_def)
  show "committed (buf, r, w, e - 1) = committed (buf, r, w, e)" by (simp add: committed_def)
  show "view_ok (buf, r, w, e - 1)" using v d lt t by (auto simp: view_ok_def dest: in_set_butlastD)
qed

lemma typing_last:
  assumes "view_ok (buf, r, w, e)" and "e \<noteq> w"
  shows "buf ! (unat (e - 1) mod INPUT_BUF) \<noteq> 10"
proof -
  have l: "length buf = 128" and n: "10 \<notin> set (ring buf w e)" using assms(1) by (simp_all add: view_ok_def)
  note d = unat_pred_diff [OF assms(2)]
  have "unat (e - 1) mod 128 = (unat w + (unat (e - w) - 1)) mod 128" using index_w [of 128 "e - 1" w] d(2) by simp
  then have "buf ! (unat (e - 1) mod 128) = ring buf w e ! (unat (e - w) - 1)" using d l by (simp add: nth_ring)
  moreover have "ring buf w e ! (unat (e - w) - 1) \<in> set (ring buf w e)" using d by (intro nth_mem) simp
  ultimately show ?thesis using n by auto
qed

lemma cons_view_set: "cons_view (s\<lparr>cons_e := x\<rparr>) = (case cons_view s of (b, r, w, e) \<Rightarrow> (b, r, w, x))"
  by (simp add: cons_view_def)

lemma killline_view:
  assumes "killline k s = Ok () s'" and "cons_ok s"
  shows "cons_ok s' \<and> cons_abs s' = (committed (cons_view s), [])"
  using assms
proof (induction k arbitrary: s)
  case 0
  then show ?case by simp
next
  case (Suc k)
  obtain b r w e where v: "cons_view s = (b, r, w, e)" by (cases "cons_view s") auto
  have f: "cons_buf s = b" "cons_r s = r" "cons_w s = w" "cons_e s = e" using v by (simp_all add: cons_view_def)
  show ?case
  proof (cases "e = w")
    case True
    then have "s' = s" using Suc.prems(1) f by (simp add: run_kbind)
    then show ?thesis using Suc.prems(2) v True by (simp add: typing_def)
  next
    case False
    have nl: "b ! (unat (e - 1) mod 128) \<noteq> 10" using typing_last [of b r w e] Suc.prems(2) False v by simp
    let ?t = "s\<lparr>cons_e := e - 1\<rparr>"
    obtain u t where t: "consputc BACKSPACE ?t = Ok u t" "killline k t = Ok () s'"
      using Suc.prems(1) f False nl by (auto simp: run_kbind run_kthen split: out.splits)
    have vt: "cons_view t = (b, r, w, e - 1)"
      using view_kept [OF keeps_view_consputc t(1)] v by (simp add: cons_view_set)
    note er = view_erase [of b r w e, folded v, OF Suc.prems(2) False]
    show ?thesis using Suc.IH [OF t(2)] er vt by simp
  qed
qed

lemma cons_input_view:
  assumes "cons_input c s = Ok () s'" and "cons_ok s" and "0 \<le> c" and "c < 256"
    and "c \<noteq> Ctrl CHR ''P''" and "c \<noteq> Ctrl CHR ''U''" and "c \<noteq> Ctrl CHR ''H''" and "c \<noteq> 127"
  shows "cons_ok s' \<and> cons_abs s' = edit_step c (cons_abs s)"
proof -
  obtain b r w e where v: "cons_view s = (b, r, w, e)" by (cases "cons_view s") auto
  have f: "cons_buf s = b" "cons_r s = r" "cons_w s = w" "cons_e s = e" using v by (simp_all add: cons_view_def)
  have ok: "view_ok (b, r, w, e)" using assms(2) v by simp
  have room: "e - r < 128 \<longleftrightarrow> unat (e - r) < 128" by (simp add: word_less_nat_alt)
  have tot: "length (committed (b, r, w, e)) + length (typing (b, r, w, e)) = unat (e - r)"
    using view_lengths [OF ok] ok by (simp add: committed_def typing_def view_ok_def)
  show ?thesis
  proof (cases "c = 0 \<or> \<not> unat (e - r) < 128")
    case True
    then have "s' = s" using assms(1) f room by (auto simp: cons_input_def run_kbind)
    then show ?thesis using True tot assms v by (auto simp: edit_step_def)
  next
    case False
    then have lt: "unat (e - r) < INPUT_BUF" and c0: "c \<noteq> 0" by simp_all
    define ch where "ch = (if c = 13 then 10 else c)"
    define b' where "b' = b[unat e mod INPUT_BUF := of_int ch]"
    have nl: "(of_int ch :: u8) \<noteq> 10" if "ch \<noteq> 10"
    proof
      assume "(of_int ch :: u8) = 10"
      then have "uint (of_int ch :: u8) = 10" by simp
      then show False using that assms(3,4) by (auto simp: ch_def uint_word_of_int split: if_splits)
    qed
    have d: "unat (e + 1 - r) = unat (e - r) + 1" by (rule unat_suc_diff) (use lt in simp)
    have full: "e + 1 = r + 128 \<longleftrightarrow> unat (e - r) + 1 = 128" using ring_full [of 128 "e + 1" r] d by simp
    obtain u t where t: "consputc ch s = Ok u t" using assms(1) f room False
      by (auto simp: cons_input_def run_kbind run_kthen ch_def Let_def split: out.splits if_splits)
    have vt: "cons_view t = (b, r, w, e)" using view_kept [OF keeps_view_consputc t] v by simp
    then have ft: "cons_buf t = b" "cons_r t = r" "cons_w t = w" "cons_e t = e" by (simp_all add: cons_view_def)
    let ?t = "t\<lparr>cons_buf := b', cons_e := e + 1\<rparr>"
    have go: "cons_input c s = (if ch = 10 \<or> ch = Ctrl CHR ''D'' \<or> e + 1 = r + 128 then wakeup ChCons (?t\<lparr>cons_w := e + 1\<rparr>) else Ok () ?t)"
      using f ft room False t by (auto simp: cons_input_def run_kbind run_kthen Let_def ch_def [symmetric] b'_def)
    show ?thesis
    proof (cases "ch = 10 \<or> ch = Ctrl CHR ''D'' \<or> e + 1 = r + 128")
      case True
      then have "wakeup ChCons (?t\<lparr>cons_w := e + 1\<rparr>) = Ok () s'" using go assms(1) by simp
      then have "cons_view s' = (b', r, e + 1, e + 1)"
        using view_kept [OF keeps_view_wakeup] ft by (fastforce simp: cons_view_def)
      then show ?thesis using view_enter [OF ok lt, of "of_int ch"] True full tot c0 lt assms(5-8) v
        by (auto simp: edit_step_def Let_def ch_def [symmetric] b'_def)
    next
      case no: False
      then have "s' = ?t" using go assms(1) by simp
      then have "cons_view s' = (b', r, w, e + 1)" using ft by (simp add: cons_view_def)
      then show ?thesis using view_push [OF ok lt nl] no full tot c0 lt assms(5-8) v
        by (auto simp: edit_step_def Let_def ch_def [symmetric] b'_def)
    qed
  qed
qed

text \<open>A device that says it is idle, for the next \<open>n\<close> questions at least.\<close>

definition uart_idle :: "nat \<Rightarrow> 'a kcons_scheme \<Rightarrow> bool" where
  "uart_idle n s \<longleftrightarrow> \<not> panicked s \<and> n \<le> length (uart_rd s) \<and> (\<forall>v \<in> set (uart_rd s). idle_read v)"

lemma putc_idle:
  assumes "uart_idle (Suc n) s"
  shows "\<exists>rd wr. uartputc_sync c s = Ok () (s\<lparr>uart_rd := rd, uart_wr := wr\<rparr>) \<and> uart_idle n (s\<lparr>uart_rd := rd, uart_wr := wr\<rparr>)"
proof -
  obtain v vs where v: "uart_rd s = v # vs" "idle_read v" using assms by (cases "uart_rd s") (auto simp: uart_idle_def)
  then have "uartputc_sync c s = Ok () (s\<lparr>uart_rd := vs, uart_wr := uart_wr s @ [(THR, of_int c)]\<rparr>)"
    using assms by (simp add: uartputc_sync_def uart_idle_def idle_read_def run_kbind run_kthen WriteReg_def)
  then show ?thesis using assms v(1) by (intro exI conjI) (assumption, simp add: uart_idle_def)
qed

lemma consputc_idle:
  assumes "uart_idle (n + 3) s"
  shows "\<exists>rd wr. consputc c s = Ok () (s\<lparr>uart_rd := rd, uart_wr := wr\<rparr>) \<and> uart_idle n (s\<lparr>uart_rd := rd, uart_wr := wr\<rparr>)"
proof (cases "c = BACKSPACE")
  case True
  have i: "uart_idle (Suc (Suc (Suc n))) s" using assms by (simp add: numeral_3_eq_3)
  obtain r1 w1 where 1: "uartputc_sync 8 s = Ok () (s\<lparr>uart_rd := r1, uart_wr := w1\<rparr>)" "uart_idle (Suc (Suc n)) (s\<lparr>uart_rd := r1, uart_wr := w1\<rparr>)"
    using putc_idle [OF i] by blast
  obtain r2 w2 where 2: "uartputc_sync 32 (s\<lparr>uart_rd := r1, uart_wr := w1\<rparr>) = Ok () (s\<lparr>uart_rd := r2, uart_wr := w2\<rparr>)" "uart_idle (Suc n) (s\<lparr>uart_rd := r2, uart_wr := w2\<rparr>)"
    using putc_idle [OF 1(2), of 32] by auto
  obtain r3 w3 where 3: "uartputc_sync 8 (s\<lparr>uart_rd := r2, uart_wr := w2\<rparr>) = Ok () (s\<lparr>uart_rd := r3, uart_wr := w3\<rparr>)" "uart_idle n (s\<lparr>uart_rd := r3, uart_wr := w3\<rparr>)"
    using putc_idle [OF 2(2), of 8] by auto
  show ?thesis using True 1 2 3 by (intro exI [of _ r3] exI [of _ w3]) (simp add: consputc_def run_kthen run_kbind)
next
  case False
  have "uart_idle (Suc n) s" using assms by (simp add: uart_idle_def)
  then show ?thesis using False putc_idle [of n s c] by (simp add: consputc_def)
qed

lemma killline_idle:
  assumes "uart_idle (3 * n) s" and "unat (cons_e s - cons_w s) \<le> n" and "n < k"
  shows "\<exists>rd wr e. killline k s = Ok () (s\<lparr>uart_rd := rd, uart_wr := wr, cons_e := e\<rparr>)"
  using assms
proof (induction k arbitrary: s n)
  case 0
  then show ?case by simp
next
  case (Suc k)
  show ?case
  proof (cases "cons_e s \<noteq> cons_w s \<and> cons_at (cons_e s - 1) s \<noteq> 10")
    case True
    let ?s = "s\<lparr>cons_e := cons_e s - 1\<rparr>"
    note d = unat_pred_diff [OF conjunct1 [OF True]]
    obtain m where n: "n = Suc m" using d Suc.prems(2) by (cases n) auto
    have "uart_idle (3 * m + 3) ?s" using Suc.prems(1) n by (simp add: uart_idle_def)
    then obtain rd wr where c: "consputc BACKSPACE ?s = Ok () (?s\<lparr>uart_rd := rd, uart_wr := wr\<rparr>)" "uart_idle (3 * m) (?s\<lparr>uart_rd := rd, uart_wr := wr\<rparr>)"
      using consputc_idle by blast
    have "unat (cons_e (?s\<lparr>uart_rd := rd, uart_wr := wr\<rparr>) - cons_w (?s\<lparr>uart_rd := rd, uart_wr := wr\<rparr>)) \<le> m"
      using d Suc.prems(2) n by simp
    from Suc.IH [OF c(2) this] Suc.prems(3) n obtain rd' wr' e' where
      "killline k (?s\<lparr>uart_rd := rd, uart_wr := wr\<rparr>) = Ok () (s\<lparr>uart_rd := rd', uart_wr := wr', cons_e := e'\<rparr>)" by auto
    then show ?thesis using True c(1) by (intro exI [of _ rd'] exI [of _ wr'] exI [of _ e']) (simp add: run_kbind run_kthen)
  next
    case False
    then have "killline (Suc k) s = Ok () s" by (auto simp: run_kbind)
    then show ?thesis by (intro exI [of _ "uart_rd s"] exI [of _ "uart_wr s"] exI [of _ "cons_e s"]) simp
  qed
qed

abbreviation intr_body :: "int \<Rightarrow> ('a kcons_scheme, unit) op" where
  "intr_body c \<equiv> if c = Ctrl CHR ''P'' then procdump
     else if c = Ctrl CHR ''U'' then kbind (kget (\<lambda>s. unat (cons_e s - cons_w s))) (\<lambda>n. killline (n + 1))
     else if c = Ctrl CHR ''H'' \<or> c = 127 then cons_backspace
     else cons_input c"

lemma intr_body_idle:
  assumes "uart_idle (3 * unat (cons_e s - cons_w s) + 3) s" and "can_wake s" and "c \<noteq> Ctrl CHR ''P''"
  shows "\<exists>s'. intr_body c s = Ok () s' \<and> held s' = held s"
proof -
  have i: "uart_idle (3 * unat (cons_e s - cons_w s)) s" "uart_idle (0 + 3) s" using assms(1) by (simp_all add: uart_idle_def)
  consider (kill) "c = Ctrl CHR ''U''" | (erase) "c \<noteq> Ctrl CHR ''U''" "c = Ctrl CHR ''H'' \<or> c = 127"
    | (input) "c \<noteq> Ctrl CHR ''U''" "\<not> (c = Ctrl CHR ''H'' \<or> c = 127)" by blast
  then show ?thesis
  proof cases
    case kill
    obtain rd wr e where "killline (unat (cons_e s - cons_w s) + 1) s = Ok () (s\<lparr>uart_rd := rd, uart_wr := wr, cons_e := e\<rparr>)"
      using killline_idle [OF i(1) order_refl, of "unat (cons_e s - cons_w s) + 1"] by auto
    then show ?thesis using kill assms(3) by (simp add: run_kbind del: killline.simps)
  next
    case erase
    have "uart_idle (0 + 3) (s\<lparr>cons_e := cons_e s - 1\<rparr>)" using i(2) by (simp add: uart_idle_def)
    from consputc_idle [OF this, of BACKSPACE] erase assms(3) show ?thesis
      by (auto simp: cons_backspace_def run_kbind run_kthen)
  next
    case input
    obtain rd wr where c: "consputc (if c = 13 then 10 else c) s = Ok () (s\<lparr>uart_rd := rd, uart_wr := wr\<rparr>)"
      using consputc_idle [OF i(2)] by blast
    have w: "wakeup ChCons t = Ok () (t\<lparr>procs := woken ChCons (curproc t) (procs t)\<rparr>)" if "held t = held s" "procs t = procs s" for t :: "'a kcons_scheme"
      using assms(2) that by (intro can_wake_Ok) (simp add: can_wake_def)
    show ?thesis using input assms(3) c w by (auto simp: cons_input_def run_kbind run_kthen Let_def)
  qed
qed

text \<open>
  C17. \<^verbatim>\<open>consoleintr\<close> implements the line discipline: whenever it returns, the entered input
  and the line being typed are what \<^const>\<open>edit_step\<close> makes of them, the counters stay in order and
  within the buffer, and a line being typed never contains a newline.  It returns for every character
  but \<^verbatim>\<open>^P\<close> if the UART is ready to send.
\<close>

theorem consoleintr_edits:
  assumes "cons_ok s" and "can_wake s" and "LCons \<notin> set (held s)" and "0 \<le> c" and "c < 256"
  shows "(\<forall>s'. consoleintr c s = Ok () s' \<longrightarrow> cons_ok s' \<and> cons_abs s' = edit_step c (cons_abs s)) \<and>
    (c \<noteq> Ctrl CHR ''P'' \<and> \<not> panicked s \<and> 3 * length (typing (cons_view s)) + 3 \<le> length (uart_rd s) \<and>
      (\<forall>v \<in> set (uart_rd s). v AND LSR_TX_IDLE \<noteq> 0) \<longrightarrow> (\<exists>s'. consoleintr c s = Ok () s'))"
proof (intro conjI allI impI)
  let ?s = "s\<lparr>held := LCons # held s\<rparr>"
  have vs: "cons_view ?s = cons_view s" by (simp add: cons_view_def)
  obtain b r w e where v: "cons_view s = (b, r, w, e)" by (cases "cons_view s") auto
  have f: "cons_e s = e" "cons_w s = w" using v by (simp_all add: cons_view_def)
  {
    fix s'
    assume "consoleintr c s = Ok () s'"
    then obtain t where t: "intr_body c ?s = Ok () t" "release LCons t = Ok () s'"
      using assms(3) by (auto simp: consoleintr_def kthen_eq_Ok acquire_Ok)
    have s': "cons_view s' = cons_view t" by (rule view_kept [OF keeps_view_release t(2)])
    have "view_ok (cons_view t) \<and> (committed (cons_view t), typing (cons_view t)) = edit_step c (cons_abs s)"
    proof -
      consider (dump) "c = Ctrl CHR ''P''" | (kill) "c = Ctrl CHR ''U''" "c \<noteq> Ctrl CHR ''P''"
        | (erase) "c = Ctrl CHR ''H'' \<or> c = 127" "c \<noteq> Ctrl CHR ''P''" "c \<noteq> Ctrl CHR ''U''"
        | (input) "c \<noteq> Ctrl CHR ''P''" "c \<noteq> Ctrl CHR ''U''" "c \<noteq> Ctrl CHR ''H''" "c \<noteq> 127" by blast
      then show ?thesis
      proof cases
        case dump
        then have "procdump ?s = Ok () t" using t(1) by simp
        from view_kept [OF keeps_view_procdump this] have "cons_view t = cons_view s" using vs by simp
        then show ?thesis using dump assms(1) by (simp add: edit_step_def)
      next
        case kill
        then have "killline (unat (e - w) + 1) ?s = Ok () t" using t(1) f by (simp add: run_kbind del: killline.simps)
        from killline_view [OF this] show ?thesis using kill assms(1) vs by (simp add: edit_step_def)
      next
        case erase
        show ?thesis
        proof (cases "e = w")
          case True
          then have "t = ?s" using erase t(1) f by (simp add: cons_backspace_def run_kbind)
          then show ?thesis using erase True assms(1) vs v by (auto simp: edit_step_def typing_def)
        next
          case False
          then have "consputc BACKSPACE (?s\<lparr>cons_e := e - 1\<rparr>) = Ok () t"
            using erase t(1) f by (simp add: cons_backspace_def run_kbind run_kthen)
          from view_kept [OF keeps_view_consputc this] have "cons_view t = (b, r, w, e - 1)" using v vs by (simp add: cons_view_set)
          then show ?thesis using erase view_erase [of b r w e] False assms(1) v by (auto simp: edit_step_def)
        qed
      next
        case input
        then have "cons_input c ?s = Ok () t" using t(1) by simp
        from cons_input_view [OF this] show ?thesis using input assms(1,4,5) vs by simp
      qed
    qed
    then show "cons_ok s'" "cons_abs s' = edit_step c (cons_abs s)" using s' by simp_all
  next
    assume a: "c \<noteq> Ctrl CHR ''P'' \<and> \<not> panicked s \<and> 3 * length (typing (cons_view s)) + 3 \<le> length (uart_rd s) \<and>
      (\<forall>v \<in> set (uart_rd s). v AND LSR_TX_IDLE \<noteq> 0)"
    have "uart_idle (3 * unat (cons_e ?s - cons_w ?s) + 3) ?s" using a v f by (simp add: uart_idle_def idle_read_def typing_def)
    moreover have "can_wake ?s" using assms(2) by (simp add: can_wake_def)
    ultimately obtain t where "intr_body c ?s = Ok () t" "held t = LCons # held s" using intr_body_idle [of ?s c] a by auto
    then show "\<exists>s'. consoleintr c s = Ok () s'"
      using assms(3) by (simp add: consoleintr_def kthen_eq_Ok acquire_Ok release_Ok)
  }
qed

theorem consoleintr_edits_witness:
  "\<exists>s'. consoleintr 13 (demo_cons\<lparr>cons_buf := [104, 105] @ replicate 126 0, cons_e := 2, uart_rd := replicate 9 0x20\<rparr>) = Ok () s'
    \<and> cons_abs s' = ([104, 105, 10], [])"
proof -
  let ?s = "demo_cons\<lparr>cons_buf := [104, 105] @ replicate 126 0, cons_e := 2, uart_rd := replicate 9 0x20\<rparr>"
  have v: "cons_view ?s = ([104, 105] @ replicate 126 0, 0, 0, 2)" by (simp add: cons_view_def)
  have t: "typing (cons_view ?s) = [104, 105]" "committed (cons_view ?s) = []"
    unfolding v by (simp_all add: typing_def committed_def ring_def upt_rec)
  have "ring ([104, 105 :: u8] @ replicate 126 0) 0 (2 :: u32) = [104, 105]" using t(1) unfolding v by (simp add: typing_def)
  then have ok: "cons_ok ?s" unfolding v view_ok_def by simp
  have "edit_step 13 (cons_abs ?s) = ([104, 105, 10], [])" unfolding t by (simp add: edit_step_def Ctrl_def of_char_def)
  moreover have "can_wake ?s" "LCons \<notin> set (held ?s)" by (simp_all add: can_wake_def)
  moreover have "(13 :: int) \<noteq> Ctrl CHR ''P''" by (simp add: Ctrl_def of_char_def)
  moreover have "\<not> panicked ?s" "3 * length (typing (cons_view ?s)) + 3 \<le> length (uart_rd ?s)" "\<forall>v \<in> set (uart_rd ?s). v AND LSR_TX_IDLE \<noteq> 0"
    unfolding t by (simp_all add: LSR_TX_IDLE_def)
  ultimately show ?thesis using consoleintr_edits [of ?s 13, OF ok] by auto
qed

end
