(* ===== verification/Console_Print.thy ===== *)
theory Console_Print
  imports Console
begin

text \<open>
  Numbers as \<^verbatim>\<open>printint\<close> of \<^verbatim>\<open>kernel/printf.c\<close> prints them, against the numeral they
  denote.
\<close>

definition digit_val :: "u8 \<Rightarrow> nat" where
  "digit_val c = (if c < 58 then unat c - 48 else unat c - 87)"

definition num_of :: "nat \<Rightarrow> u8 list \<Rightarrow> int" where
  "num_of base cs = (let num = \<lambda>ds. int (foldl (\<lambda>a c. a * base + digit_val c) 0 ds) in
     if cs \<noteq> [] \<and> hd cs = 45 then - num (tl cs) else num cs)"

lemma digits_value: "digits = [48, 49, 50, 51, 52, 53, 54, 55, 56, 57, 97, 98, 99, 100, 101, 102]"
  by (simp add: digits_def str_bytes_def of_char_def)

lemma digit_val_nth: "d < 16 \<Longrightarrow> digit_val (digits ! d) = d \<and> digits ! d \<noteq> 45"
proof -
  have "\<forall>d \<in> set [0..<16]. digit_val (digits ! d) = d \<and> digits ! d \<noteq> 45" by code_simp
  then show "d < 16 \<Longrightarrow> digit_val (digits ! d) = d \<and> digits ! d \<noteq> 45" by simp
qed

lemma printint_buf_value:
  assumes "2 \<le> base" and "base \<le> 16"
  shows "foldr (\<lambda>c a. a * base + digit_val c) (printint_buf base x) 0 = x"
  using assms
proof (induction base x rule: printint_buf.induct)
  case (1 base x)
  have d: "x mod base < 16" using 1(2,3) mod_less_divisor [of base x] by linarith
  show ?case
  proof (cases "x div base = 0")
    case True
    then have "x mod base = x" using 1(2) by (metis div_mult_mod_eq mult_zero_left add_0)
    then show ?thesis using True digit_val_nth [OF d] by (subst printint_buf.simps) simp
  next
    case False
    then have "foldr (\<lambda>c a. a * base + digit_val c) (printint_buf base (x div base)) 0 = x div base" using 1 by simp
    then show ?thesis using False digit_val_nth [OF d] 1(2) by (subst printint_buf.simps) simp
  qed
qed

lemma printint_buf_digits: "2 \<le> base \<Longrightarrow> base \<le> 16 \<Longrightarrow> 45 \<notin> set (printint_buf base x)"
proof (induction base x rule: printint_buf.induct)
  case (1 base x)
  have d: "x mod base < 16" using 1(2,3) mod_less_divisor [of base x] by linarith
  then have "digits ! (x mod base) \<noteq> 45" using digit_val_nth by blast
  then show ?case using 1 by (subst printint_buf.simps) auto
qed

lemma printint_buf_length: "2 \<le> base \<Longrightarrow> x < base ^ Suc k \<Longrightarrow> length (printint_buf base x) \<le> Suc k"
proof (induction k arbitrary: x)
  case 0
  then show ?case by (subst printint_buf.simps) simp
next
  case (Suc k)
  have "x div base < base ^ Suc k" using Suc.prems by (simp add: less_mult_imp_div_less mult.commute)
  then show ?case using Suc by (subst printint_buf.simps) (simp del: printint_buf.simps power_Suc)
qed

lemma printint_buf_nonempty: "printint_buf base x \<noteq> []"
  by (subst printint_buf.simps) simp

lemma num_of_rev_buf:
  assumes "2 \<le> base" and "base \<le> 16"
  shows "num_of base (rev (printint_buf base x)) = int x" and "num_of base (45 # rev (printint_buf base x)) = - int x"
proof -
  have h: "hd (rev (printint_buf base x)) \<noteq> 45"
    using printint_buf_digits [OF assms, of x] printint_buf_nonempty [of base x] by (metis hd_in_set rev_is_Nil_conv set_rev)
  have v: "foldl (\<lambda>a c. a * base + digit_val c) 0 (rev (printint_buf base x)) = x"
    using printint_buf_value [OF assms, of x] by (simp add: foldl_conv_foldr)
  show "num_of base (rev (printint_buf base x)) = int x" using h v by (simp add: num_of_def Let_def)
  show "num_of base (45 # rev (printint_buf base x)) = - int x" using v by (simp add: num_of_def Let_def)
qed

text \<open>
  C25. \<^verbatim>\<open>printint\<close> in base 10 or 16 prints the number it is given: read back as a signed numeral it
  is \<^verbatim>\<open>xx\<close>, and unsigned it is \<^verbatim>\<open>xx\<close> modulo \<open>2 ^ 32\<close>.  The characters fit in its
  buffer of 16 bytes, with the sign.
\<close>

theorem printint_prints:
  assumes "- (2 ^ 31) \<le> xx" and "xx < 2 ^ 31" and "base = 10 \<or> base = 16"
  shows "num_of base (printint_out xx base True) = xx \<and> num_of base (printint_out xx base False) = xx mod 2 ^ 32 \<and>
    length (printint_out xx base sign) \<le> 16"
proof -
  have b: "2 \<le> base" "base \<le> 16" using assms(3) by auto
  have neg: "int (unat (- (word_of_int xx :: u32))) = - xx" if "xx < 0"
  proof -
    have "int (unat (- (word_of_int xx :: u32))) = uint (word_of_int (- xx) :: u32)" by simp
    also have "\<dots> = - xx mod 2 ^ 32" by (simp only: uint_word_of_int) simp
    also have "\<dots> = - xx" using that assms(1) by simp
    finally show ?thesis .
  qed
  have pos: "int (unat (word_of_int xx :: u32)) = xx mod 2 ^ 32" by (simp add: uint_word_of_int)
  have small: "unat (w :: u32) < base ^ Suc 9" for w
  proof -
    have "unat w < 2 ^ 32" using unsigned_less [of w, where ?'a = nat] by simp
    also have "(2 :: nat) ^ 32 \<le> base ^ Suc 9" using assms(3) by auto
    finally show ?thesis .
  qed
  have len: "length (printint_buf base (unat (w :: u32))) \<le> 10" for w
    using printint_buf_length [OF b(1) small] by simp
  have "num_of base (printint_out xx base True) = xx"
  proof (cases "xx < 0")
    case True
    then show ?thesis using num_of_rev_buf(2) [OF b] neg by (simp add: printint_out_def Let_def del: printint_buf.simps)
  next
    case False
    then show ?thesis using num_of_rev_buf(1) [OF b] pos assms(2) by (simp add: printint_out_def Let_def del: printint_buf.simps)
  qed
  moreover have "num_of base (printint_out xx base False) = xx mod 2 ^ 32"
    using num_of_rev_buf(1) [OF b] pos by (simp add: printint_out_def Let_def del: printint_buf.simps)
  moreover have "length (printint_out xx base sign) \<le> 16"
    using len [of "- word_of_int xx"] len [of "word_of_int xx"] by (auto simp: printint_out_def Let_def simp del: printint_buf.simps)
  ultimately show ?thesis by blast
qed

theorem printint_prints_witness: "num_of 10 (printint_out (- 2147483648) 10 True) = - 2147483648"
  using printint_prints [of "- 2147483648" 10] by simp

end
