(* ===== verification/Proc_Sched.thy ===== *)
theory Proc_Sched
  imports Proc
begin

text \<open>
  The life of processes: what sleeping and waking, killing and reparenting do to the process
  table, and that the scheduler runs every process that can run.
\<close>

section \<open>Kill\<close>

lemma kill_loop_law:
  assumes "\<forall>i \<in> set is. LProc i \<notin> set (held s)"
  shows "kill_loop pid is s = (case find (\<lambda>i. p_pid (procs s ! i) = pid) is of None \<Rightarrow> Ok (- 1) s
    | Some i \<Rightarrow> Ok 0 (s\<lparr>procs := (procs s)[i := (let q = (procs s ! i)\<lparr>p_killed := True\<rparr> in
        if p_state q = SLEEPING then q\<lparr>p_state := RUNNABLE\<rparr> else q)]\<rparr>))"
  using assms
proof (induction "is")
  case Nil
  then show ?case by simp
next
  case (Cons i "is")
  then show ?case
    by (cases "i < length (procs s)") (simp_all add: run_simps Let_def list_update_beyond)
qed

text \<open>
  C31. \<^verbatim>\<open>kill\<close> marks the first process with the given pid and makes it runnable if it was sleeping;
  nothing else changes.  It returns -1, and changes nothing, when there is no such process.
\<close>

theorem kill_marks:
  assumes "\<forall>i. LProc i \<notin> set (held s)" and "length (procs s) = NPROC"
  shows "kill pid s = (if \<forall>q \<in> set (procs s). p_pid q \<noteq> pid then Ok (- 1) s
    else let i = (LEAST i. p_pid (procs s ! i) = pid); q = procs s ! i in
      Ok 0 (s\<lparr>procs := (procs s)[i := q\<lparr>p_killed := True, p_state := (if p_state q = SLEEPING then RUNNABLE else p_state q)\<rparr>]\<rparr>))"
proof -
  have run: "kill pid s = (case find (\<lambda>i. p_pid (procs s ! i) = pid) [0..<NPROC] of None \<Rightarrow> Ok (- 1) s
    | Some i \<Rightarrow> Ok 0 (s\<lparr>procs := (procs s)[i := (let q = (procs s ! i)\<lparr>p_killed := True\<rparr> in
        if p_state q = SLEEPING then q\<lparr>p_state := RUNNABLE\<rparr> else q)]\<rparr>))"
    unfolding kill_def by (rule kill_loop_law) (use assms in simp)
  show ?thesis
  proof (cases "find (\<lambda>i. p_pid (procs s ! i) = pid) [0..<NPROC]")
    case None
    then have "\<forall>i<NPROC. p_pid (procs s ! i) \<noteq> pid" by (simp add: find_None_iff)
    then have "\<forall>q \<in> set (procs s). p_pid q \<noteq> pid" using assms(2) by (metis in_set_conv_nth)
    then show ?thesis using run None by simp
  next
    case (Some i)
    then obtain j where j: "j < NPROC" "i = [0..<NPROC] ! j" "p_pid (procs s ! i) = pid" "\<forall>k<j. p_pid (procs s ! ([0..<NPROC] ! k)) \<noteq> pid"
      by (auto simp: find_Some_iff)
    then have i: "i < NPROC" "p_pid (procs s ! i) = pid" "\<forall>k<i. p_pid (procs s ! k) \<noteq> pid" by auto
    have l: "(LEAST i. p_pid (procs s ! i) = pid) = i"
      by (rule Least_equality) (use i in \<open>auto simp flip: not_less\<close>)
    have "procs s ! i \<in> set (procs s)" using i(1) assms(2) by simp
    then have "\<not> (\<forall>q \<in> set (procs s). p_pid q \<noteq> pid)" using i(2) by blast
    then show ?thesis using run Some by (simp add: l Let_def)
  qed
qed

section \<open>Sleep and wakeup\<close>


section \<open>Reparenting\<close>

lemma wakeup_proc_parent [simp]: "wakeup_proc ch (q\<lparr>p_parent := x\<rparr>) = (wakeup_proc ch q)\<lparr>p_parent := x\<rparr>"
  "p_parent (wakeup_proc ch q) = p_parent q" "wakeup_proc ch (wakeup_proc ch q) = wakeup_proc ch q"
  by (simp_all add: wakeup_proc_def)

text \<open>The table after the first \<open>n\<close> turns.\<close>

definition reparented :: "nat \<Rightarrow> nat option \<Rightarrow> nat option \<Rightarrow> nat \<Rightarrow> proc list \<Rightarrow> proc list" where
  "reparented p ini me n ps = map (\<lambda>i.
     let q = (if i < n \<and> p_parent (ps ! i) = Some p then (ps ! i)\<lparr>p_parent := ini\<rparr> else ps ! i) in
     if (\<exists>j<n. p_parent (ps ! j) = Some p) \<and> me \<noteq> Some i then wakeup_proc (chan_proc ini) q else q) [0..<length ps]"

lemma length_reparented [simp]: "length (reparented p ini me n ps) = length ps"
  by (simp add: reparented_def)

lemma nth_reparented: "i < length ps \<Longrightarrow> reparented p ini me n ps ! i =
    (let q = (if i < n \<and> p_parent (ps ! i) = Some p then (ps ! i)\<lparr>p_parent := ini\<rparr> else ps ! i) in
     if (\<exists>j<n. p_parent (ps ! j) = Some p) \<and> me \<noteq> Some i then wakeup_proc (chan_proc ini) q else q)"
  by (simp add: reparented_def)

lemma parent_reparented: "n < length ps \<Longrightarrow> p_parent (reparented p ini me n ps ! n) = p_parent (ps ! n)"
  by (simp add: nth_reparented Let_def)

lemma reparented_skip:
  assumes "p_parent (ps ! n) \<noteq> Some p"
  shows "reparented p ini me (Suc n) ps = reparented p ini me n ps"
proof -
  have "(\<exists>j<Suc n. p_parent (ps ! j) = Some p) \<longleftrightarrow> (\<exists>j<n. p_parent (ps ! j) = Some p)" using assms by (auto simp: less_Suc_eq)
  moreover have "i < Suc n \<and> p_parent (ps ! i) = Some p \<longleftrightarrow> i < n \<and> p_parent (ps ! i) = Some p" for i
    using assms by (auto simp: less_Suc_eq)
  ultimately show ?thesis unfolding reparented_def by simp
qed

lemma reparented_take:
  assumes "p_parent (ps ! n) = Some p" and "n < length ps"
  shows "woken (chan_proc ini) me ((reparented p ini me n ps)[n := (reparented p ini me n ps ! n)\<lparr>p_parent := ini\<rparr>]) =
    reparented p ini me (Suc n) ps"
proof (rule nth_equalityI)
  fix i
  assume "i < length (woken (chan_proc ini) me ((reparented p ini me n ps)[n := (reparented p ini me n ps ! n)\<lparr>p_parent := ini\<rparr>]))"
  then have i: "i < length ps" by simp
  have ex: "\<exists>j<Suc n. p_parent (ps ! j) = Some p" using assms(1) by blast
  show "woken (chan_proc ini) me ((reparented p ini me n ps)[n := (reparented p ini me n ps ! n)\<lparr>p_parent := ini\<rparr>]) ! i =
      reparented p ini me (Suc n) ps ! i"
  proof (cases "i = n")
    case True
    then show ?thesis using assms ex by (simp add: nth_woken nth_reparented Let_def)
  next
    case False
    then have "i < Suc n \<longleftrightarrow> i < n" by auto
    then show ?thesis using False i ex by (simp add: nth_woken nth_reparented Let_def)
  qed
qed simp

lemma reparent_loop:
  assumes "\<forall>i. LProc i \<notin> set (held s)" and "length (procs s) = NPROC" and "n \<le> NPROC"
  shows "kfor [0..<n] (reparent_one p) s = Ok () (s\<lparr>procs := reparented p (initproc s) (curproc s) n (procs s)\<rparr>)"
  using assms(3)
proof (induction n)
  case 0
  have "reparented p (initproc s) (curproc s) 0 (procs s) = procs s" by (simp add: reparented_def map_nth)
  then show ?case by simp
next
  case (Suc n)
  let ?t = "s\<lparr>procs := reparented p (initproc s) (curproc s) n (procs s)\<rparr>"
  have n: "n < length (procs s)" using Suc.prems assms(2) by simp
  have "kfor [0..<Suc n] (reparent_one p) s = reparent_one p n ?t"
    using Suc by (simp add: kfor_append run_kthen run_kbind) (simp split: out.split)
  also have "\<dots> = Ok () (s\<lparr>procs := reparented p (initproc s) (curproc s) (Suc n) (procs s)\<rparr>)"
  proof (cases "p_parent (procs s ! n) = Some p")
    case True
    then show ?thesis using n assms(1,2) reparented_take [OF True n]
      by (simp add: reparent_one_def run_kthen run_kbind parent_reparented set_proc_Ok wakeup_Ok)
  next
    case False
    then show ?thesis using n by (simp add: reparent_one_def run_kthen run_kbind parent_reparented reparented_skip)
  qed
  finally show ?case .
qed

text \<open>
  C32. \<^verbatim>\<open>reparent\<close> leaves the process without children: each of them is now a child of the first
  process, which is woken if it was waiting for one; nothing else in the table changes.
\<close>

theorem reparent_orphans:
  assumes "\<forall>i. LProc i \<notin> set (held s)" and "length (procs s) = NPROC" and "initproc s = Some ini" and "ini \<noteq> p"
  shows "\<exists>ps. reparent p s = Ok () (s\<lparr>procs := ps\<rparr>) \<and> length ps = NPROC \<and> (\<forall>i<NPROC. p_parent (ps ! i) \<noteq> Some p) \<and>
    (\<forall>i<NPROC. let q = (if p_parent (procs s ! i) = Some p then (procs s ! i)\<lparr>p_parent := Some ini\<rparr> else procs s ! i) in
       ps ! i = (if (\<exists>j<NPROC. p_parent (procs s ! j) = Some p) \<and> curproc s \<noteq> Some i \<and> p_state q = SLEEPING \<and> p_chan q = ChProc ini
                 then q\<lparr>p_state := RUNNABLE\<rparr> else q))"
proof -
  let ?ps = "reparented p (initproc s) (curproc s) NPROC (procs s)"
  have "reparent p s = Ok () (s\<lparr>procs := ?ps\<rparr>)" unfolding reparent_def by (rule reparent_loop [OF assms(1,2)]) simp
  moreover have "p_parent (?ps ! i) \<noteq> Some p" if "i < NPROC" for i
    using that assms(2-4) by (auto simp: nth_reparented Let_def)
  moreover have "let q = (if p_parent (procs s ! i) = Some p then (procs s ! i)\<lparr>p_parent := Some ini\<rparr> else procs s ! i) in
       ?ps ! i = (if (\<exists>j<NPROC. p_parent (procs s ! j) = Some p) \<and> curproc s \<noteq> Some i \<and> p_state q = SLEEPING \<and> p_chan q = ChProc ini
                 then q\<lparr>p_state := RUNNABLE\<rparr> else q)" if "i < NPROC" for i
    unfolding nth_reparented [of i "procs s", unfolded assms(2), OF that] using that
    by (simp add: Let_def assms(3) chan_proc_def wakeup_proc_def)
  ultimately show ?thesis using assms(2) by (intro exI [of _ ?ps]) simp
qed

section \<open>The scheduler\<close>

text \<open>
  What the scheduler relies on: a process it switches to comes back, holding its own lock and no other
  (\<^verbatim>\<open>sched\<close> has checked that), and while it ran no other runnable process was made
  unable to run.  \<open>turns\<close> counts the turns of each process, in the part of the state the scheduler does
  not know.
\<close>

definition comes_back :: "('a \<Rightarrow> nat \<Rightarrow> nat) \<Rightarrow> (nat \<Rightarrow> ('a kcore_scheme, unit) op) \<Rightarrow> bool" where
  "comes_back turns run \<longleftrightarrow> (\<forall>i t. held t = [LProc i] \<and> curproc t = Some i \<and> length (procs t) = NPROC \<and> i < NPROC \<and> p_state (procs t ! i) = RUNNING \<longrightarrow>
     (\<exists>u. run i t = Ok () u \<and> held u = [LProc i] \<and> length (procs u) = NPROC \<and>
       (\<forall>j<NPROC. j \<noteq> i \<and> p_state (procs t ! j) = RUNNABLE \<longrightarrow> p_state (procs u ! j) = RUNNABLE) \<and>
       turns (kcore.more t) i < turns (kcore.more u) i \<and> (\<forall>j. turns (kcore.more t) j \<le> turns (kcore.more u) j)))"

definition sched_inv :: "'a kcore_scheme \<Rightarrow> bool" where
  "sched_inv s \<longleftrightarrow> held s = [] \<and> length (procs s) = NPROC"

lemma scheduler_one_law:
  assumes "comes_back turns run" and "sched_inv s" and "i < NPROC"
  shows "\<exists>u. scheduler_one run i s = Ok () u \<and> sched_inv u \<and> (\<forall>j. turns (kcore.more s) j \<le> turns (kcore.more u) j) \<and>
    (\<forall>j<NPROC. j \<noteq> i \<and> p_state (procs s ! j) = RUNNABLE \<longrightarrow> p_state (procs u ! j) = RUNNABLE) \<and>
    (p_state (procs s ! i) = RUNNABLE \<longrightarrow> turns (kcore.more s) i < turns (kcore.more u) i)"
proof (cases "p_state (procs s ! i) = RUNNABLE")
  case False
  then have "scheduler_one run i s = Ok () s" using assms(2) by (simp add: scheduler_one_def run_simps sched_inv_def)
  then show ?thesis using False assms(2) by auto
next
  case True
  let ?t = "s\<lparr>held := [LProc i], procs := (procs s)[i := (procs s ! i)\<lparr>p_state := RUNNING\<rparr>], curproc := Some i\<rparr>"
  have pre: "held ?t = [LProc i] \<and> curproc ?t = Some i \<and> length (procs ?t) = NPROC \<and> i < NPROC \<and> p_state (procs ?t ! i) = RUNNING"
    using assms(2,3) by (simp add: sched_inv_def)
  from assms(1) [unfolded comes_back_def, rule_format, OF pre] obtain u where u: "run i ?t = Ok () u" "held u = [LProc i]" "length (procs u) = NPROC"
    "\<forall>j<NPROC. j \<noteq> i \<and> p_state (procs ?t ! j) = RUNNABLE \<longrightarrow> p_state (procs u ! j) = RUNNABLE"
    "turns (kcore.more ?t) i < turns (kcore.more u) i" "\<forall>j. turns (kcore.more ?t) j \<le> turns (kcore.more u) j" by blast
  have "scheduler_one run i s = Ok () (u\<lparr>curproc := None, held := []\<rparr>)"
    using True assms(2) u(1,2) by (simp add: scheduler_one_def run_simps sched_inv_def)
  moreover have "\<forall>j<NPROC. j \<noteq> i \<and> p_state (procs s ! j) = RUNNABLE \<longrightarrow> p_state (procs u ! j) = RUNNABLE" using u(4) by simp
  ultimately show ?thesis using u(2,3,5,6) by (intro exI [of _ "u\<lparr>curproc := None, held := []\<rparr>"]) (simp add: sched_inv_def)
qed

lemma scheduler_round:
  assumes "comes_back turns run" and "sched_inv s" and "n \<le> NPROC"
  shows "\<exists>u. kfor [0..<n] (scheduler_one run) s = Ok () u \<and> sched_inv u \<and> (\<forall>j. turns (kcore.more s) j \<le> turns (kcore.more u) j) \<and>
    (\<forall>j<NPROC. p_state (procs s ! j) = RUNNABLE \<longrightarrow>
      (if j < n then turns (kcore.more s) j < turns (kcore.more u) j else p_state (procs u ! j) = RUNNABLE))"
  using assms(3)
proof (induction n)
  case 0
  then show ?case using assms(2) by simp
next
  case (Suc n)
  then obtain t where t: "kfor [0..<n] (scheduler_one run) s = Ok () t" "sched_inv t" "\<And>j. turns (kcore.more s) j \<le> turns (kcore.more t) j"
    "\<And>j. j < NPROC \<Longrightarrow> p_state (procs s ! j) = RUNNABLE \<Longrightarrow> (if j < n then turns (kcore.more s) j < turns (kcore.more t) j else p_state (procs t ! j) = RUNNABLE)"
    by auto
  obtain u where u: "scheduler_one run n t = Ok () u" "sched_inv u" "\<And>j. turns (kcore.more t) j \<le> turns (kcore.more u) j"
    "\<And>j. j < NPROC \<Longrightarrow> j \<noteq> n \<Longrightarrow> p_state (procs t ! j) = RUNNABLE \<Longrightarrow> p_state (procs u ! j) = RUNNABLE"
    "p_state (procs t ! n) = RUNNABLE \<Longrightarrow> turns (kcore.more t) n < turns (kcore.more u) n"
    using scheduler_one_law [OF assms(1) t(2), of n] Suc.prems by auto
  have run: "kfor [0..<Suc n] (scheduler_one run) s = Ok () u" using t(1) u(1) by (simp add: kfor_append run_kthen run_kbind)
  have "if j < Suc n then turns (kcore.more s) j < turns (kcore.more u) j else p_state (procs u ! j) = RUNNABLE"
    if j: "j < NPROC" "p_state (procs s ! j) = RUNNABLE" for j
  proof -
    consider "j < n" | "j = n" | "n < j" by linarith
    then show ?thesis
    proof cases
      case 1
      then show ?thesis using t(4) [OF j] le_less_trans less_le_trans [OF _ u(3)] by simp
    next
      case 2
      then have "turns (kcore.more t) n < turns (kcore.more u) n" using t(4) [OF j] u(5) by simp
      then show ?thesis using 2 le_less_trans [OF t(3)] by simp
    next
      case 3
      then show ?thesis using t(4) [OF j] u(4) [of j] j(1) by simp
    qed
  qed
  then show ?case using run u(2) order_trans [OF t(3) u(3)] by (intro exI [of _ u]) simp
qed

lemma scheduler_rounds_law:
  assumes "comes_back turns run" and "sched_inv s"
  shows "\<exists>u. scheduler_rounds n run s = Ok () u \<and> sched_inv u \<and> (\<forall>j. turns (kcore.more s) j \<le> turns (kcore.more u) j)"
  using assms(2)
proof (induction n arbitrary: s)
  case 0
  then show ?case by simp
next
  case (Suc n)
  obtain t where t: "kfor [0..<NPROC] (scheduler_one run) s = Ok () t" "sched_inv t" "\<And>j. turns (kcore.more s) j \<le> turns (kcore.more t) j"
    using scheduler_round [OF assms(1) Suc.prems order_refl] by auto
  obtain u where u: "scheduler_rounds n run t = Ok () u" "sched_inv u" "\<And>j. turns (kcore.more t) j \<le> turns (kcore.more u) j"
    using Suc.IH [OF t(2)] by auto
  then show ?case using t(1) order_trans [OF t(3) u(3)] by (intro exI [of _ u]) (simp add: run_kthen run_kbind)
qed

text \<open>
  C29. The scheduler starves nobody.  If processes come back, every process that is runnable when the
  scheduler is entered runs, in the first round, and the scheduler goes on for any number of rounds
  without a panic or a lock left behind.
\<close>

theorem scheduler_runs_all:
  assumes "comes_back turns run" and "held s = []" and "length (procs s) = NPROC"
  shows "\<exists>u. scheduler (Suc n) run s = Ok () u \<and> held u = [] \<and>
    (\<forall>i<NPROC. p_state (procs s ! i) = RUNNABLE \<longrightarrow> turns (kcore.more s) i < turns (kcore.more u) i)"
proof -
  let ?s = "s\<lparr>curproc := None\<rparr>"
  have inv: "sched_inv ?s" using assms(2,3) by (simp add: sched_inv_def)
  obtain t where t: "kfor [0..<NPROC] (scheduler_one run) ?s = Ok () t" "sched_inv t"
    "\<And>j. j < NPROC \<Longrightarrow> p_state (procs s ! j) = RUNNABLE \<Longrightarrow> turns (kcore.more s) j < turns (kcore.more t) j"
    using scheduler_round [OF assms(1) inv order_refl] by auto
  obtain u where u: "scheduler_rounds n run t = Ok () u" "sched_inv u" "\<And>j. turns (kcore.more t) j \<le> turns (kcore.more u) j"
    using scheduler_rounds_law [OF assms(1) t(2)] by blast
  have "scheduler (Suc n) run s = Ok () u" using t(1) u(1) by (simp add: scheduler_def run_kthen run_kbind)
  then show ?thesis using u(2) less_le_trans [OF t(3) u(3)] by (intro exI [of _ u]) (simp add: sched_inv_def)
qed

section \<open>Examples\<close>

definition demo_core :: "'a \<Rightarrow> 'a kcore_scheme" where
  "demo_core x = kcore.extend \<lparr>held = [], procs = (replicate NPROC (proc0\<lparr>p_state := RUNNABLE\<rparr>))[3 := proc0\<lparr>p_pid := 7, p_state := SLEEPING, p_parent := Some 2\<rparr>],
     curproc = Some 0, nextpid = 8, initproc = Some 1, slocks = (\<lambda>_. \<lparr>slk_locked = False, slk_pid = 0\<rparr>)\<rparr> x"

lemma demo_core_fields [simp]:
  "held (demo_core x) = []" "procs (demo_core x) = (replicate NPROC (proc0\<lparr>p_state := RUNNABLE\<rparr>))[3 := proc0\<lparr>p_pid := 7, p_state := SLEEPING, p_parent := Some 2\<rparr>]"
  "curproc (demo_core x) = Some 0" "initproc (demo_core x) = Some 1" "kcore.more (demo_core x) = x"
  by (simp_all add: demo_core_def kcore.defs)

text \<open>A process that counts its turn and yields.\<close>

definition demo_run :: "nat \<Rightarrow> ((nat \<Rightarrow> nat) kcore_scheme, unit) op" where
  "demo_run i = kthen (kmod (kcore.more_update (\<lambda>f. f(i := f i + 1)))) (set_proc i (\<lambda>q. q\<lparr>p_state := RUNNABLE\<rparr>))"

lemma demo_run_back: "comes_back (\<lambda>f. f) demo_run"
  by (auto simp: comes_back_def demo_run_def run_kthen run_kbind set_proc_Ok)

theorem scheduler_runs_all_witness:
  "\<exists>u. scheduler 5 demo_run (demo_core (\<lambda>_. 0)) = Ok () u \<and> 0 < kcore.more u 2"
  using scheduler_runs_all [OF demo_run_back, of "demo_core (\<lambda>_. 0)" 4] by (auto simp: proc0_def)

theorem kill_marks_witness: "kill 9 (demo_core ()) = Ok (- 1) (demo_core ())"
  using kill_marks [of "demo_core ()" 9] by (auto simp: proc0_def dest!: set_update_subset_insert [THEN subsetD])


theorem reparent_orphans_witness: "\<exists>ps. reparent 2 (demo_core ()) = Ok () ((demo_core ())\<lparr>procs := ps\<rparr>) \<and> p_parent (ps ! 3) = Some 1"
  using reparent_orphans [of "demo_core ()" 1 2] by (auto simp: Let_def)

end
