(* ===== verification/Spinlock.thy ===== *)
theory Spinlock
  imports Kcore
begin

text \<open>
  \<^verbatim>\<open>kernel/spinlock.c\<close> with all its CPUs.  The functions are written for the CPU \<open>h\<close> that executes
  them, \<^verbatim>\<open>mycpu()\<close>.  CPUs interleave between the accesses to memory they share, so
  \<^verbatim>\<open>acquire\<close> and \<^verbatim>\<open>release\<close> are also given as the steps of a transition system, at the
  granularity of the atomic instructions.  The theorems are mutual exclusion, and that what one CPU
  sees of all this is the list of locks it holds, which is how the rest of the kernel is modelled.
\<close>

section \<open>State\<close>

record spinlock =
  lk_locked :: u32
  lk_name :: string
  lk_cpu :: "nat option"

text \<open>\<open>c_intr\<close> is the bit \<^verbatim>\<open>SSTATUS_SIE\<close> of the hart.\<close>

record scpu =
  c_noff :: int
  c_intena :: bool
  c_intr :: bool

record smp =
  cpus :: "nat \<Rightarrow> scpu"
  locks :: "lockid \<Rightarrow> spinlock"

definition set_cpu :: "nat \<Rightarrow> (scpu \<Rightarrow> scpu) \<Rightarrow> ('a smp_scheme, unit) op" where
  "set_cpu h f = kmod (\<lambda>s. s\<lparr>cpus := (cpus s)(h := f (cpus s h))\<rparr>)"

definition set_lock :: "lockid \<Rightarrow> (spinlock \<Rightarrow> spinlock) \<Rightarrow> ('a smp_scheme, unit) op" where
  "set_lock lk f = kmod (\<lambda>s. s\<lparr>locks := (locks s)(lk := f (locks s lk))\<rparr>)"

section \<open>Functions\<close>

definition initlock :: "lockid \<Rightarrow> string \<Rightarrow> ('a smp_scheme, unit) op" where
  "initlock lk name = set_lock lk (\<lambda>l. l\<lparr>lk_name := name, lk_locked := 0, lk_cpu := None\<rparr>)"

definition push_off :: "nat \<Rightarrow> ('a smp_scheme, unit) op" where
  "push_off h =
     kbind (kget (\<lambda>s. c_intr (cpus s h))) (\<lambda>old.
     kthen (set_cpu h (\<lambda>c. c\<lparr>c_intr := False\<rparr>)) (
     kbind (kget (\<lambda>s. c_noff (cpus s h))) (\<lambda>n.
     kthen (kwhen (n = 0) (set_cpu h (\<lambda>c. c\<lparr>c_intena := old\<rparr>)))
     (set_cpu h (\<lambda>c. c\<lparr>c_noff := c_noff c + 1\<rparr>)))))"

definition pop_off :: "nat \<Rightarrow> ('a smp_scheme, unit) op" where
  "pop_off h =
     kbind (kget (\<lambda>s. cpus s h)) (\<lambda>c.
     if c_intr c then kpanic ''pop_off - interruptible''
     else if c_noff c < 1 then kpanic ''pop_off''
     else
     kthen (set_cpu h (\<lambda>c. c\<lparr>c_noff := c_noff c - 1\<rparr>))
     (kwhen (c_noff c - 1 = 0 \<and> c_intena c) (set_cpu h (\<lambda>c. c\<lparr>c_intr := True\<rparr>))))"

definition lk_holding :: "nat \<Rightarrow> lockid \<Rightarrow> 'a smp_scheme \<Rightarrow> bool" where
  "lk_holding h lk s \<longleftrightarrow> lk_locked (locks s lk) \<noteq> 0 \<and> lk_cpu (locks s lk) = Some h"

text \<open>\<^verbatim>\<open>__sync_lock_test_and_set(&lk->locked, 1)\<close>: an atomic swap.\<close>

definition test_and_set :: "lockid \<Rightarrow> ('a smp_scheme, u32) op" where
  "test_and_set lk =
     kbind (kget (\<lambda>s. lk_locked (locks s lk))) (\<lambda>old.
     kthen (set_lock lk (\<lambda>l. l\<lparr>lk_locked := 1\<rparr>)) (kret old))"

text \<open>
  The functions as one CPU executes them while the others do not run: spinning on a lock another CPU
  holds then never ends.
\<close>

definition lk_acquire :: "nat \<Rightarrow> lockid \<Rightarrow> ('a smp_scheme, unit) op" where
  "lk_acquire h lk =
     kthen (push_off h) (
     kbind (kget (lk_holding h lk)) (\<lambda>mine.
     if mine then kpanic ''acquire'' else
     kbind (test_and_set lk) (\<lambda>old.
     if old \<noteq> 0 then (\<lambda>s. Hang) else
     set_lock lk (\<lambda>l. l\<lparr>lk_cpu := Some h\<rparr>))))"

definition lk_release :: "nat \<Rightarrow> lockid \<Rightarrow> ('a smp_scheme, unit) op" where
  "lk_release h lk =
     kbind (kget (lk_holding h lk)) (\<lambda>mine.
     if \<not> mine then kpanic ''release'' else
     kthen (set_lock lk (\<lambda>l. l\<lparr>lk_cpu := None\<rparr>)) (
     kthen (set_lock lk (\<lambda>l. l\<lparr>lk_locked := 0\<rparr>))
     (pop_off h)))"

section \<open>The steps of all CPUs\<close>

text \<open>Where in \<^verbatim>\<open>acquire\<close> or \<^verbatim>\<open>release\<close> a CPU is.\<close>

datatype spc = Outside | Spin lockid | Got lockid | Clearing lockid | Popping | Stopped string

text \<open>\<open>owns\<close> is not in the code: the locks for which \<^verbatim>\<open>acquire\<close> has returned and \<^verbatim>\<open>release\<close> has not been called.\<close>

record spins = smp +
  pc :: "nat \<Rightarrow> spc"
  owns :: "nat \<Rightarrow> lockid list"

definition boot_spins :: "spins \<Rightarrow> bool" where
  "boot_spins s \<longleftrightarrow> (\<forall>h. c_noff (cpus s h) = 0 \<and> pc s h = Outside \<and> owns s h = []) \<and>
     (\<forall>lk. lk_locked (locks s lk) = 0 \<and> lk_cpu (locks s lk) = None)"

inductive spin_step :: "spins \<Rightarrow> spins \<Rightarrow> bool" where
  acquire_call: "pc s h = Outside \<Longrightarrow> push_off h s = Ok () t \<Longrightarrow>
    spin_step s (t\<lparr>pc := (pc t)(h := if lk_holding h lk t then Stopped ''acquire'' else Spin lk)\<rparr>)"
| acquire_swap: "pc s h = Spin lk \<Longrightarrow> test_and_set lk s = Ok old t \<Longrightarrow>
    spin_step s (t\<lparr>pc := (pc t)(h := if old \<noteq> 0 then Spin lk else Got lk)\<rparr>)"
| acquire_return: "pc s h = Got lk \<Longrightarrow> set_lock lk (\<lambda>l. l\<lparr>lk_cpu := Some h\<rparr>) s = Ok () t \<Longrightarrow>
    spin_step s (t\<lparr>pc := (pc t)(h := Outside), owns := (owns t)(h := lk # owns t h)\<rparr>)"
| release_bad: "pc s h = Outside \<Longrightarrow> \<not> lk_holding h lk s \<Longrightarrow>
    spin_step s (s\<lparr>pc := (pc s)(h := Stopped ''release'')\<rparr>)"
| release_call: "pc s h = Outside \<Longrightarrow> lk_holding h lk s \<Longrightarrow> set_lock lk (\<lambda>l. l\<lparr>lk_cpu := None\<rparr>) s = Ok () t \<Longrightarrow>
    spin_step s (t\<lparr>pc := (pc t)(h := Clearing lk), owns := (owns t)(h := remove1 lk (owns t h))\<rparr>)"
| release_clear: "pc s h = Clearing lk \<Longrightarrow> set_lock lk (\<lambda>l. l\<lparr>lk_locked := 0\<rparr>) s = Ok () t \<Longrightarrow>
    spin_step s (t\<lparr>pc := (pc t)(h := Popping)\<rparr>)"
| release_return: "pc s h = Popping \<Longrightarrow> pop_off h s = Ok () t \<Longrightarrow>
    spin_step s (t\<lparr>pc := (pc t)(h := Outside)\<rparr>)"
| release_stop: "pc s h = Popping \<Longrightarrow> pop_off h s = Panic e \<Longrightarrow>
    spin_step s (s\<lparr>pc := (pc s)(h := Stopped e)\<rparr>)"
| set_intr: "pc s h = Outside \<Longrightarrow> c_noff (cpus s h) = 0 \<Longrightarrow> set_cpu h (\<lambda>c. c\<lparr>c_intr := b\<rparr>) s = Ok () t \<Longrightarrow>
    spin_step s t"

inductive spin_reach :: "spins \<Rightarrow> bool" where
  boot: "boot_spins s \<Longrightarrow> spin_reach s"
| step: "spin_reach s \<Longrightarrow> spin_step s t \<Longrightarrow> spin_reach t"

section \<open>The invariant\<close>

text \<open>CPU \<open>h\<close> has set \<^verbatim>\<open>locked\<close> and not cleared it yet.\<close>

definition has_lock :: "spins \<Rightarrow> nat \<Rightarrow> lockid \<Rightarrow> bool" where
  "has_lock s h lk \<longleftrightarrow> lk \<in> set (owns s h) \<or> pc s h = Got lk \<or> pc s h = Clearing lk"

definition in_call :: "spc \<Rightarrow> bool" where
  "in_call p \<longleftrightarrow> (case p of Outside \<Rightarrow> False | Stopped e \<Rightarrow> e = ''acquire'' | _ \<Rightarrow> True)"

definition spin_inv :: "spins \<Rightarrow> bool" where
  "spin_inv s \<longleftrightarrow>
     (\<forall>h h' lk. has_lock s h lk \<longrightarrow> has_lock s h' lk \<longrightarrow> h = h') \<and>
     (\<forall>h lk. has_lock s h lk \<longrightarrow> lk_locked (locks s lk) \<noteq> 0) \<and>
     (\<forall>h lk. lk_cpu (locks s lk) = Some h \<longleftrightarrow> lk \<in> set (owns s h)) \<and>
     (\<forall>h. distinct (owns s h)) \<and>
     (\<forall>h lk. pc s h = Got lk \<or> pc s h = Clearing lk \<longrightarrow> lk \<notin> set (owns s h)) \<and>
     (\<forall>h. c_noff (cpus s h) = int (length (owns s h)) + (if in_call (pc s h) then 1 else 0)) \<and>
     (\<forall>h. 0 < c_noff (cpus s h) \<longrightarrow> \<not> c_intr (cpus s h))"
lemma Ok_state: "r = Ok x t \<Longrightarrow> r = Ok y u \<Longrightarrow> t = u"
  by simp

lemma set_cpu_Ok: "set_cpu h f s = Ok () (s\<lparr>cpus := (cpus s)(h := f (cpus s h))\<rparr>)"
  by (simp add: set_cpu_def)

lemma set_lock_Ok: "set_lock lk f s = Ok () (s\<lparr>locks := (locks s)(lk := f (locks s lk))\<rparr>)"
  by (simp add: set_lock_def)

definition pushed :: "scpu \<Rightarrow> scpu" where
  "pushed c = c\<lparr>c_intr := False, c_intena := (if c_noff c = 0 then c_intr c else c_intena c), c_noff := c_noff c + 1\<rparr>"

definition popped :: "scpu \<Rightarrow> scpu" where
  "popped c = (if c_noff c = 1 \<and> c_intena c then c\<lparr>c_noff := c_noff c - 1, c_intr := True\<rparr> else c\<lparr>c_noff := c_noff c - 1\<rparr>)"

lemma push_off_Ok: "push_off h s = Ok () (s\<lparr>cpus := (cpus s)(h := pushed (cpus s h))\<rparr>)"
  by (simp add: push_off_def run_kbind run_kthen set_cpu_Ok pushed_def)

lemma pop_off_Ok:
  assumes "\<not> c_intr (cpus s h)" and "1 \<le> c_noff (cpus s h)"
  shows "pop_off h s = Ok () (s\<lparr>cpus := (cpus s)(h := popped (cpus s h))\<rparr>)"
  using assms by (auto simp: pop_off_def run_kbind run_kthen set_cpu_Ok popped_def)

lemma test_and_set_Ok: "test_and_set lk s = Ok (lk_locked (locks s lk)) (s\<lparr>locks := (locks s)(lk := (locks s lk)\<lparr>lk_locked := 1\<rparr>)\<rparr>)"
  by (simp add: test_and_set_def run_kbind run_kthen set_lock_Ok)

lemma pushed_simps [simp]: "c_noff (pushed c) = c_noff c + 1" "\<not> c_intr (pushed c)"
  by (simp_all add: pushed_def)

lemma popped_simps [simp]: "c_noff (popped c) = c_noff c - 1" "c_intr (popped c) \<longleftrightarrow> c_noff c = 1 \<and> c_intena c \<or> c_intr c"
  by (auto simp: popped_def)

lemma in_call_simps [simp]:
  "\<not> in_call Outside" "in_call (Spin lk)" "in_call (Got lk)" "in_call (Clearing lk)" "in_call Popping" "in_call (Stopped e) \<longleftrightarrow> e = ''acquire''"
  by (simp_all add: in_call_def)

lemma spin_invD:
  assumes "spin_inv s"
  shows "has_lock s h lk \<Longrightarrow> has_lock s h' lk \<Longrightarrow> h = h'" and "has_lock s h lk \<Longrightarrow> lk_locked (locks s lk) \<noteq> 0"
    and "lk_cpu (locks s lk) = Some h \<longleftrightarrow> lk \<in> set (owns s h)" and "distinct (owns s h)"
    and "pc s h = Got lk \<or> pc s h = Clearing lk \<Longrightarrow> lk \<notin> set (owns s h)"
    and "c_noff (cpus s h) = int (length (owns s h)) + (if in_call (pc s h) then 1 else 0)"
    and "0 < c_noff (cpus s h) \<Longrightarrow> \<not> c_intr (cpus s h)"
  using assms unfolding spin_inv_def by blast+

lemma spin_invI:
  assumes "\<And>h h' lk. has_lock s h lk \<Longrightarrow> has_lock s h' lk \<Longrightarrow> h = h'" and "\<And>h lk. has_lock s h lk \<Longrightarrow> lk_locked (locks s lk) \<noteq> 0"
    and "\<And>h lk. lk_cpu (locks s lk) = Some h \<longleftrightarrow> lk \<in> set (owns s h)" and "\<And>h. distinct (owns s h)"
    and "\<And>h lk. pc s h = Got lk \<or> pc s h = Clearing lk \<Longrightarrow> lk \<notin> set (owns s h)"
    and "\<And>h. c_noff (cpus s h) = int (length (owns s h)) + (if in_call (pc s h) then 1 else 0)"
    and "\<And>h. 0 < c_noff (cpus s h) \<Longrightarrow> \<not> c_intr (cpus s h)"
  shows "spin_inv s"
  using assms unfolding spin_inv_def by blast

lemma holding_owns: "spin_inv s \<Longrightarrow> lk_holding h lk s \<longleftrightarrow> lk \<in> set (owns s h)"
  using spin_invD(2,3) [of s] by (auto simp: lk_holding_def has_lock_def)

lemma spin_inv_boot: "boot_spins s \<Longrightarrow> spin_inv s"
  by (rule spin_invI) (auto simp: boot_spins_def has_lock_def)

lemma inv_acquire_call:
  assumes "spin_inv s" and "t = u\<lparr>pc := (pc u)(h := if lk_holding h lk u then Stopped ''acquire'' else Spin lk)\<rparr>"
    and "pc s h = Outside"
    and "push_off h s = Ok () u"
  shows "spin_inv t"
proof -
  note i = spin_invD [OF assms(1)]
  let ?p = "if lk_holding h lk u then Stopped ''acquire'' else Spin lk"
  have t: "t = s\<lparr>cpus := (cpus s)(h := pushed (cpus s h)), pc := (pc s)(h := ?p)\<rparr>" 
    unfolding assms(2) by (simp add: Ok_state [OF assms(4) push_off_Ok])
  have hl: "has_lock t g l \<longleftrightarrow> has_lock s g l" for g l using assms(3) t by (auto simp: has_lock_def)
  show ?thesis
    by (rule spin_invI, unfold hl) (use i assms(3) t in \<open>auto simp: not_less split: if_splits\<close>)
qed

lemma inv_acquire_swap:
  assumes "spin_inv s" and "t = u\<lparr>pc := (pc u)(h := if old \<noteq> 0 then Spin lk else Got lk)\<rparr>"
    and "pc s h = Spin lk"
    and "test_and_set lk s = Ok old u"
  shows "spin_inv t"
proof -
  note i = spin_invD [OF assms(1)]
  have u: "old = lk_locked (locks s lk)" "u = s\<lparr>locks := (locks s)(lk := (locks s lk)\<lparr>lk_locked := 1\<rparr>)\<rparr>" using assms(4) by (simp_all add: test_and_set_Ok)
  have t: "t = s\<lparr>locks := (locks s)(lk := (locks s lk)\<lparr>lk_locked := 1\<rparr>), pc := (pc s)(h := if old \<noteq> 0 then Spin lk else Got lk)\<rparr>"
    unfolding assms(2) u(2) by simp
  have free: "\<not> has_lock s g lk" if "old = 0" for g using i(2) [of g lk] that u(1) by auto
  have hl: "has_lock t g l \<longleftrightarrow> has_lock s g l \<or> old = 0 \<and> g = h \<and> l = lk" for g l
    using assms(3) t by (auto simp: has_lock_def)
  show ?thesis
  proof (rule spin_invI)
    fix g g' l assume "has_lock t g l" "has_lock t g' l"
    then show "g = g'" unfolding hl using i(1) free by blast
  next
    fix g l assume "has_lock t g l"
    then show "lk_locked (locks t l) \<noteq> 0" unfolding hl using i(2) t by auto
  next
    fix g l assume "pc t g = Got l \<or> pc t g = Clearing l"
    then show "l \<notin> set (owns t g)" using i(5) [of g l] free [of h] t by (auto simp: has_lock_def split: if_splits)
  qed (use i assms(3) t in \<open>auto simp: not_less split: if_splits\<close>)
qed

lemma inv_acquire_return:
  assumes "spin_inv s" and "t = u\<lparr>pc := (pc u)(h := Outside), owns := (owns u)(h := lk # owns u h)\<rparr>"
    and "pc s h = Got lk"
    and "set_lock lk (\<lambda>l. l\<lparr>lk_cpu := Some h\<rparr>) s = Ok () u"
  shows "spin_inv t"
proof -
  note i = spin_invD [OF assms(1)]
  have t: "t = s\<lparr>locks := (locks s)(lk := (locks s lk)\<lparr>lk_cpu := Some h\<rparr>), pc := (pc s)(h := Outside), owns := (owns s)(h := lk # owns s h)\<rparr>"
    unfolding assms(2) by (simp add: Ok_state [OF assms(4) set_lock_Ok])
  have hl: "has_lock t g l \<longleftrightarrow> has_lock s g l" for g l using assms(3) t by (auto simp: has_lock_def)
  have mine: "has_lock s h lk" using assms(3) by (simp add: has_lock_def)
  have others: "lk \<notin> set (owns s g)" for g
    using i(1) [OF mine, of g] i(5) [of h lk] assms(3) by (auto simp: has_lock_def)
  show ?thesis
    by (rule spin_invI, unfold hl) (use i others assms(3) t in \<open>auto simp: not_less split: if_splits\<close>)
qed

lemma inv_release_bad:
  assumes "spin_inv s" and "t = s\<lparr>pc := (pc s)(h := Stopped ''release'')\<rparr>"
    and "pc s h = Outside"
    and "\<not> lk_holding h lk s"
  shows "spin_inv t"
proof -
  note i = spin_invD [OF assms(1)]
  have hl: "has_lock t g l \<longleftrightarrow> has_lock s g l" for g l using assms(2,3) by (auto simp: has_lock_def)
  show ?thesis by (rule spin_invI, unfold hl) (use i assms(2,3) in \<open>auto simp: not_less split: if_splits\<close>)
qed

lemma inv_release_call:
  assumes "spin_inv s" and "t = u\<lparr>pc := (pc u)(h := Clearing lk), owns := (owns u)(h := remove1 lk (owns u h))\<rparr>"
    and "pc s h = Outside"
    and "lk_holding h lk s"
    and "set_lock lk (\<lambda>l. l\<lparr>lk_cpu := None\<rparr>) s = Ok () u"
  shows "spin_inv t"
proof -
  note i = spin_invD [OF assms(1)]
  have t: "t = s\<lparr>locks := (locks s)(lk := (locks s lk)\<lparr>lk_cpu := None\<rparr>), pc := (pc s)(h := Clearing lk), owns := (owns s)(h := remove1 lk (owns s h))\<rparr>"
    unfolding assms(2) by (simp add: Ok_state [OF assms(5) set_lock_Ok])
  have own: "lk \<in> set (owns s h)" using assms(4) holding_owns [OF assms(1)] by simp
  have others: "lk \<notin> set (owns s g)" if "g \<noteq> h" for g using i(1) [of h lk g] own that by (auto simp: has_lock_def)
  have hl: "has_lock t g l \<longleftrightarrow> has_lock s g l" for g l
    using assms(3) t own i(4) [of h] by (auto simp: has_lock_def set_remove1_eq)
  have len: "int (length (remove1 lk (owns s h))) = int (length (owns s h)) - 1"
    using own by (simp add: length_remove1) (cases "owns s h", auto)
  show ?thesis
  proof (rule spin_invI, unfold hl)
    fix g l
    show "lk_cpu (locks t l) = Some g \<longleftrightarrow> l \<in> set (owns t g)" using i(3) [of l g] i(4) [of g] others [of g] t by (auto simp: set_remove1_eq)
    show "c_noff (cpus t g) = int (length (owns t g)) + (if in_call (pc t g) then 1 else 0)"
      using i(6) [of g] assms(3) t len by (auto split: if_splits)
    show "pc t g = Got l \<or> pc t g = Clearing l \<Longrightarrow> l \<notin> set (owns t g)"
      using i(4) [of g] i(5) [of g l] t by (auto simp: set_remove1_eq split: if_splits)
  qed (use i t in \<open>auto simp: distinct_remove1\<close>)
qed

lemma inv_release_clear:
  assumes "spin_inv s" and "t = u\<lparr>pc := (pc u)(h := Popping)\<rparr>"
    and "pc s h = Clearing lk"
    and "set_lock lk (\<lambda>l. l\<lparr>lk_locked := 0\<rparr>) s = Ok () u"
  shows "spin_inv t"
proof -
  note i = spin_invD [OF assms(1)]
  have t: "t = s\<lparr>locks := (locks s)(lk := (locks s lk)\<lparr>lk_locked := 0\<rparr>), pc := (pc s)(h := Popping)\<rparr>"
    unfolding assms(2) by (simp add: Ok_state [OF assms(4) set_lock_Ok])
  have mine: "has_lock s h lk" "lk \<notin> set (owns s h)" using assms(3) i(5) [of h lk] by (auto simp: has_lock_def)
  have hl: "has_lock t g l \<longleftrightarrow> has_lock s g l \<and> l \<noteq> lk" for g l
  proof (cases "g = h")
    case True
    then show ?thesis using assms(3) t mine(2) by (auto simp: has_lock_def)
  next
    case False
    then have "has_lock t g l \<longleftrightarrow> has_lock s g l" "\<not> has_lock s g lk" using t i(1) [OF mine(1), of g] by (auto simp: has_lock_def)
    then show ?thesis by blast
  qed
  show ?thesis
  proof (rule spin_invI)
    fix g g' l assume "has_lock t g l" "has_lock t g' l"
    then show "g = g'" unfolding hl using i(1) by blast
  next
    fix g l assume "has_lock t g l"
    then show "lk_locked (locks t l) \<noteq> 0" unfolding hl using i(2) t by auto
  qed (use i assms(3) t in \<open>auto simp: not_less split: if_splits\<close>)
qed

lemma inv_release_return:
  assumes "spin_inv s" and "t = u\<lparr>pc := (pc u)(h := Outside)\<rparr>"
    and "pc s h = Popping"
    and "pop_off h s = Ok () u"
  shows "spin_inv t"
proof -
  note i = spin_invD [OF assms(1)]
  have n: "1 \<le> c_noff (cpus s h)" using i(6) [of h] assms(3) by simp
  then have off: "\<not> c_intr (cpus s h)" using i(7) [of h] by simp
  have t: "t = s\<lparr>cpus := (cpus s)(h := popped (cpus s h)), pc := (pc s)(h := Outside)\<rparr>"
    unfolding assms(2) by (simp add: Ok_state [OF assms(4) pop_off_Ok [OF off n]])
  have hl: "has_lock t g l \<longleftrightarrow> has_lock s g l" for g l using assms(3) t by (auto simp: has_lock_def)
  show ?thesis
    by (rule spin_invI, unfold hl) (use i assms(3) t in \<open>auto simp: not_less split: if_splits\<close>)
qed

lemma inv_release_stop:
  assumes "spin_inv s" and "t = s\<lparr>pc := (pc s)(h := Stopped e)\<rparr>"
    and "pc s h = Popping"
    and "pop_off h s = Panic e"
  shows "spin_inv t"
proof -
  note i = spin_invD [OF assms(1)]
  have n: "1 \<le> c_noff (cpus s h)" using i(6) [of h] assms(3) by simp
  then have "\<not> c_intr (cpus s h)" using i(7) [of h] by simp
  then show ?thesis using assms(4) pop_off_Ok [OF _ n] by simp
qed

lemma inv_set_intr:
  assumes "spin_inv s" and "pc s h = Outside"
    and "c_noff (cpus s h) = 0"
    and "set_cpu h (\<lambda>c. c\<lparr>c_intr := b\<rparr>) s = Ok () t"
  shows "spin_inv t"
proof -
  note i = spin_invD [OF assms(1)]
  have t: "t = s\<lparr>cpus := (cpus s)(h := (cpus s h)\<lparr>c_intr := b\<rparr>)\<rparr>" by (rule Ok_state [OF assms(4) set_cpu_Ok])
  have hl: "has_lock t g l \<longleftrightarrow> has_lock s g l" for g l using t by (auto simp: has_lock_def)
  show ?thesis by (rule spin_invI, unfold hl) (use i assms(3) t in \<open>auto simp: not_less split: if_splits\<close>)
qed

lemma spin_inv_step: "spin_step s t \<Longrightarrow> spin_inv s \<Longrightarrow> spin_inv t"
  by (induction rule: spin_step.induct)
    (erule inv_acquire_call inv_acquire_swap inv_acquire_return inv_release_bad inv_release_call inv_release_clear
       inv_release_return inv_release_stop inv_set_intr; (rule refl | assumption))+

lemma spin_reach_inv: "spin_reach s \<Longrightarrow> spin_inv s"
  by (induction rule: spin_reach.induct) (auto intro: spin_inv_boot spin_inv_step)

section \<open>Whole calls\<close>

lemma lk_holding_cpus [simp]: "lk_holding h lk (s\<lparr>cpus := c\<rparr>) \<longleftrightarrow> lk_holding h lk s"
  by (simp add: lk_holding_def)

definition taken :: "nat \<Rightarrow> lockid \<Rightarrow> 'a smp_scheme \<Rightarrow> 'a smp_scheme" where
  "taken h lk s = s\<lparr>cpus := (cpus s)(h := pushed (cpus s h)), locks := (locks s)(lk := (locks s lk)\<lparr>lk_locked := 1, lk_cpu := Some h\<rparr>)\<rparr>"

definition given :: "nat \<Rightarrow> lockid \<Rightarrow> 'a smp_scheme \<Rightarrow> 'a smp_scheme" where
  "given h lk s = s\<lparr>locks := (locks s)(lk := (locks s lk)\<lparr>lk_cpu := None, lk_locked := 0\<rparr>), cpus := (cpus s)(h := popped (cpus s h))\<rparr>"

lemma lk_acquire_run:
  "lk_acquire h lk s = (if lk_holding h lk s then Panic ''acquire'' else if lk_locked (locks s lk) \<noteq> 0 then Hang else Ok () (taken h lk s))"
  by (simp add: lk_acquire_def run_kbind run_kthen push_off_Ok test_and_set_Ok set_lock_Ok taken_def)

lemma lk_release_run:
  assumes "\<not> c_intr (cpus s h)" and "1 \<le> c_noff (cpus s h)"
  shows "lk_release h lk s = (if lk_holding h lk s then Ok () (given h lk s) else Panic ''release'')"
  using assms by (simp add: lk_release_def run_kbind run_kthen set_lock_Ok pop_off_Ok given_def)

lemma acquire_steps:
  assumes "pc s h = Outside" and "\<not> lk_holding h lk s" and "lk_locked (locks s lk) = 0"
  shows "spin_step\<^sup>*\<^sup>* s ((taken h lk s)\<lparr>owns := (owns s)(h := lk # owns s h)\<rparr>)"
proof -
  let ?s1 = "s\<lparr>cpus := (cpus s)(h := pushed (cpus s h)), pc := (pc s)(h := Spin lk)\<rparr>"
  let ?s2 = "?s1\<lparr>locks := (locks s)(lk := (locks s lk)\<lparr>lk_locked := 1\<rparr>), pc := (pc s)(h := Got lk)\<rparr>"
  have "spin_step s ?s1" using spin_step.acquire_call [OF assms(1) push_off_Ok, of lk] assms(2) by simp
  moreover have "spin_step ?s1 ?s2" using spin_step.acquire_swap [of ?s1 h lk, OF _ test_and_set_Ok] assms(3) by simp
  moreover have "spin_step ?s2 ((taken h lk s)\<lparr>owns := (owns s)(h := lk # owns s h)\<rparr>)"
    using spin_step.acquire_return [of ?s2 h lk, OF _ set_lock_Ok] fun_upd_idem [of "pc s" h Outside] assms(1)
    by (simp add: taken_def)
  ultimately show ?thesis by (meson converse_rtranclp_into_rtranclp rtranclp.rtrancl_refl)
qed

lemma release_steps:
  assumes "pc s h = Outside" and "lk_holding h lk s" and "\<not> c_intr (cpus s h)" and "1 \<le> c_noff (cpus s h)"
  shows "spin_step\<^sup>*\<^sup>* s ((given h lk s)\<lparr>owns := (owns s)(h := remove1 lk (owns s h))\<rparr>)"
proof -
  let ?s1 = "s\<lparr>locks := (locks s)(lk := (locks s lk)\<lparr>lk_cpu := None\<rparr>), pc := (pc s)(h := Clearing lk), owns := (owns s)(h := remove1 lk (owns s h))\<rparr>"
  let ?s2 = "?s1\<lparr>locks := (locks s)(lk := (locks s lk)\<lparr>lk_cpu := None, lk_locked := 0\<rparr>), pc := (pc s)(h := Popping)\<rparr>"
  have "spin_step s ?s1" using spin_step.release_call [OF assms(1,2) set_lock_Ok] by simp
  moreover have "spin_step ?s1 ?s2" using spin_step.release_clear [of ?s1 h lk, OF _ set_lock_Ok] by simp
  moreover have "(given h lk s)\<lparr>owns := (owns s)(h := remove1 lk (owns s h))\<rparr>
      = ?s2\<lparr>cpus := (cpus s)(h := popped (cpus s h)), pc := (pc s)(h := Outside)\<rparr>"
    using assms(1) by (intro spins.equality) (simp_all add: given_def fun_upd_idem)
  moreover have "spin_step ?s2 (?s2\<lparr>cpus := (cpus s)(h := popped (cpus s h)), pc := (pc s)(h := Outside)\<rparr>)"
    using spin_step.release_return [of ?s2 h, OF _ pop_off_Ok] assms(3,4) by simp
  ultimately show ?thesis by (metis (no_types, lifting) converse_rtranclp_into_rtranclp rtranclp.rtrancl_refl)
qed

lemma spin_reach_steps: "spin_step\<^sup>*\<^sup>* s t \<Longrightarrow> spin_reach s \<Longrightarrow> spin_reach t"
  by (induction rule: rtranclp_induct) (auto intro: spin_reach.step)

text \<open>What the kernel's one-CPU state must say about CPU \<open>h\<close>.\<close>

definition cpu_view :: "nat \<Rightarrow> spins \<Rightarrow> 'a kcore_scheme \<Rightarrow> bool" where
  "cpu_view h s k \<longleftrightarrow> pc s h = Outside \<and> held k = owns s h \<and> (\<forall>lk. lk_holding h lk s \<longleftrightarrow> lk \<in> set (held k)) \<and>
     c_noff (cpus s h) = int (length (held k)) \<and> (held k \<noteq> [] \<longrightarrow> \<not> c_intr (cpus s h))"

lemma cpu_viewI:
  assumes "spin_reach s" and "pc s h = Outside" and "held k = owns s h"
  shows "cpu_view h s k"
  using spin_invD(6,7) [OF spin_reach_inv [OF assms(1)], of h] holding_owns [OF spin_reach_inv [OF assms(1)]] assms(2,3)
  by (auto simp: cpu_view_def)

lemma acquire_view:
  assumes r: "spin_reach s" and v: "cpu_view h s k"
  shows "acquire lk k = Panic e \<longleftrightarrow> lk_acquire h lk s = Panic e"
    and "lk_acquire h lk s = Ok () t \<Longrightarrow> \<exists>k' t'. acquire lk k = Ok () k' \<and> t' = t\<lparr>owns := (owns s)(h := held k')\<rparr> \<and> spin_step\<^sup>*\<^sup>* s t' \<and> cpu_view h t' k'"
proof -
  have pc: "pc s h = Outside" and held: "held k = owns s h" and own: "lk_holding h lk s \<longleftrightarrow> lk \<in> set (held k)"
    using v unfolding cpu_view_def by blast+
  show "acquire lk k = Panic e \<longleftrightarrow> lk_acquire h lk s = Panic e"
    by (auto simp: acquire_def lk_acquire_run own)
  assume t: "lk_acquire h lk s = Ok () t"
  let ?k = "k\<lparr>held := lk # held k\<rparr>" and ?t = "t\<lparr>owns := (owns s)(h := lk # owns s h)\<rparr>"
  have n: "\<not> lk_holding h lk s" "lk_locked (locks s lk) = 0" "t = taken h lk s"
    using t by (auto simp: lk_acquire_run split: if_splits)
  have "spin_step\<^sup>*\<^sup>* s ?t" using acquire_steps [OF pc n(1,2)] n(3) by simp
  moreover from this have "cpu_view h ?t ?k"
    using spin_reach_steps r pc held n(3) by (intro cpu_viewI) (auto simp: taken_def)
  moreover have "acquire lk k = Ok () ?k" using own n(1) by (simp add: acquire_def)
  ultimately show "\<exists>k' t'. acquire lk k = Ok () k' \<and> t' = t\<lparr>owns := (owns s)(h := held k')\<rparr> \<and> spin_step\<^sup>*\<^sup>* s t' \<and> cpu_view h t' k'"
    using held by (intro exI [of _ ?k] exI [of _ ?t]) simp
qed

lemma release_view:
  assumes r: "spin_reach s" and v: "cpu_view h s k"
  shows "release lk k = Panic e \<longleftrightarrow> lk_release h lk s = Panic e"
    and "release lk k = Ok () k' \<Longrightarrow> \<exists>t. lk_release h lk s = Ok () t \<and> spin_step\<^sup>*\<^sup>* s (t\<lparr>owns := (owns s)(h := held k')\<rparr>) \<and>
      cpu_view h (t\<lparr>owns := (owns s)(h := held k')\<rparr>) k'"
proof -
  have pc: "pc s h = Outside" and held: "held k = owns s h" and own: "lk_holding h lk s \<longleftrightarrow> lk \<in> set (held k)"
    using v unfolding cpu_view_def by blast+
  have n: "c_noff (cpus s h) = int (length (held k))" "held k \<noteq> [] \<Longrightarrow> \<not> c_intr (cpus s h)"
    using v unfolding cpu_view_def by blast+
  have on: "\<not> c_intr (cpus s h)" "1 \<le> c_noff (cpus s h)" if "lk \<in> set (held k)"
  proof -
    have "held k \<noteq> []" using that by auto
    then show "\<not> c_intr (cpus s h)" "1 \<le> c_noff (cpus s h)" using n by (auto simp: Suc_le_eq)
  qed
  have run: "lk_release h lk s = (if lk \<in> set (held k) then Ok () (given h lk s) else Panic ''release'')"
  proof (cases "lk \<in> set (held k)")
    case True
    then show ?thesis using lk_release_run [OF on] own by simp
  next
    case False
    then show ?thesis using own by (simp add: lk_release_def run_kbind)
  qed
  show "release lk k = Panic e \<longleftrightarrow> lk_release h lk s = Panic e"
    by (auto simp: release_def run)
  assume k': "release lk k = Ok () k'"
  then have n: "lk \<in> set (held k)" and k'': "k' = k\<lparr>held := remove1 lk (held k)\<rparr>" by (auto simp: release_def split: if_splits)
  let ?t = "(given h lk s)\<lparr>owns := (owns s)(h := held k')\<rparr>"
  have st: "spin_step\<^sup>*\<^sup>* s ?t" using release_steps [OF pc _ on [OF n]] own n k'' held by simp
  then have "cpu_view h ?t k'"
    using spin_reach_steps r pc by (intro cpu_viewI) (auto simp: given_def)
  then show "\<exists>t. lk_release h lk s = Ok () t \<and> spin_step\<^sup>*\<^sup>* s (t\<lparr>owns := (owns s)(h := held k')\<rparr>) \<and>
      cpu_view h (t\<lparr>owns := (owns s)(h := held k')\<rparr>) k'"
    using st run n by auto
qed

section \<open>Properties\<close>

definition demo_spins :: spins where
  "demo_spins = \<lparr>cpus = (\<lambda>_. \<lparr>c_noff = 0, c_intena = False, c_intr = True\<rparr>),
     locks = (\<lambda>_. \<lparr>lk_locked = 0, lk_name = [], lk_cpu = None\<rparr>), pc = (\<lambda>_. Outside), owns = (\<lambda>_. [])\<rparr>"

lemma demo_spins_reach: "spin_reach demo_spins"
  by (rule spin_reach.boot) (simp add: boot_spins_def demo_spins_def)

definition demo_locked :: spins where
  "demo_locked = (taken 0 LKmem demo_spins)\<lparr>owns := (owns demo_spins)(0 := [LKmem])\<rparr>"

lemma demo_locked_reach: "spin_reach demo_locked"
  using spin_reach_steps [OF acquire_steps demo_spins_reach, of 0 LKmem]
  by (simp add: demo_locked_def demo_spins_def lk_holding_def)

definition demo_core0 :: "lockid list \<Rightarrow> kcore" where
  "demo_core0 h = \<lparr>held = h, procs = [], curproc = None, nextpid = 1, initproc = None,
     slocks = (\<lambda>_. \<lparr>slk_locked = False, slk_pid = 0\<rparr>)\<rparr>"

text \<open>
  C3. Mutual exclusion: in every state the CPUs can reach by interleaving the instructions of
  \<^verbatim>\<open>acquire\<close> and \<^verbatim>\<open>release\<close>, a lock that CPU \<open>h\<close> has acquired and not released is
  held by no other CPU, the atomic swap of any CPU now spinning on it fails, and \<open>h\<close> has its
  interrupts off, so no interrupt handler of its own can run and wait for the lock.
\<close>

theorem spin_mutual_exclusion:
  assumes "spin_reach s" and "lk \<in> set (owns s h)"
  shows "(\<forall>g. lk \<in> set (owns s g) \<longrightarrow> g = h) \<and> (\<exists>old t. test_and_set lk s = Ok old t \<and> old \<noteq> 0) \<and> \<not> c_intr (cpus s h)"
proof -
  note i = spin_invD [OF spin_reach_inv [OF assms(1)]]
  have mine: "has_lock s h lk" using assms(2) by (simp add: has_lock_def)
  have n: "0 < c_noff (cpus s h)" using i(6) [of h] assms(2) by (cases "owns s h") auto
  have "g = h" if "lk \<in> set (owns s g)" for g
    using i(1) [OF _ mine, of g] that by (simp add: has_lock_def)
  then show ?thesis using i(2) [OF mine] i(7) [OF n] by (simp add: test_and_set_Ok)
qed

theorem spin_mutual_exclusion_witness:
  "LKmem \<in> set (owns demo_locked 0) \<and> LKmem \<notin> set (owns demo_locked 1) \<and> \<not> c_intr (cpus demo_locked 0)"
proof -
  have own: "LKmem \<in> set (owns demo_locked 0)" by (simp add: demo_locked_def)
  show ?thesis using spin_mutual_exclusion [OF demo_locked_reach own] own by auto
qed

text \<open>
  C28. What one CPU sees of the locks.  Between calls, the list of held locks that the rest of the kernel
  model keeps for a CPU is right about \<^verbatim>\<open>holding\<close>, \<^verbatim>\<open>noff\<close> and the interrupt bit; its
  \<^verbatim>\<open>acquire\<close> and \<^verbatim>\<open>release\<close> panic exactly when the functions on the lock words do;
  when those return, they do so by steps of the CPU, both sides return, and the list is right
  again.  \<^verbatim>\<open>release\<close> of a held lock always returns: neither check of \<^verbatim>\<open>pop_off\<close> fires.
\<close>

theorem spin_refines_held:
  assumes "spin_reach s" and "pc s h = Outside" and "held k = owns s h"
  shows "cpu_view h s k \<and>
    (\<forall>e. acquire lk k = Panic e \<longleftrightarrow> lk_acquire h lk s = Panic e) \<and>
    (\<forall>t. lk_acquire h lk s = Ok () t \<longrightarrow> (\<exists>k' t'. acquire lk k = Ok () k' \<and> t' = t\<lparr>owns := (owns s)(h := held k')\<rparr> \<and>
       spin_step\<^sup>*\<^sup>* s t' \<and> cpu_view h t' k')) \<and>
    (\<forall>e. release lk k = Panic e \<longleftrightarrow> lk_release h lk s = Panic e) \<and>
    (\<forall>k'. release lk k = Ok () k' \<longrightarrow> (\<exists>t. lk_release h lk s = Ok () t \<and>
       spin_step\<^sup>*\<^sup>* s (t\<lparr>owns := (owns s)(h := held k')\<rparr>) \<and> cpu_view h (t\<lparr>owns := (owns s)(h := held k')\<rparr>) k'))"
proof -
  have v: "cpu_view h s k" by (rule cpu_viewI [OF assms])
  show ?thesis
    using v acquire_view [OF assms(1) v] release_view [OF assms(1) v] by (intro conjI allI impI) auto
qed

theorem spin_refines_held_witness:
  "cpu_view 0 demo_locked (demo_core0 [LKmem]) \<and> (\<exists>t. lk_release 0 LKmem demo_locked = Ok () t) \<and>
     lk_acquire 0 LKmem demo_locked = Panic ''acquire''"
proof -
  have h: "pc demo_locked 0 = Outside" "held (demo_core0 [LKmem]) = owns demo_locked 0"
    by (simp_all add: demo_locked_def demo_spins_def taken_def demo_core0_def)
  have c: "acquire LKmem (demo_core0 [LKmem]) = Panic ''acquire''" "release LKmem (demo_core0 [LKmem]) = Ok () (demo_core0 [])"
    by (simp_all add: acquire_def release_def demo_core0_def)
  show ?thesis using spin_refines_held [OF demo_locked_reach h, of LKmem] c by auto
qed

end
