(* ===== verification/Ulib.thy ===== *)
theory Ulib
  imports Syscall
begin

text \<open>
  User programs: the system calls as a program sees them, \<^verbatim>\<open>user/ulib.c\<close> and
  \<^verbatim>\<open>user/printf.c\<close>.

  A program is a function of what the kernel answers.  The state of a process has the results of the
  \<^verbatim>\<open>read\<close> calls to come (the integer and the bytes stored in the buffer), the integers that the
  other calls return or store, and the calls made so far.  When the list of reads is at its end the
  process waits.  The theorems about a program quantify over the answers, and say what they
  assume of them.

  Strings and buffers are lists of bytes, each object a list of its own; a string is read up to
  its first NUL or to the end of its list.
\<close>

section \<open>Processes and system calls\<close>

datatype call = CRead int nat | CWrite int "u8 list" | COpen "u8 list" u32 | CClose int | CDup int
  | CPipe | CFork | CWait | CExec "u8 list" "u8 list list" | CKill int | CChdir "u8 list"
  | CMknod "u8 list" int int | CLink "u8 list" "u8 list" | CUnlink "u8 list" | CMkdir "u8 list"
  | CFstat int | CSbrk int | CSleep int | CGetpid

record user =
  reads :: "(int \<times> u8 list) list"
  rets :: "nat \<Rightarrow> int"
  calls :: "call list"

text \<open>
  Besides returning, code of a process can exit, be replaced by another program, wait in a \<^verbatim>\<open>read\<close>
  that has no answer, or reach what C leaves undefined (or a loop that was given too few rounds).
\<close>

datatype 'a uout = Ret 'a user | Exited int user | Became "u8 list" "u8 list list" user | Waiting user | Stuck

type_synonym 'a uop = "user \<Rightarrow> 'a uout"

definition uret :: "'a \<Rightarrow> 'a uop" where
  "uret a = (\<lambda>s. Ret a s)"

definition ubind :: "'a uop \<Rightarrow> ('a \<Rightarrow> 'b uop) \<Rightarrow> 'b uop" where
  "ubind m f = (\<lambda>s. case m s of Ret a t \<Rightarrow> f a t | Exited n t \<Rightarrow> Exited n t | Became p av t \<Rightarrow> Became p av t
     | Waiting t \<Rightarrow> Waiting t | Stuck \<Rightarrow> Stuck)"

definition uthen :: "'a uop \<Rightarrow> 'b uop \<Rightarrow> 'b uop" where
  "uthen m n = ubind m (\<lambda>_. n)"

definition uwhen :: "bool \<Rightarrow> unit uop \<Rightarrow> unit uop" where
  "uwhen b m = (if b then m else uret ())"

definition ustuck :: "'a uop" where
  "ustuck = (\<lambda>s. Stuck)"

definition uexit :: "int \<Rightarrow> 'a uop" where
  "uexit n = (\<lambda>s. Exited n s)"

text \<open>The next integer the kernel returns or stores.\<close>

definition next_ret :: "int uop" where
  "next_ret = (\<lambda>s. Ret (rets s 0) (s\<lparr>rets := (\<lambda>n. rets s (Suc n))\<rparr>))"

definition log_call :: "call \<Rightarrow> unit uop" where
  "log_call c = (\<lambda>s. Ret () (s\<lparr>calls := calls s @ [c]\<rparr>))"

definition usys :: "call \<Rightarrow> int uop" where
  "usys c = uthen (log_call c) next_ret"

definition u_read :: "int \<Rightarrow> nat \<Rightarrow> (int \<times> u8 list) uop" where
  "u_read fd n = uthen (log_call (CRead fd n))
     (\<lambda>s. case reads s of [] \<Rightarrow> Waiting s | r # rs \<Rightarrow> Ret r (s\<lparr>reads := rs\<rparr>))"

definition u_write :: "int \<Rightarrow> u8 list \<Rightarrow> int uop" where
  "u_write fd bs = usys (CWrite fd bs)"

definition u_open :: "u8 list \<Rightarrow> u32 \<Rightarrow> int uop" where
  "u_open path mode = usys (COpen path mode)"

definition u_close :: "int \<Rightarrow> int uop" where
  "u_close fd = usys (CClose fd)"

definition u_dup :: "int \<Rightarrow> int uop" where
  "u_dup fd = usys (CDup fd)"

text \<open>\<^verbatim>\<open>pipe(p)\<close>: the result, \<^verbatim>\<open>p[0]\<close> and \<^verbatim>\<open>p[1]\<close>.\<close>

definition u_pipe :: "(int \<times> int \<times> int) uop" where
  "u_pipe = ubind (usys CPipe) (\<lambda>r. ubind next_ret (\<lambda>a. ubind next_ret (\<lambda>b. uret (r, a, b))))"

definition u_fork :: "int uop" where
  "u_fork = usys CFork"

definition u_wait :: "int uop" where
  "u_wait = usys CWait"

text \<open>\<^verbatim>\<open>exec\<close> returns only when it fails.\<close>

definition u_exec :: "u8 list \<Rightarrow> u8 list list \<Rightarrow> int uop" where
  "u_exec path argv = ubind (usys (CExec path argv)) (\<lambda>r. if r < 0 then uret r else (\<lambda>s. Became path argv s))"

record ustat =
  us_type :: int
  us_ino :: int
  us_size :: int

definition u_fstat :: "int \<Rightarrow> (int \<times> ustat) uop" where
  "u_fstat fd = ubind (usys (CFstat fd)) (\<lambda>r. ubind next_ret (\<lambda>t. ubind next_ret (\<lambda>i. ubind next_ret (\<lambda>z.
     uret (r, \<lparr>us_type = t, us_ino = i, us_size = z\<rparr>)))))"

section \<open>Evaluation\<close>

named_theorems user_run "evaluation of one step of a user program"

lemma uret_run [user_run]: "uret a s = Ret a s"
  by (simp add: uret_def)

lemma ubind_run [user_run]: "ubind m f s = (case m s of Ret a t \<Rightarrow> f a t | Exited n t \<Rightarrow> Exited n t | Became p av t \<Rightarrow> Became p av t
     | Waiting t \<Rightarrow> Waiting t | Stuck \<Rightarrow> Stuck)"
  by (simp add: ubind_def)

lemma uthen_run [user_run]: "uthen m n s = (case m s of Ret a t \<Rightarrow> n t | Exited n t \<Rightarrow> Exited n t | Became p av t \<Rightarrow> Became p av t
     | Waiting t \<Rightarrow> Waiting t | Stuck \<Rightarrow> Stuck)"
  by (simp add: uthen_def ubind_def)

lemma uexit_run [user_run]: "uexit n s = Exited n s"
  by (simp add: uexit_def)

lemma uwhen_run [user_run]: "uwhen b m s = (if b then m s else Ret () s)"
  by (simp add: uwhen_def uret_def)

lemma usys_run [user_run]: "usys c s = Ret (rets s 0) (s\<lparr>calls := calls s @ [c], rets := (\<lambda>n. rets s (Suc n))\<rparr>)"
  by (simp add: usys_def uthen_def ubind_def log_call_def next_ret_def)

lemma u_read_run [user_run]:
  "u_read fd n s = (case reads s of [] \<Rightarrow> Waiting (s\<lparr>calls := calls s @ [CRead fd n]\<rparr>)
     | r # rs \<Rightarrow> Ret r (s\<lparr>calls := calls s @ [CRead fd n], reads := rs\<rparr>))"
  by (simp add: u_read_def uthen_def ubind_def log_call_def)

lemma ubind_cong [fundef_cong]:
  "m s = m' s' \<Longrightarrow> s = s' \<Longrightarrow> (\<And>a t. m' s' = Ret a t \<Longrightarrow> f a t = f' a t) \<Longrightarrow> ubind m f s = ubind m' f' s'"
  by (simp add: ubind_def split: uout.split)

lemma uthen_cong [fundef_cong]:
  "m s = m' s' \<Longrightarrow> s = s' \<Longrightarrow> (\<And>a t. m' s' = Ret a t \<Longrightarrow> n t = n' t) \<Longrightarrow> uthen m n s = uthen m' n' s'"
  by (simp add: uthen_def ubind_def split: uout.split)

text \<open>The same for the ways code is put together, applied to a state.\<close>

lemma run_congs [fundef_cong]:
  "b = b' \<Longrightarrow> s = s' \<Longrightarrow> (b' \<Longrightarrow> m s' = m' s') \<Longrightarrow> (\<not> b' \<Longrightarrow> n s' = n' s') \<Longrightarrow> (if b then m else n) s = (if b' then m' else n') s'"
  "x = x' \<Longrightarrow> s = s' \<Longrightarrow> (\<And>y. y = x' \<Longrightarrow> f y s' = f' y s') \<Longrightarrow> (Let x f) s = (Let x' f') s'"
  "p = p' \<Longrightarrow> s = s' \<Longrightarrow> (\<And>x y. p' = (x, y) \<Longrightarrow> g x y s' = g' x y s') \<Longrightarrow> case_prod g p s = case_prod g' p' s'"
  by (auto split: prod.splits)

text \<open>Code that does not add answers.\<close>

definition uses :: "'a uop \<Rightarrow> bool" where
  "uses m \<longleftrightarrow> (\<forall>s a t. m s = Ret a t \<longrightarrow> length (reads t) \<le> length (reads s))"

named_theorems uses_intros "programs that only consume answers"

lemma usesD: "uses m \<Longrightarrow> m s = Ret a t \<Longrightarrow> length (reads t) \<le> length (reads s)"
  by (simp add: uses_def)

lemma uses_basic [uses_intros]: "uses (uret a)" "uses ustuck" "uses (uexit n)" "uses (usys c)" "uses (u_read fd k)" "uses next_ret"
  by (auto simp: uses_def user_run ustuck_def next_ret_def split: list.splits)

lemma uses_bind [uses_intros]: "uses m \<Longrightarrow> (\<And>a. uses (f a)) \<Longrightarrow> uses (ubind m f)"
  unfolding uses_def ubind_def by (fastforce split: uout.splits)

lemma uses_then [uses_intros]: "uses m \<Longrightarrow> uses n \<Longrightarrow> uses (uthen m n)"
  unfolding uthen_def by (rule uses_bind)

lemma uses_if [uses_intros]: "uses m \<Longrightarrow> uses n \<Longrightarrow> uses (if b then m else n)"
  by simp

lemma uses_when [uses_intros]: "uses m \<Longrightarrow> uses (uwhen b m)"
  by (simp add: uwhen_def uses_basic)

lemma uses_calls [uses_intros]: "uses (u_write fd bs)" "uses (u_open p md)" "uses (u_close fd)" "uses (u_dup fd)"
  "uses u_fork" "uses u_wait" "uses u_pipe" "uses (u_exec p av)" "uses (u_fstat fd)"
  by (auto simp: u_write_def u_open_def u_close_def u_dup_def u_fork_def u_wait_def u_pipe_def u_exec_def u_fstat_def
      uses_def user_run next_ret_def split: if_splits)

lemma u_read_less: "u_read fd n s = Ret r t \<Longrightarrow> length (reads t) < length (reads s)"
  by (auto simp: user_run split: list.splits)

section \<open>ulib.c\<close>

text \<open>\<^verbatim>\<open>strcpy\<close> into the buffer \<open>buf\<close> at position \<open>s\<close>.\<close>

function u_strcpy :: "u8 list \<Rightarrow> nat \<Rightarrow> u8 list \<Rightarrow> u8 list" where
  "u_strcpy buf s t =
     (let buf' = buf[s := hd0 t] in if hd0 t \<noteq> 0 then u_strcpy buf' (s + 1) (tl t) else buf')"
  by auto
termination by (relation "measure (\<lambda>(b, s, t). length t)") (auto simp: hd0_def split: list.splits)

function u_strcmp :: "u8 list \<Rightarrow> u8 list \<Rightarrow> int" where
  "u_strcmp p q = (if hd0 p \<noteq> 0 \<and> hd0 p = hd0 q then u_strcmp (tl p) (tl q) else uint (hd0 p) - uint (hd0 q))"
  by auto
termination by (relation "measure (\<lambda>(p, q). length p)") (auto simp: hd0_def split: list.splits)

fun u_strlen :: "u8 list \<Rightarrow> nat" where
  "u_strlen [] = 0"
| "u_strlen (c # s) = (if c = 0 then 0 else Suc (u_strlen s))"

primrec u_memset_loop :: "nat \<Rightarrow> nat \<Rightarrow> u8 \<Rightarrow> u8 list \<Rightarrow> u8 list" where
  "u_memset_loop 0 i c cdst = cdst"
| "u_memset_loop (Suc k) i c cdst = u_memset_loop k (Suc i) c (cdst[i := c])"

definition u_memset :: "u8 list \<Rightarrow> nat \<Rightarrow> u8 \<Rightarrow> nat \<Rightarrow> u8 list" where
  "u_memset dst off c n = u_memset_loop n off c dst"

text \<open>\<^verbatim>\<open>strchr\<close> gives the position of the character instead of a pointer to it.\<close>

fun u_strchr :: "u8 list \<Rightarrow> u8 \<Rightarrow> nat option" where
  "u_strchr [] c = None"
| "u_strchr (x # s) c = (if x = 0 then None else if x = c then Some 0 else map_option Suc (u_strchr s c))"

function gets_loop :: "u8 list \<Rightarrow> nat \<Rightarrow> nat \<Rightarrow> (u8 list \<times> nat) uop" where
  "gets_loop buf i mx s =
     (if i + 1 < mx then
        ubind (u_read 0 1) (\<lambda>(cc, bs).
          if cc < 1 then uret (buf, i)
          else let c = hd0 bs; buf' = buf[i := c]
               in if c = 10 \<or> c = 13 then uret (buf', i + 1) else gets_loop buf' (i + 1) mx) s
      else Ret (buf, i) s)"
  by auto
termination by (relation "measure (\<lambda>(b, i, m, s). m - i)") auto

definition gets :: "u8 list \<Rightarrow> nat \<Rightarrow> (u8 list) uop" where
  "gets buf mx = ubind (gets_loop buf 0 mx) (\<lambda>(buf', i). uret (buf'[i := 0]))"

definition u_stat :: "u8 list \<Rightarrow> (int \<times> ustat) uop" where
  "u_stat n =
     ubind (u_open n O_RDONLY) (\<lambda>fd.
     if fd < 0 then uret (- 1, \<lparr>us_type = 0, us_ino = 0, us_size = 0\<rparr>) else
     ubind (u_fstat fd) (\<lambda>r.
     uthen (u_close fd) (uret r)))"

fun atoi_loop :: "u8 list \<Rightarrow> u32 \<Rightarrow> u32" where
  "atoi_loop [] n = n"
| "atoi_loop (c # s) n = (if 48 \<le> c \<and> c \<le> 57 then atoi_loop s (n * 10 + ucast c - 48) else n)"

definition atoi :: "u8 list \<Rightarrow> int" where
  "atoi s = sint (atoi_loop s 0)"

fun u_memcmp :: "nat \<Rightarrow> u8 list \<Rightarrow> u8 list \<Rightarrow> int" where
  "u_memcmp 0 p1 p2 = 0"
| "u_memcmp (Suc n) p1 p2 = (if hd0 p1 \<noteq> hd0 p2 then uint (hd0 p1) - uint (hd0 p2) else u_memcmp n (tl p1) (tl p2))"

text \<open>\<^verbatim>\<open>memcpy\<close> is \<^verbatim>\<open>memmove\<close>.\<close>

definition ulib_memcpy :: "u64 \<Rightarrow> u64 \<Rightarrow> u32 \<Rightarrow> mem \<Rightarrow> mem" where
  "ulib_memcpy dst src n m = ulib_memmove dst src (sint n) m"

section \<open>printf.c\<close>

definition u_digits :: "u8 list" where
  "u_digits = str_bytes ''0123456789ABCDEF''"

definition u_putc :: "int \<Rightarrow> u8 \<Rightarrow> unit uop" where
  "u_putc fd c = uthen (u_write fd [c]) (uret ())"

primrec u_putcs :: "int \<Rightarrow> u8 list \<Rightarrow> unit uop" where
  "u_putcs fd [] = uret ()"
| "u_putcs fd (c # cs) = uthen (u_putc fd c) (u_putcs fd cs)"

function u_printint_buf :: "nat \<Rightarrow> nat \<Rightarrow> u8 list" where
  "u_printint_buf base x =
     u_digits ! (x mod base) # (if x div base = 0 \<or> base < 2 then [] else u_printint_buf base (x div base))"
  by auto
termination by (relation "measure snd") (auto simp: div_eq_0_iff)

definition u_printint :: "int \<Rightarrow> u32 \<Rightarrow> nat \<Rightarrow> bool \<Rightarrow> unit uop" where
  "u_printint fd xx base sg =
     (let neg = sg \<and> sint xx < 0;
          x = (if neg then - xx else xx);
          buf = u_printint_buf base (unat x) @ (if neg then [45] else [])
      in u_putcs fd (rev buf))"

primrec u_printptr_loop :: "nat \<Rightarrow> int \<Rightarrow> u64 \<Rightarrow> unit uop" where
  "u_printptr_loop 0 fd x = uret ()"
| "u_printptr_loop (Suc k) fd x =
     uthen (u_putc fd (u_digits ! unat (drop_bit 60 x))) (u_printptr_loop k fd (push_bit 4 x))"

definition u_printptr :: "int \<Rightarrow> u64 \<Rightarrow> unit uop" where
  "u_printptr fd x = uthen (u_putc fd 48) (uthen (u_putc fd 120) (u_printptr_loop 16 fd x))"

text \<open>An argument of \<^verbatim>\<open>printf\<close>: a register, or a pointer to a string.\<close>

datatype uarg = UVal u64 | UStr "u8 list option"

definition u_conv :: "int \<Rightarrow> u8 \<Rightarrow> uarg list \<Rightarrow> (uarg list) uop" where
  "u_conv fd c ap =
     (if c = 100 then (case ap of UVal v # r \<Rightarrow> uthen (u_printint fd (ucast v) 10 True) (uret r) | _ \<Rightarrow> ustuck)
      else if c = 108 then (case ap of UVal v # r \<Rightarrow> uthen (u_printint fd (ucast v) 10 False) (uret r) | _ \<Rightarrow> ustuck)
      else if c = 120 then (case ap of UVal v # r \<Rightarrow> uthen (u_printint fd (ucast v) 16 False) (uret r) | _ \<Rightarrow> ustuck)
      else if c = 112 then (case ap of UVal v # r \<Rightarrow> uthen (u_printptr fd v) (uret r) | _ \<Rightarrow> ustuck)
      else if c = 115 then (case ap of
          UStr s # r \<Rightarrow> uthen (u_putcs fd (case s of None \<Rightarrow> str_bytes ''(null)'' | Some t \<Rightarrow> takeWhile (\<lambda>x. x \<noteq> 0) t)) (uret r)
        | _ \<Rightarrow> ustuck)
      else if c = 99 then (case ap of UVal v # r \<Rightarrow> uthen (u_putc fd (ucast v)) (uret r) | _ \<Rightarrow> ustuck)
      else if c = 37 then uthen (u_putc fd c) (uret ap)
      else uthen (u_putc fd 37) (uthen (u_putc fd c) (uret ap)))"

fun vprintf_loop :: "int \<Rightarrow> u8 list \<Rightarrow> bool \<Rightarrow> uarg list \<Rightarrow> unit uop" where
  "vprintf_loop fd [] state ap = uret ()"
| "vprintf_loop fd (c # cs) state ap =
     (if c = 0 then uret ()
      else if \<not> state then (if c = 37 then vprintf_loop fd cs True ap else uthen (u_putc fd c) (vprintf_loop fd cs False ap))
      else ubind (u_conv fd c ap) (vprintf_loop fd cs False))"

definition vprintf :: "int \<Rightarrow> u8 list \<Rightarrow> uarg list \<Rightarrow> unit uop" where
  "vprintf fd fmt ap = vprintf_loop fd fmt False ap"

definition fprintf :: "int \<Rightarrow> u8 list \<Rightarrow> uarg list \<Rightarrow> unit uop" where
  "fprintf fd fmt ap = vprintf fd fmt ap"

definition u_printf :: "u8 list \<Rightarrow> uarg list \<Rightarrow> unit uop" where
  "u_printf fmt ap = vprintf 1 fmt ap"

text \<open>A string literal that ends in \<^verbatim>\<open>\n\<close>.\<close>

definition text_line :: "string \<Rightarrow> u8 list" where
  "text_line s = str_bytes s @ [10]"

lemma uses_putc [uses_intros]: "uses (u_putc fd c)"
  unfolding u_putc_def by (intro uses_intros)

lemma uses_putcs [uses_intros]: "uses (u_putcs fd cs)"
  by (induction cs) (auto intro!: uses_intros)

lemma uses_printint [uses_intros]: "uses (u_printint fd xx base sg)"
  unfolding u_printint_def Let_def by (intro uses_intros)

lemma uses_printptr_loop [uses_intros]: "uses (u_printptr_loop k fd x)"
  by (induction k arbitrary: x) (auto intro!: uses_intros)

lemma uses_conv [uses_intros]: "uses (u_conv fd c ap)"
  unfolding u_conv_def u_printptr_def by (auto intro!: uses_intros split: list.split uarg.split)

lemma uses_vprintf [uses_intros]: "uses (vprintf_loop fd fmt st ap)" "uses (vprintf fd fmt ap)" "uses (fprintf fd fmt ap)" "uses (u_printf fmt ap)"
proof -
  show "uses (vprintf_loop fd fmt st ap)" for fd fmt st ap
    by (induction fmt arbitrary: st ap) (auto intro!: uses_intros)
  then show "uses (vprintf fd fmt ap)" "uses (fprintf fd fmt ap)" "uses (u_printf fmt ap)"
    by (simp_all add: vprintf_def fprintf_def u_printf_def)
qed

section \<open>Output\<close>

text \<open>The bytes a process has written to a file descriptor.\<close>

definition written :: "int \<Rightarrow> user \<Rightarrow> u8 list" where
  "written fd s = concat (map (\<lambda>c. case c of CWrite f bs \<Rightarrow> if f = fd then bs else [] | _ \<Rightarrow> []) (calls s))"

lemma written_usys: "written fd (s\<lparr>calls := calls s @ [CWrite f bs], rets := r\<rparr>) = written fd s @ (if f = fd then bs else [])"
  by (simp add: written_def)

text \<open>A process whose reads give \<open>rs\<close> and whose other calls return 0.\<close>

definition demo_user :: "(int \<times> u8 list) list \<Rightarrow> user" where
  "demo_user rs = \<lparr>reads = rs, rets = (\<lambda>_. 0), calls = []\<rparr>"

end
