(* ===== verification/Grep.thy ===== *)
theory Grep
  imports Ulib
begin

text \<open>
  \<^verbatim>\<open>user/grep.c\<close>: the matcher and the loop that cuts the input into lines.  The matcher is shown
  equivalent to a declarative semantics of the patterns, and the loop to print exactly the matching
  lines, however the kernel cuts the input into pieces.
\<close>

section \<open>The program\<close>

function (sequential) matchhere :: "u8 list \<Rightarrow> u8 list \<Rightarrow> bool"
  and matchstar :: "u8 \<Rightarrow> u8 list \<Rightarrow> u8 list \<Rightarrow> bool" where
  "matchhere re tx =
     (if hd0 re = 0 then True
      else if hd0 (tl re) = 42 then matchstar (hd0 re) (tl (tl re)) tx
      else if hd0 re = 36 \<and> hd0 (tl re) = 0 then hd0 tx = 0
      else if hd0 tx \<noteq> 0 \<and> (hd0 re = 46 \<or> hd0 re = hd0 tx) then matchhere (tl re) (tl tx)
      else False)"
| "matchstar c re tx =
     (if matchhere re tx then True
      else if hd0 tx \<noteq> 0 \<and> (hd0 tx = c \<or> c = 46) then matchstar c re (tl tx)
      else False)"
  by pat_completeness auto
termination
  by (relation "measures [\<lambda>x. case x of Inl (re, tx) \<Rightarrow> length re | Inr (c, re, tx) \<Rightarrow> length re,
        \<lambda>x. case x of Inl (re, tx) \<Rightarrow> length tx | Inr (c, re, tx) \<Rightarrow> length tx,
        \<lambda>x. case x of Inl _ \<Rightarrow> 0 | Inr _ \<Rightarrow> 1]")
    (auto simp: hd0_def split: list.splits)

function match_from :: "u8 list \<Rightarrow> u8 list \<Rightarrow> bool" where
  "match_from re tx = (if matchhere re tx then True else if hd0 tx \<noteq> 0 then match_from re (tl tx) else False)"
  by auto
termination by (relation "measure (\<lambda>(r, t). length t)") (auto simp: hd0_def split: list.splits)

definition match :: "u8 list \<Rightarrow> u8 list \<Rightarrow> bool" where
  "match re tx = (if hd0 re = 94 then matchhere (tl re) tx else match_from re tx)"

declare matchhere.simps [simp del] matchstar.simps [simp del] match_from.simps [simp del]

text \<open>The loop over the lines in \<^verbatim>\<open>buf\<close>, from position \<^verbatim>\<open>p\<close>.\<close>

definition gbuf_size :: nat where
  "gbuf_size = 1024"

lemma u_strchr_Some: "u_strchr xs c = Some k \<Longrightarrow> k < length xs \<and> xs ! k = c"
  by (induction xs arbitrary: k) (auto split: if_splits)

function grep_scan :: "u8 list \<Rightarrow> u8 list \<Rightarrow> nat \<Rightarrow> (u8 list \<times> nat) uop" where
  "grep_scan pattern buf p s =
     (case u_strchr (drop p buf) 10 of
        None \<Rightarrow> Ret (buf, p) s
      | Some k \<Rightarrow>
          let q = p + k; buf' = buf[q := 0]
          in if match pattern (takeWhile (\<lambda>c. c \<noteq> 0) (drop p buf'))
             then let buf'' = buf'[q := 10]
                  in uthen (u_write 1 (take (q + 1 - p) (drop p buf''))) (grep_scan pattern buf'' (q + 1)) s
             else grep_scan pattern buf' (q + 1) s)"
  by auto
termination
  by (relation "measure (\<lambda>(pat, buf, p, s). length buf - p)") (auto dest!: u_strchr_Some)

function grep_loop :: "u8 list \<Rightarrow> int \<Rightarrow> u8 list \<Rightarrow> nat \<Rightarrow> (u8 list) uop" where
  "grep_loop pattern fd buf m s =
     ubind (u_read fd (gbuf_size - m - 1)) (\<lambda>(n, bs).
       if n > 0 then
         let m' = m + nat n; buf' = (put_bytes buf m bs)[m' := 0]
         in ubind (grep_scan pattern buf' 0) (\<lambda>(buf'', p).
              if m' > 0 then let m'' = m' - p in grep_loop pattern fd (put_bytes buf'' 0 (take m'' (drop p buf''))) m''
              else grep_loop pattern fd buf'' m')
       else uret buf) s"
  by auto

declare grep_scan.simps [simp del]

text \<open>One round of the loop over the lines.\<close>

definition wrote :: "u8 list \<Rightarrow> user \<Rightarrow> user" where
  "wrote bs s = s\<lparr>calls := calls s @ [CWrite 1 bs], rets := (\<lambda>n. rets s (Suc n))\<rparr>"

lemma reads_wrote [simp]: "reads (wrote bs s) = reads s"
  by (simp add: wrote_def)

lemma grep_scan_stop: "u_strchr (drop p buf) 10 = None \<Longrightarrow> grep_scan pattern buf p s = Ret (buf, p) s"
  by (simp add: grep_scan.simps)

lemma grep_scan_round:
  assumes "u_strchr (drop p buf) 10 = Some k"
  shows "grep_scan pattern buf p s = (let buf' = buf[p + k := 0] in
    if match pattern (takeWhile (\<lambda>c. c \<noteq> 0) (drop p buf'))
    then grep_scan pattern (buf[p + k := 10]) (p + k + 1) (wrote (take (k + 1) (drop p (buf[p + k := 10]))) s)
    else grep_scan pattern buf' (p + k + 1) s)"
  by (subst grep_scan.simps) (simp add: assms user_run u_write_def wrote_def Let_def)

lemma reads_grep_scan: "grep_scan pattern buf p s = Ret a t \<Longrightarrow> reads t = reads s"
proof (induction "length buf - p" arbitrary: buf p s rule: less_induct)
  case less
  show ?case
  proof (cases "u_strchr (drop p buf) 10")
    case None
    then show ?thesis using less.prems by (simp add: grep_scan_stop)
  next
    case (Some k)
    have k: "length buf - (p + k + 1) < length buf - p" using u_strchr_Some [OF Some] by auto
    show ?thesis
      using less.prems less.hyps [of "buf[p + k := 10]" "p + k + 1"] less.hyps [of "buf[p + k := 0]" "p + k + 1"] k
      by (fastforce simp: grep_scan_round [OF Some] Let_def split: if_splits)
  qed
qed

termination grep_loop
  by (relation "measure (\<lambda>(pat, fd, buf, m, s). length (reads s))")
    (auto dest!: u_read_less reads_grep_scan)

declare grep_loop.simps [simp del]

definition grep :: "u8 list \<Rightarrow> int \<Rightarrow> u8 list \<Rightarrow> (u8 list) uop" where
  "grep pattern fd buf = grep_loop pattern fd buf 0"

fun grep_files :: "u8 list \<Rightarrow> u8 list list \<Rightarrow> u8 list \<Rightarrow> unit uop" where
  "grep_files pattern [] buf = uexit 0"
| "grep_files pattern (f # fs) buf =
     ubind (u_open f 0) (\<lambda>fd.
     if fd < 0 then uthen (u_printf (text_line ''grep: cannot open %s'') [UStr (Some f)]) (uexit 1) else
     ubind (grep pattern fd buf) (\<lambda>buf'.
     uthen (u_close fd) (grep_files pattern fs buf')))"

definition grep_main :: "u8 list list \<Rightarrow> unit uop" where
  "grep_main argv =
     (let buf = replicate gbuf_size 0 in
      if length argv \<le> 1 then uthen (fprintf 2 (text_line ''usage: grep pattern [file ...]'') []) (uexit 1)
      else if length argv \<le> 2 then ubind (grep (argv ! 1) 0 buf) (\<lambda>_. uexit 0)
      else grep_files (argv ! 1) (drop 2 argv) buf)"

section \<open>What a pattern means\<close>

datatype ritem = One u8 | Many u8

text \<open>A pattern without its anchors: a list of characters, \<^verbatim>\<open>.\<close> or either followed by \<^verbatim>\<open>*\<close>.\<close>

fun ritems :: "u8 list \<Rightarrow> ritem list" where
  "ritems [] = []"
| "ritems [c] = (if c = 36 then [] else [One c])"
| "ritems (c # d # r) = (if d = 42 then Many c # ritems r else One c # ritems (d # r))"

text \<open>A \<^verbatim>\<open>$\<close> that ends the pattern and is not starred anchors it at the end of the line.\<close>

fun at_end :: "u8 list \<Rightarrow> bool" where
  "at_end [] = False"
| "at_end [c] = (c = 36)"
| "at_end (c # d # r) = (if d = 42 then at_end r else at_end (d # r))"

definition chars :: "u8 \<Rightarrow> u8 set" where
  "chars p = (if p = 46 then UNIV else {p})"

fun lang :: "ritem list \<Rightarrow> u8 list set" where
  "lang [] = {[]}"
| "lang (One p # is) = {c # w | c w. c \<in> chars p \<and> w \<in> lang is}"
| "lang (Many p # is) = {u @ w | u w. set u \<subseteq> chars p \<and> w \<in> lang is}"

definition here :: "u8 list \<Rightarrow> u8 list \<Rightarrow> bool" where
  "here re tx \<longleftrightarrow> (\<exists>u v. tx = u @ v \<and> u \<in> lang (ritems re) \<and> (at_end re \<longrightarrow> v = []))"

lemma here_Nil [simp]: "here [] tx"
  by (simp add: here_def)

lemma here_dollar: "here [36] tx \<longleftrightarrow> tx = []"
  by (simp add: here_def)

lemma here_many: "here (p # 42 # r) tx \<longleftrightarrow> (\<exists>u t. tx = u @ t \<and> set u \<subseteq> chars p \<and> here r t)" (is "?l \<longleftrightarrow> ?r")
proof
  assume ?l
  then obtain x v where t: "tx = x @ v" and x: "x \<in> lang (Many p # ritems r)" and v: "at_end r \<longrightarrow> v = []"
    unfolding here_def by auto
  from x obtain u w where u: "x = u @ w" "set u \<subseteq> chars p" "w \<in> lang (ritems r)" by auto
  then have "here r (w @ v)" unfolding here_def using v by blast
  then show ?r using t u by auto
next
  assume ?r
  then obtain u w v where t: "tx = u @ w @ v" "set u \<subseteq> chars p" and w: "w \<in> lang (ritems r)" "at_end r \<longrightarrow> v = []"
    unfolding here_def by blast
  then have "u @ w \<in> lang (ritems (p # 42 # r))" by auto
  moreover have "tx = (u @ w) @ v" "at_end (p # 42 # r) \<longrightarrow> v = []" using t w by simp_all
  ultimately show ?l unfolding here_def by blast
qed

lemma here_star: "here (p # 42 # r) tx \<longleftrightarrow> here r tx \<or> (\<exists>c t. tx = c # t \<and> c \<in> chars p \<and> here (p # 42 # r) t)" (is "?l \<longleftrightarrow> ?r")
proof
  assume ?l
  then obtain u t where u: "tx = u @ t" "set u \<subseteq> chars p" "here r t" unfolding here_many by blast
  then show ?r unfolding here_many by (cases u) auto
next
  assume ?r
  then show ?l unfolding here_many
  proof (elim disjE exE conjE)
    assume "here r tx"
    then show "\<exists>u t. tx = u @ t \<and> set u \<subseteq> chars p \<and> here r t" by (metis append_Nil empty_set empty_subsetI)
  next
    fix c t u v assume "tx = c # t" "c \<in> chars p" "t = u @ v" "set u \<subseteq> chars p" "here r v"
    then show "\<exists>u t. tx = u @ t \<and> set u \<subseteq> chars p \<and> here r t" by (intro exI [of _ "c # u"] exI [of _ v]) simp
  qed
qed

lemma here_one:
  assumes "hd0 r \<noteq> 42" and "\<not> (p = 36 \<and> r = [])"
  shows "here (p # r) tx \<longleftrightarrow> (\<exists>c t. tx = c # t \<and> c \<in> chars p \<and> here r t)"
proof -
  have i: "ritems (p # r) = One p # ritems r" "at_end (p # r) = at_end r" using assms by (cases r; simp)+
  show ?thesis
  proof
    assume "here (p # r) tx"
    then obtain u v where t: "tx = u @ v" and u: "u \<in> lang (One p # ritems r)" and v: "at_end r \<longrightarrow> v = []"
      unfolding here_def i by blast
    from u obtain c w where "u = c # w" "c \<in> chars p" "w \<in> lang (ritems r)" by auto
    then show "\<exists>c t. tx = c # t \<and> c \<in> chars p \<and> here r t" unfolding here_def using t v by auto
  next
    assume "\<exists>c t. tx = c # t \<and> c \<in> chars p \<and> here r t"
    then obtain c w v where t: "tx = (c # w) @ v" and c: "c \<in> chars p" "w \<in> lang (ritems r)" and v: "at_end r \<longrightarrow> v = []"
      unfolding here_def by auto
    have "c # w \<in> lang (One p # ritems r)" using c by simp
    then show "here (p # r) tx" unfolding here_def i using t v by blast
  qed
qed

lemma matcher_here:
  "0 \<notin> set re \<Longrightarrow> 0 \<notin> set tx \<Longrightarrow> matchhere re tx \<longleftrightarrow> here re tx"
  "0 \<notin> set re \<Longrightarrow> 0 \<notin> set tx \<Longrightarrow> matchstar c re tx \<longleftrightarrow> here (c # 42 # re) tx"
proof (induction re tx and c re tx rule: matchhere_matchstar.induct)
  case (1 re tx)
  show ?case
  proof (cases re)
    case Nil
    then show ?thesis by (simp add: matchhere.simps)
  next
    case (Cons p r)
    have p: "p \<noteq> 0" "0 \<notin> set r" using 1(3) Cons by auto
    have tx0: "hd0 tx = 0 \<longleftrightarrow> tx = []" using 1(4) by (cases tx) auto
    consider (star) r' where "r = 42 # r'" | (dollar) "p = 36" "r = []" | (one) "hd0 r \<noteq> 42" "\<not> (p = 36 \<and> r = [])"
      by (cases r) auto
    then show ?thesis
    proof cases
      case star
      then show ?thesis using 1(1) p Cons 1(4) by (subst matchhere.simps) simp
    next
      case dollar
      then show ?thesis using Cons tx0 by (subst matchhere.simps) (simp add: here_dollar)
    next
      case one
      have "hd0 r = 0 \<longleftrightarrow> r = []" using p(2) by (cases r) auto
      then have m: "matchhere re tx \<longleftrightarrow> hd0 tx \<noteq> 0 \<and> (p = 46 \<or> p = hd0 tx) \<and> matchhere r (tl tx)"
        using one p Cons by (subst matchhere.simps) auto
      have "matchhere r (tl tx) \<longleftrightarrow> here r (tl tx)" if "hd0 tx \<noteq> 0" "p = 46 \<or> p = hd0 tx"
        using 1(2) that one p Cons 1(4) \<open>hd0 r = 0 \<longleftrightarrow> r = []\<close> by (cases tx) auto
      moreover have "here re tx \<longleftrightarrow> (\<exists>c t. tx = c # t \<and> c \<in> chars p \<and> here r t)" unfolding Cons by (rule here_one [OF one])
      ultimately show ?thesis unfolding m using tx0 by (cases tx) (auto simp: chars_def)
    qed
  qed
next
  case (2 c re tx)
  have tx0: "hd0 tx = 0 \<longleftrightarrow> tx = []" using 2(4) by (cases tx) auto
  show ?case
  proof (cases "matchhere re tx")
    case True
    then show ?thesis using 2(1) 2(3,4) by (subst matchstar.simps, subst here_star) simp
  next
    case False
    have "matchstar c re (tl tx) \<longleftrightarrow> here (c # 42 # re) (tl tx)" if "hd0 tx \<noteq> 0" "hd0 tx = c \<or> c = 46"
      using 2(2) [OF False] that 2(3,4) by (cases tx) auto
    then show ?thesis using False 2(1) 2(3,4) tx0
      by (subst matchstar.simps, subst here_star) (cases tx; auto simp: chars_def)
  qed
qed

lemma match_from_here:
  "0 \<notin> set re \<Longrightarrow> 0 \<notin> set tx \<Longrightarrow> match_from re tx \<longleftrightarrow> (\<exists>pre t. tx = pre @ t \<and> here re t)"
proof (induction tx)
  case Nil
  then show ?case by (simp add: match_from.simps [of re "[]"] matcher_here)
next
  case (Cons c t)
  then have "match_from re (c # t) \<longleftrightarrow> here re (c # t) \<or> (\<exists>pre u. t = pre @ u \<and> here re u)"
    by (simp add: match_from.simps [of re "c # t"] matcher_here)
  then show ?case by (auto simp: Cons_eq_append_conv)
qed

text \<open>
  C33. \<^verbatim>\<open>match\<close> decides the language of its pattern.  For a pattern and a line without NUL bytes, it
  answers 1 exactly when some part of the line is in the language of the pattern, in which a
  character stands for itself, \<^verbatim>\<open>.\<close> for any character and a starred one for any number of
  repetitions, that part being at the start of the line if the pattern starts with \<^verbatim>\<open>^\<close> and at
  its end if it ends with an unstarred \<^verbatim>\<open>$\<close>.
\<close>

theorem match_language:
  assumes "0 \<notin> set re" and "0 \<notin> set tx"
  shows "match re tx \<longleftrightarrow> (\<exists>pre u post. tx = pre @ u @ post \<and>
    (if hd0 re = 94 then pre = [] \<and> u \<in> lang (ritems (tl re)) \<and> (at_end (tl re) \<longrightarrow> post = [])
     else u \<in> lang (ritems re) \<and> (at_end re \<longrightarrow> post = [])))"
proof -
  have "0 \<notin> set (tl re)" using assms(1) by (cases re) auto
  then show ?thesis using assms by (auto simp: match_def matcher_here match_from_here here_def)
qed

theorem match_language_witness:
  "match (str_bytes ''^a.*z$'') (str_bytes ''abcz'') \<and> str_bytes ''abcz'' \<in> lang (ritems (str_bytes ''a.*z$''))"
proof -
  have z: "0 \<notin> set (str_bytes ''^a.*z$'')" "0 \<notin> set (str_bytes ''abcz'')" by code_simp+
  have m: "match (str_bytes ''^a.*z$'') (str_bytes ''abcz'')" "hd0 (str_bytes ''^a.*z$'') = 94" "at_end (tl (str_bytes ''^a.*z$''))"
    "tl (str_bytes ''^a.*z$'') = str_bytes ''a.*z$''"
    by code_simp+
  show ?thesis using match_language [OF z] m by auto
qed
section \<open>Lines\<close>

text \<open>The complete lines of a text, each with its newline, and what follows the last newline.\<close>

function full_lines :: "u8 list \<Rightarrow> u8 list list" where
  "full_lines xs = (case u_strchr xs 10 of None \<Rightarrow> [] | Some k \<Rightarrow> take (k + 1) xs # full_lines (drop (k + 1) xs))"
  by auto
termination by (relation "measure length") (auto dest!: u_strchr_Some)

function after_nl :: "u8 list \<Rightarrow> u8 list" where
  "after_nl xs = (case u_strchr xs 10 of None \<Rightarrow> xs | Some k \<Rightarrow> after_nl (drop (k + 1) xs))"
  by auto
termination by (relation "measure length") (auto dest!: u_strchr_Some)

declare full_lines.simps [simp del] after_nl.simps [simp del]

lemma u_strchr_append: "u_strchr xs c = Some k \<Longrightarrow> u_strchr (xs @ ys) c = Some k"
  by (induction xs arbitrary: k) (auto split: if_splits)

lemma u_strchr_None: "u_strchr xs c = None \<Longrightarrow> 0 \<notin> set xs \<Longrightarrow> c \<notin> set xs"
  by (induction xs) (auto split: if_splits)

lemma u_strchr_before: "u_strchr xs c = Some k \<Longrightarrow> 0 \<notin> set (take k xs) \<and> c \<notin> set (take k xs)"
  by (induction xs arbitrary: k) (auto split: if_splits)

lemma lines_append:
  "full_lines (xs @ ys) = full_lines xs @ full_lines (after_nl xs @ ys)"
  "after_nl (xs @ ys) = after_nl (after_nl xs @ ys)"
proof (induction "length xs" arbitrary: xs rule: less_induct)
  case less
  {
    case 1
    show ?case
    proof (cases "u_strchr xs 10")
      case None
      then show ?thesis by (simp add: full_lines.simps [of xs] after_nl.simps [of xs])
    next
      case (Some k)
      note k = u_strchr_Some [OF Some]
      have "full_lines (drop (k + 1) xs @ ys) = full_lines (drop (k + 1) xs) @ full_lines (after_nl (drop (k + 1) xs) @ ys)"
        using less.hyps(1) [of "drop (k + 1) xs"] k by auto
      then show ?thesis using k
        by (simp add: full_lines.simps [of xs] full_lines.simps [of "xs @ ys"] after_nl.simps [of xs] Some u_strchr_append [OF Some])
    qed
  next
    case 2
    show ?case
    proof (cases "u_strchr xs 10")
      case None
      then show ?thesis by (simp add: after_nl.simps [of xs])
    next
      case (Some k)
      note k = u_strchr_Some [OF Some]
      have "after_nl (drop (k + 1) xs @ ys) = after_nl (after_nl (drop (k + 1) xs) @ ys)"
        using less.hyps(2) [of "drop (k + 1) xs"] k by auto
      then show ?thesis using k by (simp add: after_nl.simps [of "xs @ ys"] after_nl.simps [of xs] Some u_strchr_append [OF Some])
    qed
  }
qed

lemma after_nl_suffix: "\<exists>ys. xs = ys @ after_nl xs"
proof (induction "length xs" arbitrary: xs rule: less_induct)
  case less
  show ?case
  proof (cases "u_strchr xs 10")
    case None
    then show ?thesis by (simp add: after_nl.simps [of xs])
  next
    case (Some k)
    have "length (drop (k + 1) xs) < length xs" using u_strchr_Some [OF Some] by auto
    from less [OF this] obtain ys where "drop (k + 1) xs = ys @ after_nl (drop (k + 1) xs)" ..
    then have "xs = (take (k + 1) xs @ ys) @ after_nl (drop (k + 1) xs)" by (metis append.assoc append_take_drop_id)
    then show ?thesis by (metis Some after_nl.simps option.simps(5))
  qed
qed

lemma after_nl_none: "0 \<notin> set xs \<Longrightarrow> u_strchr (after_nl xs) 10 = None"
proof (induction "length xs" arbitrary: xs rule: less_induct)
  case less
  show ?case
  proof (cases "u_strchr xs 10")
    case (Some k)
    moreover have "0 \<notin> set (drop (k + 1) xs)" using less.prems by (meson in_set_dropD)
    ultimately show ?thesis using less.hyps [of "drop (k + 1) xs"] u_strchr_Some [OF Some] by (auto simp: after_nl.simps [of xs])
  qed (simp add: after_nl.simps [of xs])
qed

lemma full_lines_rest: "0 \<notin> set xs \<Longrightarrow> full_lines (after_nl xs) = []"
  by (simp add: full_lines.simps [of "after_nl xs"] after_nl_none)

section \<open>What grep prints\<close>

lemma written_wrote [simp]: "written 1 (wrote bs s) = written 1 s @ bs"
  by (simp add: written_def wrote_def)

text \<open>What \<^verbatim>\<open>grep\<close> should print of the lines of a text.\<close>

definition matching :: "u8 list \<Rightarrow> u8 list \<Rightarrow> u8 list" where
  "matching pattern xs = concat (filter (\<lambda>l. match pattern (butlast l)) (full_lines xs))"

lemma matching_append: "matching pattern (xs @ ys) = matching pattern xs @ matching pattern (after_nl xs @ ys)"
  unfolding matching_def by (subst lines_append(1)) simp

lemma u_strchr_stop: "0 \<notin> set xs \<Longrightarrow> u_strchr (xs @ 0 # ys) c = u_strchr xs c"
  by (induction xs) auto

text \<open>\<^verbatim>\<open>buf\<close> has text between \<^verbatim>\<open>p\<close> and \<^verbatim>\<open>m\<close> and a NUL after it.\<close>

definition holds :: "u8 list \<Rightarrow> nat \<Rightarrow> u8 list \<Rightarrow> bool" where
  "holds buf p xs \<longleftrightarrow> (\<exists>ys. drop p buf = xs @ 0 # ys) \<and> 0 \<notin> set xs"

lemma drop_update_before: "i < p \<Longrightarrow> drop p (buf[i := c]) = drop p buf"
  by (rule nth_equalityI) auto

lemma holds_drop:
  assumes "holds buf p xs" and "k < length xs"
  shows "holds (buf[p + k := c]) (p + k + 1) (drop (k + 1) xs)"
proof -
  obtain ys where ys: "drop p buf = xs @ 0 # ys" and z: "0 \<notin> set xs" using assms(1) unfolding holds_def by blast
  have "drop (p + k + 1) buf = drop (k + 1) (drop p buf)" by (simp add: add.commute add.left_commute)
  also have "\<dots> = drop (k + 1) xs @ 0 # ys" using ys assms(2) by simp
  finally show ?thesis unfolding holds_def using z by (auto simp: drop_update_before dest: in_set_dropD)
qed

lemma takeWhile_nul: "0 \<notin> set xs \<Longrightarrow> takeWhile (\<lambda>c. c \<noteq> 0) (xs @ 0 # ys) = (xs :: u8 list)"
  by (induction xs) auto

lemma holds_line:
  assumes "holds buf p xs" and "u_strchr xs 10 = Some k"
  shows "takeWhile (\<lambda>c. c \<noteq> 0) (drop p (buf[p + k := 0])) = take k xs" and "take (k + 1) (drop p (buf[p + k := 10])) = take (k + 1) xs"
proof -
  obtain ys where ys: "drop p buf = xs @ 0 # ys" using assms(1) unfolding holds_def by blast
  note k = u_strchr_Some [OF assms(2)]
  have d: "drop p (buf[p + k := c]) = (drop p buf)[k := c]" for c by (simp add: drop_update_swap)
  have xs: "xs = take k xs @ 10 # drop (k + 1) xs" using id_take_nth_drop [of k xs] k by simp
  have "drop p (buf[p + k := 0]) = take k xs @ 0 # drop (k + 1) xs @ 0 # ys"
    unfolding d ys using k by (subst xs) (simp add: list_update_append)
  moreover have "0 \<notin> set (take k xs)" using u_strchr_before [OF assms(2)] by simp
  ultimately show "takeWhile (\<lambda>c. c \<noteq> 0) (drop p (buf[p + k := 0])) = take k xs"
    by (simp add: takeWhile_nul)
  have "drop p (buf[p + k := 10]) = xs @ 0 # ys"
    unfolding d ys using k by (simp add: list_update_append) (metis list_update_id)
  then show "take (k + 1) (drop p (buf[p + k := 10])) = take (k + 1) xs" using k by simp
qed

lemma grep_scan_prints:
  assumes "holds buf p xs"
  shows "\<exists>buf' p' t. grep_scan pattern buf p s = Ret (buf', p') t \<and> holds buf' p' (after_nl xs) \<and> p' + length (after_nl xs) = p + length xs \<and>
    length buf' = length buf \<and> reads t = reads s \<and> written 1 t = written 1 s @ matching pattern xs"
  using assms
proof (induction "length xs" arbitrary: buf p xs s rule: less_induct)
  case less
  obtain ys where ys: "drop p buf = xs @ 0 # ys" and z: "0 \<notin> set xs" using less.prems unfolding holds_def by blast
  have chr: "u_strchr (drop p buf) 10 = u_strchr xs 10" unfolding ys by (rule u_strchr_stop [OF z])
  show ?case
  proof (cases "u_strchr xs 10")
    case None
    then show ?thesis using less.prems chr
      by (simp add: grep_scan_stop after_nl.simps [of xs] matching_def full_lines.simps [of xs])
  next
    case (Some k)
    note k = u_strchr_Some [OF Some]
    let ?l = "take (k + 1) xs" and ?xs = "drop (k + 1) xs"
    let ?hit = "match pattern (take k xs)"
    let ?buf = "buf[p + k := if ?hit then 10 else 0]" and ?s = "if ?hit then wrote ?l s else s"
    have run: "grep_scan pattern buf p s = grep_scan pattern ?buf (p + k + 1) ?s"
      using chr Some by (simp add: grep_scan_round Let_def holds_line [OF less.prems Some] del: One_nat_def)
    have bl: "butlast ?l = take k xs" using k by (simp add: butlast_take)
    have m: "matching pattern xs = (if ?hit then ?l else []) @ matching pattern ?xs"
      using bl by (simp add: matching_def full_lines.simps [of xs] Some)
    have a: "after_nl xs = after_nl ?xs" by (simp add: after_nl.simps [of xs] Some)
    have h: "holds ?buf (p + k + 1) ?xs" by (rule holds_drop [OF less.prems]) (use k in simp)
    have "length ?xs < length xs" using k by auto
    from less.hyps [OF this h, of ?s] show ?thesis unfolding run m a using k by auto
  qed
qed

text \<open>
  The reads deliver the text in pieces.  \<open>xs\<close> is what is left in the buffer of the pieces before;
  a piece is not empty and no longer than the room \<^verbatim>\<open>read\<close> was given.
\<close>

fun pieces_fit :: "u8 list \<Rightarrow> u8 list list \<Rightarrow> bool" where
  "pieces_fit xs [] = True"
| "pieces_fit xs (c # cs) = (c \<noteq> [] \<and> length c \<le> gbuf_size - length xs - 1 \<and> pieces_fit (after_nl (xs @ c)) cs)"

lemma grep_loop_prints:
  assumes "pieces_fit xs cs" and "length xs < gbuf_size" and "take (length xs) buf = xs" and "length buf = gbuf_size"
    and "0 \<notin> set xs" and "u_strchr xs 10 = None" and "\<forall>c\<in>set cs. 0 \<notin> set c" and "r \<le> 0"
    and "reads s = map (\<lambda>c. (int (length c), c)) cs @ (r, []) # rest"
  shows "\<exists>buf' t. grep_loop pattern fd buf (length xs) s = Ret buf' t \<and> length buf' = gbuf_size \<and> reads t = rest \<and>
    written 1 t = written 1 s @ matching pattern (xs @ concat cs)"
  using assms
proof (induction cs arbitrary: xs buf s)
  case Nil
  then show ?case
    by (subst grep_loop.simps) (simp add: user_run written_def matching_def full_lines.simps [of xs])
next
  case (Cons c cs)
  let ?m = "length xs + length c" and ?ys = "after_nl (xs @ c)"
  let ?s = "s\<lparr>calls := calls s @ [CRead fd (gbuf_size - length xs - 1)], reads := map (\<lambda>c. (int (length c), c)) cs @ (r, []) # rest\<rparr>"
  let ?buf = "(put_bytes buf (length xs) c)[?m := 0]"
  have c: "c \<noteq> []" "?m < gbuf_size" "pieces_fit ?ys cs" using Cons.prems(1,2) by auto
  have pb: "put_bytes buf (length xs) c = (xs @ c) @ drop ?m buf" using Cons.prems(3) by (simp add: put_bytes_def)
  have "?buf = (xs @ c) @ 0 # drop (?m + 1) buf"
    unfolding pb using c(2) Cons.prems(4) by (subst id_take_nth_drop [of 0 "drop ?m buf"]) (auto simp: list_update_append)
  then have h: "holds ?buf 0 (xs @ c)" unfolding holds_def using Cons.prems(5,7) by auto
  have lb: "length ?buf = gbuf_size" unfolding pb using c(2) Cons.prems(4) by simp
  obtain buf' p t where sc: "grep_scan pattern ?buf 0 ?s = Ret (buf', p) t" and h': "holds buf' p ?ys" and p: "p + length ?ys = ?m"
    and l: "length buf' = gbuf_size" and t: "reads t = reads ?s" "written 1 t = written 1 ?s @ matching pattern (xs @ c)"
    using grep_scan_prints [OF h, of pattern ?s] lb by auto
  let ?b = "put_bytes buf' 0 (take (length ?ys) (drop p buf'))"
  have p': "length xs + length c - p = length ?ys" using p by simp
  have run: "grep_loop pattern fd buf (length xs) s = grep_loop pattern fd ?b (length ?ys) t"
    using Cons.prems(9) c(1) sc p' by (subst grep_loop.simps) (auto simp: user_run Let_def)
  obtain zs where zs: "drop p buf' = ?ys @ 0 # zs" and z: "0 \<notin> set ?ys" using h' unfolding holds_def by blast
  have b: "take (length ?ys) ?b = ?ys" "length ?b = gbuf_size"
    using l zs c(2) p by (auto simp: put_bytes_def)
  have "u_strchr ?ys 10 = None" by (rule after_nl_none) (use Cons.prems(5,7) in auto)
  moreover have "length ?ys < gbuf_size" using p c(2) by simp
  moreover have "\<forall>c\<in>set cs. 0 \<notin> set c" "reads t = map (\<lambda>c. (int (length c), c)) cs @ (r, []) # rest" using Cons.prems(7) t(1) by simp_all
  ultimately obtain buf2 u where "grep_loop pattern fd ?b (length ?ys) t = Ret buf2 u" "length buf2 = gbuf_size" "reads u = rest"
    "written 1 u = written 1 t @ matching pattern (?ys @ concat cs)"
    using Cons.IH [OF c(3) _ b(1,2) z _ _ Cons.prems(8)] by blast
  moreover have "written 1 ?s = written 1 s" by (simp add: written_def)
  ultimately show ?case unfolding run using t(2) matching_append [of pattern "xs @ c" "concat cs"] by auto
qed

text \<open>
  C34. \<^verbatim>\<open>grep\<close> prints the lines of its input that match, whole and in order, and nothing else, however
  the kernel cuts the input into pieces.  The input has no NUL, and the reads deliver it in pieces
  that fit the space they were given (so no line is longer than the buffer) before one that
  returns 0 or an error.  A last line without a newline is not printed.
\<close>

theorem grep_prints:
  assumes "pieces_fit [] cs" and "length buf = gbuf_size" and "0 \<notin> set (concat cs)" and "r \<le> 0"
    and "reads s = map (\<lambda>c. (int (length c), c)) cs @ (r, []) # rest"
  shows "\<exists>buf' t. grep pattern fd buf s = Ret buf' t \<and> length buf' = gbuf_size \<and> reads t = rest \<and>
    written 1 t = written 1 s @ concat (filter (\<lambda>l. match pattern (butlast l)) (full_lines (concat cs)))"
  using grep_loop_prints [of "[]" cs buf r s rest pattern fd] assms by (simp add: grep_def gbuf_size_def matching_def)

theorem grep_prints_witness:
  "\<exists>buf' t. grep [98] 0 (replicate gbuf_size 0) (demo_user [(3, [97, 10, 98]), (3, [98, 10, 97]), (0, [])]) = Ret buf' t \<and>
     written 1 t = [98, 98, 10]"
proof -
  have f: "full_lines [97, 10, 98, 98, 10, 97] = [[97, 10], [98, 98, 10]]" "\<not> match [98] [97]" "match [98] [98, 98]"
    and p: "pieces_fit [] [[97, 10, 98], [98, 10, 97]]"
    by code_simp+
  show ?thesis
    using grep_prints [of "[[97, 10, 98], [98, 10, 97]]" "replicate gbuf_size 0" 0 "demo_user [(3, [97, 10, 98]), (3, [98, 10, 97]), (0, [])]" "[]" "[98]" 0] f p
    by (auto simp: demo_user_def written_def)
qed

end
