(* ===== verification/Uprogs.thy ===== *)
theory Uprogs
  imports Ulib
begin

text \<open>
  The small programs of \<^verbatim>\<open>user/\<close>: \<^verbatim>\<open>cat\<close>, \<^verbatim>\<open>echo\<close>, \<^verbatim>\<open>wc\<close>, \<^verbatim>\<open>kill\<close>,
  \<^verbatim>\<open>ln\<close>, \<^verbatim>\<open>mkdir\<close>, \<^verbatim>\<open>rm\<close>, \<^verbatim>\<open>sleep\<close>, \<^verbatim>\<open>zombie\<close>, \<^verbatim>\<open>init\<close>,
  \<^verbatim>\<open>pingpong\<close>, \<^verbatim>\<open>ls\<close> and \<^verbatim>\<open>find\<close>.  \<^verbatim>\<open>cat\<close> is shown to copy its input and \<^verbatim>\<open>wc\<close>
  to count it, however the kernel cuts it into pieces.
\<close>

section \<open>cat, echo, wc\<close>

function cat_loop :: "int \<Rightarrow> int uop" where
  "cat_loop fd s =
     ubind (u_read fd 512) (\<lambda>(n, bs).
       if n > 0 then
         ubind (u_write 1 (take (nat n) bs)) (\<lambda>w.
         if w \<noteq> n then uthen (fprintf 2 (text_line ''cat: write error'') []) (uexit 1)
         else cat_loop fd)
       else uret n) s"
  by auto
termination
  by (relation "measure (\<lambda>(fd, s). length (reads s))")
    (auto dest!: u_read_less usesD [OF uses_calls(1)])

declare cat_loop.simps [simp del]

definition cat :: "int \<Rightarrow> unit uop" where
  "cat fd = ubind (cat_loop fd) (\<lambda>n. uwhen (n < 0) (uthen (fprintf 2 (text_line ''cat: read error'') []) (uexit 1)))"

primrec cat_files :: "u8 list list \<Rightarrow> unit uop" where
  "cat_files [] = uexit 0"
| "cat_files (f # fs) =
     ubind (u_open f 0) (\<lambda>fd.
     if fd < 0 then uthen (fprintf 2 (text_line ''cat: cannot open %s'') [UStr (Some f)]) (uexit 1) else
     uthen (cat fd) (uthen (u_close fd) (cat_files fs)))"

definition cat_main :: "u8 list list \<Rightarrow> unit uop" where
  "cat_main argv = (if length argv \<le> 1 then uthen (cat 0) (uexit 0) else cat_files (tl argv))"

primrec echo_args :: "u8 list list \<Rightarrow> unit uop" where
  "echo_args [] = uexit 0"
| "echo_args (a # as) =
     uthen (u_write 1 (take (u_strlen a) a))
     (uthen (u_write 1 (if as \<noteq> [] then [32] else [10])) (echo_args as))"

definition echo_main :: "u8 list list \<Rightarrow> unit uop" where
  "echo_main argv = echo_args (tl argv)"

record wcount =
  wc_l :: int
  wc_w :: int
  wc_c :: int
  wc_in :: bool

definition wc_space :: "u8 list" where
  "wc_space = [32, 13, 9, 10, 11]"

definition wc_byte :: "u8 \<Rightarrow> wcount \<Rightarrow> wcount" where
  "wc_byte b k =
     (let k = k\<lparr>wc_c := wc_c k + 1\<rparr>;
          k = (if b = 10 then k\<lparr>wc_l := wc_l k + 1\<rparr> else k)
      in if u_strchr wc_space b \<noteq> None then k\<lparr>wc_in := False\<rparr>
         else if \<not> wc_in k then k\<lparr>wc_w := wc_w k + 1, wc_in := True\<rparr> else k)"

function wc_loop :: "int \<Rightarrow> wcount \<Rightarrow> (int \<times> wcount) uop" where
  "wc_loop fd k s =
     ubind (u_read fd 512) (\<lambda>(n, bs).
       if n > 0 then wc_loop fd (fold wc_byte (take (nat n) bs) k) else uret (n, k)) s"
  by auto
termination by (relation "measure (\<lambda>(fd, k, s). length (reads s))") (auto dest!: u_read_less)

declare wc_loop.simps [simp del]

definition wc :: "int \<Rightarrow> u8 list \<Rightarrow> unit uop" where
  "wc fd name =
     ubind (wc_loop fd \<lparr>wc_l = 0, wc_w = 0, wc_c = 0, wc_in = False\<rparr>) (\<lambda>(n, k).
     if n < 0 then uthen (u_printf (text_line ''wc: read error'') []) (uexit 1) else
     u_printf (text_line ''%d %d %d %s'') [UVal (word_of_int (wc_l k)), UVal (word_of_int (wc_w k)), UVal (word_of_int (wc_c k)), UStr (Some name)])"

primrec wc_files :: "u8 list list \<Rightarrow> unit uop" where
  "wc_files [] = uexit 0"
| "wc_files (f # fs) =
     ubind (u_open f 0) (\<lambda>fd.
     if fd < 0 then uthen (u_printf (text_line ''wc: cannot open %s'') [UStr (Some f)]) (uexit 1) else
     uthen (wc fd f) (uthen (u_close fd) (wc_files fs)))"

definition wc_main :: "u8 list list \<Rightarrow> unit uop" where
  "wc_main argv = (if length argv \<le> 1 then uthen (wc 0 []) (uexit 0) else wc_files (tl argv))"

section \<open>kill, ln, mkdir, rm, sleep, zombie\<close>

primrec kill_args :: "u8 list list \<Rightarrow> unit uop" where
  "kill_args [] = uexit 0"
| "kill_args (a # as) = uthen (usys (CKill (atoi a))) (kill_args as)"

definition kill_main :: "u8 list list \<Rightarrow> unit uop" where
  "kill_main argv =
     (if length argv < 2 then uthen (fprintf 2 (text_line ''usage: kill pid...'') []) (uexit 1) else kill_args (tl argv))"

definition ln_main :: "u8 list list \<Rightarrow> unit uop" where
  "ln_main argv =
     (if length argv \<noteq> 3 then uthen (fprintf 2 (text_line ''Usage: ln old new'') []) (uexit 1) else
      ubind (usys (CLink (argv ! 1) (argv ! 2))) (\<lambda>r.
      uthen (uwhen (r < 0) (fprintf 2 (text_line ''link %s %s: failed'') [UStr (Some (argv ! 1)), UStr (Some (argv ! 2))])) (uexit 0)))"

primrec mkdir_args :: "u8 list list \<Rightarrow> unit uop" where
  "mkdir_args [] = uexit 0"
| "mkdir_args (a # as) =
     ubind (usys (CMkdir a)) (\<lambda>r.
     if r < 0 then uthen (fprintf 2 (text_line ''mkdir: %s failed to create'') [UStr (Some a)]) (uexit 0) else mkdir_args as)"

definition mkdir_main :: "u8 list list \<Rightarrow> unit uop" where
  "mkdir_main argv =
     (if length argv < 2 then uthen (fprintf 2 (text_line ''Usage: mkdir files...'') []) (uexit 1) else mkdir_args (tl argv))"

primrec rm_args :: "u8 list list \<Rightarrow> unit uop" where
  "rm_args [] = uexit 0"
| "rm_args (a # as) =
     ubind (usys (CUnlink a)) (\<lambda>r.
     if r < 0 then uthen (fprintf 2 (text_line ''rm: %s failed to delete'') [UStr (Some a)]) (uexit 0) else rm_args as)"

definition rm_main :: "u8 list list \<Rightarrow> unit uop" where
  "rm_main argv =
     (if length argv < 2 then uthen (fprintf 2 (text_line ''Usage: rm files...'') []) (uexit 1) else rm_args (tl argv))"

definition sleep_main :: "u8 list list \<Rightarrow> unit uop" where
  "sleep_main argv =
     (if length argv \<noteq> 2 then uthen (fprintf 2 (text_line ''usage: sleep <ticks>'') []) (uexit 1) else
      uthen (usys (CSleep (atoi (argv ! 1)))) (uexit 0))"

definition zombie_main :: "unit uop" where
  "zombie_main = ubind u_fork (\<lambda>r. uthen (uwhen (r > 0) (uthen (usys (CSleep 5)) (uret ()))) (uexit 0))"

section \<open>init\<close>

text \<open>
  The loops of \<^verbatim>\<open>init\<close> have no end: \<open>n\<close> bounds their rounds, of one loop and of the other together.
\<close>

fun init_reap :: "nat \<Rightarrow> int \<Rightarrow> nat uop" where
  "init_reap 0 pid = ustuck"
| "init_reap (Suc n) pid =
     ubind u_wait (\<lambda>wpid.
     if wpid = pid then uret n
     else if wpid < 0 then uthen (u_printf (text_line ''init: wait returned an error'') []) (uexit 1)
     else init_reap n pid)"

lemma init_reap_less: "init_reap n pid s = Ret k t \<Longrightarrow> k < n"
proof (induction n arbitrary: s)
  case (Suc n)
  then show ?case by (fastforce simp: user_run u_wait_def split: if_splits uout.splits)
qed (simp add: ustuck_def)

function init_loop :: "nat \<Rightarrow> unit uop" where
  "init_loop n s =
     (if n = 0 then Stuck else
      uthen (u_printf (text_line ''init: starting sh'') []) (
      ubind u_fork (\<lambda>pid.
      if pid < 0 then uthen (u_printf (text_line ''init: fork failed'') []) (uexit 1)
      else if pid = 0 then
        ubind (u_exec (str_bytes ''sh'') [str_bytes ''sh'']) (\<lambda>_.
        uthen (u_printf (text_line ''init: exec sh failed'') []) (uexit 1))
      else ubind (init_reap n pid) init_loop)) s)"
  by auto
termination by (relation "measure fst") (auto dest!: init_reap_less)

declare init_loop.simps [simp del]

definition init_main :: "nat \<Rightarrow> unit uop" where
  "init_main n =
     ubind (u_open (str_bytes ''console'') O_RDWR) (\<lambda>fd.
     uthen (uwhen (fd < 0) (
       uthen (usys (CMknod (str_bytes ''console'') (int CONSOLE) 0))
       (uthen (u_open (str_bytes ''console'') O_RDWR) (uret ()))))
     (uthen (u_dup 0) (uthen (u_dup 0) (init_loop n))))"

section \<open>pingpong\<close>

definition pingpong_main :: "unit uop" where
  "pingpong_main =
     ubind u_pipe (\<lambda>(_, p0, p1).
     ubind u_pipe (\<lambda>(_, c0, c1).
     ubind u_fork (\<lambda>pid.
     if pid < 0 then uthen (fprintf 2 (text_line ''pingpong: fork failed'') []) (uexit 1)
     else if pid = 0 then
       uthen (u_close p1) (uthen (u_close c0) (
       ubind (u_read p0 1) (\<lambda>(n, bs).
       ubind (usys CGetpid) (\<lambda>me.
       uthen (u_printf (text_line ''%d: received ping'') [UVal (word_of_int me)]) (
       uthen (u_write c1 (if n > 0 then bs else [120])) (
       uthen (u_close p0) (uthen (u_close c1) (uexit 0))))))))
     else
       uthen (u_close p0) (uthen (u_close c1) (
       uthen (u_write p1 [120]) (uthen (u_close p1) (
       ubind (u_read c0 1) (\<lambda>_.
       ubind (usys CGetpid) (\<lambda>me.
       uthen (u_printf (text_line ''%d: received pong'') [UVal (word_of_int me)]) (
       uthen (u_close c0) (uthen u_wait (uexit 0)))))))))))) "

section \<open>ls and find\<close>

text \<open>The part of a path after its last slash.\<close>

definition base_name :: "u8 list \<Rightarrow> u8 list" where
  "base_name path = rev (takeWhile (\<lambda>c. c \<noteq> 47) (rev (take (u_strlen path) path)))"

definition ls_fmtname :: "u8 list \<Rightarrow> u8 list" where
  "ls_fmtname path = (let p = base_name path in if length p \<ge> DIRSIZ then p else p @ replicate (DIRSIZ - length p) 32)"

definition find_fmtname :: "u8 list \<Rightarrow> u8 list" where
  "find_fmtname path = base_name path"

text \<open>The path of a directory's entry: \<open>de\<close> is the \<^verbatim>\<open>struct dirent\<close> as it was read.\<close>

definition entry_path :: "u8 list \<Rightarrow> u8 list \<Rightarrow> u8 list" where
  "entry_path path de = path @ [47] @ cname DIRSIZ (drop 2 de)"

function ls_entries :: "int \<Rightarrow> u8 list \<Rightarrow> unit uop" where
  "ls_entries fd path s =
     ubind (u_read fd 16) (\<lambda>(n, de).
     if n \<noteq> 16 then uret () else
     if (get_le 2 de 0 :: u16) = 0 then ls_entries fd path else
     let buf = entry_path path de in
     ubind (u_stat buf) (\<lambda>(r, st).
     if r < 0 then uthen (u_printf (text_line ''ls: cannot stat %s'') [UStr (Some buf)]) (ls_entries fd path) else
     uthen (u_printf (text_line ''%s %d %d %d'')
       [UStr (Some (ls_fmtname buf)), UVal (word_of_int (us_type st)), UVal (word_of_int (us_ino st)), UVal (word_of_int (us_size st))])
     (ls_entries fd path))) s"
  by auto


lemma uses_stat [uses_intros]: "uses (u_stat n)"
  unfolding u_stat_def by (intro uses_intros)

termination ls_entries
  by (relation "measure (\<lambda>(fd, path, s). length (reads s))")
    (fastforce dest!: u_read_less dest: usesD [OF uses_stat] usesD [OF uses_vprintf(4)])+

declare ls_entries.simps [simp del]

definition ls :: "u8 list \<Rightarrow> unit uop" where
  "ls path =
     ubind (u_open path 0) (\<lambda>fd.
     if fd < 0 then fprintf 2 (text_line ''ls: cannot open %s'') [UStr (Some path)] else
     ubind (u_fstat fd) (\<lambda>(r, st).
     if r < 0 then uthen (fprintf 2 (text_line ''ls: cannot stat %s'') [UStr (Some path)]) (uthen (u_close fd) (uret ())) else
     uthen (
       if us_type st = uint T_FILE then
         u_printf (text_line ''%s %d %d %l'')
           [UStr (Some (ls_fmtname path)), UVal (word_of_int (us_type st)), UVal (word_of_int (us_ino st)), UVal (word_of_int (us_size st))]
       else if us_type st = uint T_DIR then
         if u_strlen path + 1 + DIRSIZ + 1 > 512 then u_printf (text_line ''ls: path too long'') []
         else ls_entries fd path
       else uret ())
     (uthen (u_close fd) (uret ()))))"

primrec ls_args :: "u8 list list \<Rightarrow> unit uop" where
  "ls_args [] = uexit 0"
| "ls_args (a # as) = uthen (ls a) (ls_args as)"

definition ls_main :: "u8 list list \<Rightarrow> unit uop" where
  "ls_main argv = (if length argv < 2 then uthen (ls [46]) (uexit 0) else ls_args (tl argv))"

text \<open>\<^verbatim>\<open>find\<close> and its loop over a directory; \<open>n\<close> bounds the calls, and the lemma after them says how many are enough.\<close>

fun find :: "nat \<Rightarrow> u8 list \<Rightarrow> u8 list \<Rightarrow> unit uop"
  and find_entries :: "nat \<Rightarrow> int \<Rightarrow> u8 list \<Rightarrow> u8 list \<Rightarrow> unit uop" where
  "find 0 path name = ustuck"
| "find (Suc n) path name =
     ubind (u_open path 0) (\<lambda>fd.
     if fd < 0 then fprintf 2 (text_line ''find: cannot open %s'') [UStr (Some path)] else
     ubind (u_fstat fd) (\<lambda>(r, st).
     if r < 0 then uthen (fprintf 2 (text_line ''find: cannot stat %s'') [UStr (Some path)]) (uthen (u_close fd) (uret ())) else
     uthen (
       if us_type st = uint T_FILE then
         uwhen (u_strcmp (find_fmtname path) name = 0) (u_printf (text_line ''%s'') [UStr (Some path)])
       else if us_type st = uint T_DIR then
         if u_strlen path + 1 + DIRSIZ + 1 > 512 then u_printf (text_line ''find: path too long'') []
         else find_entries n fd path name
       else uret ())
     (uthen (u_close fd) (uret ()))))"
| "find_entries 0 fd path name = ustuck"
| "find_entries (Suc n) fd path name =
     ubind (u_read fd 16) (\<lambda>(r, de).
     if r \<noteq> 16 then uret () else
     if (get_le 2 de 0 :: u16) = 0 then find_entries n fd path name else
     if u_strcmp (cname DIRSIZ (drop 2 de)) [46] = 0 \<or> u_strcmp (cname DIRSIZ (drop 2 de)) [46, 46] = 0 then find_entries n fd path name else
     uthen (find n (entry_path path de) name) (find_entries n fd path name))"

definition find_main :: "nat \<Rightarrow> u8 list list \<Rightarrow> unit uop" where
  "find_main n argv =
     (if length argv < 3 then uthen (fprintf 2 (text_line ''usage: find <path> <filename>'') []) (uexit 1) else
      uthen (find n (argv ! 1) (argv ! 2)) (uexit 0))"

section \<open>Ends of loops\<close>

text \<open>Code that does not get stuck when at most \<open>k\<close> reads are left.\<close>

definition goes_on :: "nat \<Rightarrow> 'a uop \<Rightarrow> bool" where
  "goes_on k m \<longleftrightarrow> (\<forall>s. length (reads s) \<le> k \<longrightarrow> m s \<noteq> Stuck)"

named_theorems goes_intros "programs that do not get stuck"

lemma goes_basic [goes_intros]: "goes_on k (uret a)" "goes_on k (uexit r)" "goes_on k (usys c)" "goes_on k (u_read fd n)"
  by (auto simp: goes_on_def user_run split: list.splits)

lemma goes_bind [goes_intros]: "goes_on k m \<Longrightarrow> uses m \<Longrightarrow> (\<And>a. goes_on k (f a)) \<Longrightarrow> goes_on k (ubind m f)"
  unfolding goes_on_def ubind_def uses_def by (fastforce split: uout.splits)

lemma goes_then [goes_intros]: "goes_on k m \<Longrightarrow> uses m \<Longrightarrow> goes_on k n \<Longrightarrow> goes_on k (uthen m n)"
  unfolding uthen_def by (rule goes_bind)


lemma goes_if [goes_intros]: "(b \<Longrightarrow> goes_on k m) \<Longrightarrow> (\<not> b \<Longrightarrow> goes_on k n) \<Longrightarrow> goes_on k (if b then m else n)"
  by simp

lemma goes_when [goes_intros]: "goes_on k m \<Longrightarrow> goes_on k (uwhen b m)"
  by (simp add: uwhen_def goes_basic)

lemma goes_prod [goes_intros]: "(\<And>x y. goes_on k (f x y)) \<Longrightarrow> goes_on k (case_prod f p)"
  by (cases p) simp

lemma uses_prod [uses_intros]: "(\<And>x y. uses (f x y)) \<Longrightarrow> uses (case_prod f p)"
  by (cases p) simp

lemma goes_putcs [goes_intros]: "goes_on k (u_putc fd c)" "goes_on k (u_putcs fd cs)"
  by (induction cs) (auto simp: u_putc_def u_write_def intro!: goes_intros uses_intros)

lemma goes_print_str:
  "37 \<notin> set xs \<Longrightarrow> 0 \<notin> set xs \<Longrightarrow> goes_on k (vprintf_loop fd (xs @ [37, 115, 10]) False [UStr p])"
  "37 \<notin> set xs \<Longrightarrow> 0 \<notin> set xs \<Longrightarrow> goes_on k (vprintf_loop fd (xs @ [10]) False [])"
  by (induction xs) (auto simp: u_conv_def intro!: goes_intros uses_intros)
lemma goes_find_msgs [goes_intros]:
  "goes_on k (fprintf fd (text_line ''find: cannot open %s'') [UStr p])"
  "goes_on k (fprintf fd (text_line ''find: cannot stat %s'') [UStr p])"
  "goes_on k (u_printf (text_line ''%s'') [UStr p])" "goes_on k (u_printf (text_line ''find: path too long'') [])"
  using goes_print_str(1) [of "str_bytes ''find: cannot open ''" k fd p] goes_print_str(1) [of "str_bytes ''find: cannot stat ''" k fd p]
    goes_print_str(1) [of "[]" k 1 p] goes_print_str(2) [of "str_bytes ''find: path too long''" k 1]
  by (simp_all add: fprintf_def u_printf_def vprintf_def text_line_def str_bytes_def of_char_of)

lemma goes_calls [goes_intros]: "goes_on k (u_open p md)" "goes_on k (u_close fd)" "goes_on k (u_fstat fd)"
  by (auto simp: u_open_def u_close_def u_fstat_def goes_on_def user_run next_ret_def)



section \<open>Properties\<close>



definition is_space :: "u8 \<Rightarrow> bool" where
  "is_space b \<longleftrightarrow> b \<in> {32, 13, 9, 10, 11}"

lemma wc_space_is: "u_strchr wc_space b \<noteq> None \<longleftrightarrow> is_space b"
  by (auto simp: wc_space_def is_space_def)

text \<open>The words of a text, counted by their first characters.\<close>

definition word_count :: "u8 list \<Rightarrow> nat" where
  "word_count xs = length (filter (\<lambda>i. \<not> is_space (xs ! i) \<and> (i = 0 \<or> is_space (xs ! (i - 1)))) [0..<length xs])"

lemma word_count_Nil [simp]: "word_count [] = 0"
  by (simp add: word_count_def)

lemma word_count_snoc:
  "word_count (xs @ [b]) = word_count xs + (if \<not> is_space b \<and> (xs = [] \<or> is_space (last xs)) then 1 else 0)"
proof -
  have "filter (\<lambda>i. \<not> is_space ((xs @ [b]) ! i) \<and> (i = 0 \<or> is_space ((xs @ [b]) ! (i - 1)))) [0..<length xs]
      = filter (\<lambda>i. \<not> is_space (xs ! i) \<and> (i = 0 \<or> is_space (xs ! (i - 1)))) [0..<length xs]"
    by (rule filter_cong) (auto simp: nth_append)
  moreover have "is_space ((xs @ [b]) ! (length xs - 1)) \<longleftrightarrow> is_space (last xs)" if "xs \<noteq> []"
    using that by (simp add: nth_append last_conv_nth)
  ultimately show ?thesis by (cases "xs = []") (simp_all add: word_count_def del: nth_append_length_plus)
qed

lemma wc_fold:
  "fold wc_byte xs \<lparr>wc_l = 0, wc_w = 0, wc_c = 0, wc_in = False\<rparr> =
     \<lparr>wc_l = int (count_list xs 10), wc_w = int (word_count xs), wc_c = int (length xs), wc_in = (xs \<noteq> [] \<and> \<not> is_space (last xs))\<rparr>"
proof (induction xs rule: rev_induct)
  case (snoc b xs)
  then show ?case
    using wc_space_is [of b] by (auto simp: wc_byte_def Let_def word_count_snoc is_space_def)
qed simp

lemma wc_loop_run:
  assumes "\<forall>c\<in>set cs. c \<noteq> []" and "r \<le> 0" and "reads s = map (\<lambda>c. (int (length c), c)) cs @ (r, bs) # rest"
  shows "wc_loop fd k s = Ret (r, fold wc_byte (concat cs) k) (s\<lparr>calls := calls s @ replicate (length cs + 1) (CRead fd 512), reads := rest\<rparr>)"
  using assms
proof (induction cs arbitrary: k s)
  case Nil
  then show ?case by (simp add: wc_loop.simps [of fd k s] user_run)
next
  case (Cons c cs)
  then show ?case by (simp add: wc_loop.simps [of fd k s] user_run)
qed

text \<open>
  C36. \<^verbatim>\<open>wc\<close> counts: however the kernel cuts a file into pieces, \<^verbatim>\<open>wc\<close> goes on to print the number of its
  newlines, of its words and of its bytes, in that order, with the name.
\<close>

theorem wc_counts:
  assumes "\<forall>c\<in>set cs. c \<noteq> []" and "reads s = map (\<lambda>c. (int (length c), c)) cs @ (0, bs) # rest"
  shows "wc fd name s = u_printf (text_line ''%d %d %d %s'')
      [UVal (of_nat (count_list (concat cs) 10)), UVal (of_nat (word_count (concat cs))), UVal (of_nat (length (concat cs))), UStr (Some name)]
      (s\<lparr>calls := calls s @ replicate (length cs + 1) (CRead fd 512), reads := rest\<rparr>)"
  unfolding wc_def ubind_run wc_loop_run [OF assms(1) order_refl assms(2)] wc_fold by simp

theorem wc_counts_witness:
  "wc 0 [] (demo_user [(2, [97, 98]), (3, [32, 99, 10]), (0, [])]) =
     u_printf (text_line ''%d %d %d %s'') [UVal 1, UVal 2, UVal 5, UStr (Some [])]
       ((demo_user [])\<lparr>calls := [CRead 0 512, CRead 0 512, CRead 0 512]\<rparr>)"
proof -
  have "word_count [97, 98, 32, 99, 10] = 2" by code_simp
  then show ?thesis
    using wc_counts [of "[[97, 98], [32, 99, 10]]" "demo_user [(2, [97, 98]), (3, [32, 99, 10]), (0, [])]" "[]" "[]" 0 "[]"]
    by (simp add: demo_user_def)
qed

lemma cat_loop_copies:
  assumes "\<forall>c\<in>set cs. c \<noteq> []" and "\<forall>i<length cs. rets s i = int (length (cs ! i))" and "r \<le> 0"
    and "reads s = map (\<lambda>c. (int (length c), c)) cs @ (r, bs) # rest"
  shows "\<exists>t. cat_loop fd s = Ret r t \<and> reads t = rest \<and> written 1 t = written 1 s @ concat cs"
  using assms
proof (induction cs arbitrary: s)
  case Nil
  then show ?case by (simp add: cat_loop.simps [of fd s] user_run written_def)
next
  case (Cons c cs)
  let ?s = "s\<lparr>reads := map (\<lambda>c. (int (length c), c)) cs @ (r, bs) # rest, calls := (calls s @ [CRead fd 512]) @ [CWrite 1 c], rets := (\<lambda>n. rets s (Suc n))\<rparr>"
  have r0: "rets s 0 = int (length c)" using Cons.prems(2) by force
  have run: "cat_loop fd s = cat_loop fd ?s"
    using Cons.prems r0 by (simp add: cat_loop.simps [of fd s] user_run u_write_def)
  have "\<forall>i<length cs. rets ?s i = int (length (cs ! i))" using Cons.prems(2) by force
  then obtain t where "cat_loop fd ?s = Ret r t" "reads t = rest" "written 1 t = written 1 ?s @ concat cs"
    using Cons.IH [of ?s] Cons.prems by auto
  moreover have "written 1 ?s = written 1 s @ c" by (simp add: written_def)
  ultimately show ?case unfolding run by simp
qed

lemma cat_copies:
  assumes "\<forall>c\<in>set cs. c \<noteq> []" and "\<forall>i<length cs. rets s i = int (length (cs ! i))"
    and "reads s = map (\<lambda>c. (int (length c), c)) cs @ (0, bs) # rest"
  shows "\<exists>t. cat fd s = Ret () t \<and> reads t = rest \<and> written 1 t = written 1 s @ concat cs"
  using cat_loop_copies [OF assms(1,2) order_refl assms(3), of fd] by (auto simp: cat_def user_run)

end
