(* ===== verification/Primes.thy ===== *)
theory Primes
  imports Ulib "HOL-Library.Signed_Division"
begin

text \<open>
  \<^verbatim>\<open>user/primes.c\<close>, the concurrent sieve, and \<^verbatim>\<open>user/xargs.c\<close>.  One process of the sieve is a program
  over its answers; the theorem composes them, each reading what the one before wrote to their
  pipe, and shows that together they print the primes.
\<close>

section \<open>primes.c\<close>

definition int_bytes :: "int \<Rightarrow> u8 list" where
  "int_bytes n = bytes_of_word 4 (word_of_int n :: u32)"

definition int_of_bytes :: "u8 list \<Rightarrow> int" where
  "int_of_bytes bs = sint (word_of_bytes bs :: u32)"

text \<open>\<^verbatim>\<open>n % prime\<close> with \<^verbatim>\<open>prime = 0\<close> is undefined in C.\<close>

function sieve_filter :: "int \<Rightarrow> int \<Rightarrow> int \<Rightarrow> unit uop" where
  "sieve_filter l0 r1 prime s =
     ubind (u_read l0 4) (\<lambda>(r, bs).
     if r \<noteq> 4 then uret () else
     let n = int_of_bytes bs in
     if prime = 0 then ustuck
     else if n smod prime \<noteq> 0 then uthen (u_write r1 (int_bytes n)) (sieve_filter l0 r1 prime)
     else sieve_filter l0 r1 prime) s"
  by auto
termination
  by (relation "measure (\<lambda>(l, r, p, s). length (reads s))") (auto dest!: u_read_less usesD [OF uses_calls(1)])

declare sieve_filter.simps [simp del]

function sieve :: "int \<Rightarrow> int \<Rightarrow> unit uop" where
  "sieve l0 l1 s =
     uthen (u_close l1) (
     ubind (u_read l0 4) (\<lambda>(r, bs).
     if r \<noteq> 4 then uthen (u_close l0) (uexit 0) else
     let prime = int_of_bytes bs in
     uthen (u_printf (text_line ''prime %d'') [UVal (word_of_int prime)]) (
     ubind u_pipe (\<lambda>(r, r0, r1).
     if r < 0 then uthen (fprintf 2 (text_line ''sieve: pipe failed'') []) (uexit 1) else
     ubind u_fork (\<lambda>pid.
     if pid = 0 then
       uthen (u_close r1) (uthen (u_close l0) (uthen (sieve r0 r1) (uexit 0)))
     else
       uthen (u_close r0) (
       uthen (sieve_filter l0 r1 prime) (
       uthen (u_close l0) (uthen (u_close r1) (uthen u_wait (uexit 0)))))))))) s"
  by auto
termination
  by (relation "measure (\<lambda>(l0, l1, s). length (reads s))")
    (auto dest!: u_read_less usesD [OF uses_calls(3)] usesD [OF uses_calls(7)] usesD [OF uses_calls(5)] usesD [OF uses_vprintf(4)])

declare sieve.simps [simp del]

primrec write_ints :: "int \<Rightarrow> int list \<Rightarrow> unit uop" where
  "write_ints fd [] = uret ()"
| "write_ints fd (i # is) = uthen (u_write fd (int_bytes i)) (write_ints fd is)"

definition primes_main :: "unit uop" where
  "primes_main =
     ubind u_pipe (\<lambda>(_, p0, p1).
     ubind u_fork (\<lambda>pid.
     if pid = 0 then uthen (u_close p1) (uthen (sieve p0 p1) (uexit 0))
     else uthen (u_close p0) (uthen (write_ints p1 [2..35]) (uthen (u_close p1) (uthen u_wait (uexit 0))))))"

section \<open>xargs.c\<close>

definition is_blank :: "u8 \<Rightarrow> bool" where
  "is_blank c \<longleftrightarrow> c = 32 \<or> c = 9"

text \<open>The arguments cut out of a line, with \<open>idx\<close> the next place in \<^verbatim>\<open>args\<close>; \<^const>\<open>None\<close> when there are too many.\<close>

function xargs_split :: "nat \<Rightarrow> u8 list \<Rightarrow> u8 list list option" where
  "xargs_split idx p =
     (if hd0 p = 0 then Some [] else
      let p = dropWhile is_blank p in
      if hd0 p = 0 then Some []
      else if idx \<ge> MAXARG - 1 then None
      else
        let w = takeWhile (\<lambda>c. c \<noteq> 0 \<and> \<not> is_blank c) p;
            q = dropWhile (\<lambda>c. c \<noteq> 0 \<and> \<not> is_blank c) p
        in map_option (Cons w) (xargs_split (idx + 1) (if hd0 q \<noteq> 0 then tl q else q)))"
  by auto
termination by (relation "measure (\<lambda>(idx, p). MAXARG - idx)") auto

declare xargs_split.simps [simp del]

text \<open>\<open>line\<close> is what \<^verbatim>\<open>buf\<close> holds so far.\<close>

function xargs_loop :: "u8 list list \<Rightarrow> u8 list \<Rightarrow> unit uop" where
  "xargs_loop fixed line s =
     ubind (u_read 0 1) (\<lambda>(r, bs).
     if r \<noteq> 1 then uexit 0 else
     let ch = hd0 bs in
     if ch \<noteq> 10 \<and> length line < 512 - 1 then xargs_loop fixed (line @ [ch])
     else if xargs_split (length fixed) line = None then
       uthen (fprintf 2 (text_line ''xargs: too many arguments'') []) (uexit 1)
     else
       let args = fixed @ the (xargs_split (length fixed) line) in
       if length args > length fixed then
         ubind u_fork (\<lambda>pid.
         if pid = 0 then
           uthen (u_exec (hd args) args) (
           uthen (fprintf 2 (text_line ''xargs: exec %s failed'') [UStr (Some (hd args))]) (uexit 1))
         else uthen u_wait (xargs_loop fixed []))
       else xargs_loop fixed []) s"
  by auto
termination
  by (relation "measure (\<lambda>(fx, l, s). length (reads s))")
    (auto dest!: u_read_less usesD [OF uses_calls(5)] usesD [OF uses_calls(6)])

declare xargs_loop.simps [simp del]

definition xargs_main :: "u8 list list \<Rightarrow> unit uop" where
  "xargs_main argv =
     (if length argv < 2 then uthen (fprintf 2 (text_line ''usage: xargs command [arg ...]'') []) (uexit 1) else
      xargs_loop (tl argv) [])"

section \<open>What a process of the sieve prints and sends\<close>

definition put_out :: "int \<Rightarrow> u8 list \<Rightarrow> user \<Rightarrow> user" where
  "put_out fd cs s = s\<lparr>calls := calls s @ map (\<lambda>c. CWrite fd [c]) cs, rets := (\<lambda>n. rets s (n + length cs))\<rparr>"

lemma u_putcs_run: "u_putcs fd cs s = Ret () (put_out fd cs s)"
  by (induction cs arbitrary: s) (simp_all add: user_run u_putc_def u_write_def put_out_def)

lemma put_out_append: "put_out fd ys (put_out fd xs s) = put_out fd (xs @ ys) s"
  by (simp add: put_out_def ac_simps)

lemma u_putc_run: "u_putc fd c s = Ret () (put_out fd [c] s)"
  by (simp add: user_run u_putc_def u_write_def put_out_def)

lemma vprintf_plain:
  "37 \<notin> set xs \<Longrightarrow> 0 \<notin> set xs \<Longrightarrow> vprintf_loop fd (xs @ ys) False ap s = vprintf_loop fd ys False ap (put_out fd xs s)"
proof (induction xs arbitrary: s)
  case (Cons x xs)
  then show ?case by (simp add: user_run u_putc_run put_out_append)
qed (simp add: put_out_def)

lemma put_out_fields [simp]: "reads (put_out fd cs s) = reads s" "rets (put_out fd cs s) = (\<lambda>n. rets s (n + length cs))"
  by (simp_all add: put_out_def)

lemma written_put_out: "written f (put_out fd cs s) = written f s @ (if f = fd then cs else [])"
  by (induction cs) (simp_all add: written_def put_out_def)

definition prime_line :: "int \<Rightarrow> u8 list" where
  "prime_line p = str_bytes ''prime '' @ rev (u_printint_buf 10 (nat p)) @ [10]"

lemma sint_small: "0 \<le> p \<Longrightarrow> p < 2 ^ 31 \<Longrightarrow> sint (word_of_int p :: u32) = p"
  by (subst signed_of_int) (simp add: signed_take_bit_int_eq_self)

lemma print_prime:
  assumes "0 \<le> p" and "p < 2 ^ 31"
  shows "u_printf (text_line ''prime %d'') [UVal (word_of_int p)] s = Ret () (put_out 1 (prime_line p) s)"
proof -
  have "uint (word_of_int p :: u32) = p" using assms by (subst unsigned_of_int) (simp add: take_bit_int_eq_self)
  then have u: "unat (word_of_int p :: u32) = nat p" by (simp only: unat_eq_nat_uint)
  have c: "ucast (word_of_int p :: u64) = (word_of_int p :: u32)" by (rule bit_word_eqI) (simp add: bit_simps)
  have "u_printint 1 (word_of_int p) 10 True t = Ret () (put_out 1 (rev (u_printint_buf 10 (nat p))) t)" for t
    using sint_small [OF assms] assms(1) by (simp add: u_printint_def Let_def u_putcs_run u del: u_printint_buf.simps)
  then have "vprintf_loop 1 [37, 100, 10] False [UVal (word_of_int p)] t = Ret () (put_out 1 (rev (u_printint_buf 10 (nat p)) @ [10]) t)" for t
    by (simp add: u_conv_def user_run c u_putc_run put_out_append del: u_printint_buf.simps)
  moreover have "text_line ''prime %d'' = str_bytes ''prime '' @ [37, 100, 10]" by (simp add: text_line_def str_bytes_def)
  ultimately show ?thesis
    using vprintf_plain [of "str_bytes ''prime ''" 1 "[37, 100, 10]"]
    by (simp add: u_printf_def vprintf_def put_out_append prime_line_def str_bytes_def del: u_printint_buf.simps)
qed

lemma int_bytes_back: "0 \<le> n \<Longrightarrow> n < 2 ^ 31 \<Longrightarrow> int_of_bytes (int_bytes n) = n"
  by (simp add: int_of_bytes_def int_bytes_def word_of_bytes_of_word sint_small)

definition int_read :: "int \<Rightarrow> int \<times> u8 list" where
  "int_read n = (4, int_bytes n)"

lemma sieve_filter_run:
  assumes "0 < p" and "\<forall>x\<in>set xs. 0 \<le> x \<and> x < 2 ^ 31" and "reads s = map int_read xs @ (0, []) # rest"
  shows "\<exists>t. sieve_filter l0 r1 p s = Ret () t \<and> reads t = rest \<and>
    (\<forall>f. written f t = written f s @ (if f = r1 then concat (map int_bytes (filter (\<lambda>n. n smod p \<noteq> 0) xs)) else []))"
  using assms(2,3)
proof (induction xs arbitrary: s)
  case Nil
  then show ?case by (simp add: sieve_filter.simps [of l0 r1 p s] user_run written_def)
next
  case (Cons x xs)
  let ?s = "s\<lparr>calls := calls s @ [CRead l0 4], reads := map int_read xs @ (0, []) # rest\<rparr>"
  let ?w = "?s\<lparr>calls := calls ?s @ [CWrite r1 (int_bytes x)], rets := (\<lambda>n. rets s (Suc n))\<rparr>"
  let ?t = "if x smod p \<noteq> 0 then ?w else ?s"
  have run: "sieve_filter l0 r1 p s = sieve_filter l0 r1 p ?t"
    using Cons.prems assms(1) by (simp add: sieve_filter.simps [of l0 r1 p s] user_run int_read_def [of x] int_bytes_back u_write_def Let_def)
  have w: "written f ?t = written f s @ (if f = r1 \<and> x smod p \<noteq> 0 then int_bytes x else [])" for f by (simp add: written_def)
  have "\<forall>x\<in>set xs. 0 \<le> x \<and> x < 2 ^ 31" "reads ?t = map int_read xs @ (0, []) # rest" using Cons.prems(1) by simp_all
  from Cons.IH [OF this] obtain t where "sieve_filter l0 r1 p ?t = Ret () t" "reads t = rest"
    "\<forall>f. written f t = written f ?t @ (if f = r1 then concat (map int_bytes (filter (\<lambda>n. n smod p \<noteq> 0) xs)) else [])" by blast
  then show ?case unfolding run using w by auto
qed

text \<open>The answers a process gets that prints \<open>p\<close> and stays the parent, with \<open>r1\<close> the end of the pipe it writes.\<close>

definition parent_answers :: "int \<Rightarrow> int \<Rightarrow> user \<Rightarrow> bool" where
  "parent_answers p r1 s \<longleftrightarrow> (let k = 1 + length (prime_line p) in
     0 \<le> rets s k \<and> rets s (k + 2) = r1 \<and> r1 \<noteq> 1 \<and> rets s (k + 3) \<noteq> 0)"

lemma sieve_run:
  assumes "0 < p" and "p < 2 ^ 31" and "\<forall>x\<in>set xs. 0 \<le> x \<and> x < 2 ^ 31" and "reads s = map int_read (p # xs) @ [(0, [])]"
    and "parent_answers p r1 s" and "calls s = []"
  shows "\<exists>t. sieve l0 l1 s = Exited 0 t \<and> written 1 t = prime_line p \<and>
    written r1 t = concat (map int_bytes (filter (\<lambda>n. n smod p \<noteq> 0) xs))"
proof -
  let ?s1 = "s\<lparr>rets := (\<lambda>n. rets s (Suc n)), calls := [CClose l1, CRead l0 4], reads := map int_read xs @ [(0, [])]\<rparr>"
  let ?s2 = "put_out 1 (prime_line p) ?s1"
  let ?k = "1 + length (prime_line p)"
  let ?r0 = "rets s (?k + 1)"
  let ?s3 = "?s2\<lparr>calls := calls ?s2 @ [CPipe, CFork, CClose ?r0], rets := (\<lambda>n. rets s (Suc (Suc (Suc (Suc (Suc (Suc (n + length (prime_line p)))))))))\<rparr>"
  let ?n = "length (prime_line p)"
  have a: "0 \<le> rets s (Suc ?n)" "rets s (Suc (Suc (Suc ?n))) = r1" "r1 \<noteq> 1" "rets s (Suc (Suc (Suc (Suc ?n)))) \<noteq> 0"
    using assms(5) by (simp_all add: parent_answers_def Let_def eval_nat_numeral)
  have w3: "written f ?s3 = (if f = 1 then prime_line p else [])" for f
    using written_put_out [of f 1 "prime_line p" ?s1] by (simp add: written_def assms(6))
  obtain t where f: "sieve_filter l0 r1 p ?s3 = Ret () t"
    and t: "\<forall>f. written f t = written f ?s3 @ (if f = r1 then concat (map int_bytes (filter (\<lambda>n. n smod p \<noteq> 0) xs)) else [])"
    using sieve_filter_run [OF assms(1,3), of ?s3 "[]" l0 r1] by auto
  have "sieve l0 l1 s = uthen (sieve_filter l0 r1 p) (uthen (u_close l0) (uthen (u_close r1) (uthen u_wait (uexit 0)))) ?s3"
    using assms(1,2,4,6) a
    by (simp add: sieve.simps [of l0 l1 s] user_run u_close_def int_read_def [of p] int_bytes_back Let_def print_prime u_pipe_def next_ret_def u_fork_def)
  then show ?thesis using f t w3 a(3) by (simp add: user_run u_close_def u_wait_def) (simp add: written_def)
qed

section \<open>The chain\<close>

text \<open>
  The processes of the sieve, each on the numbers the one before wrote to the pipe between them:
  what they print, in the order of the chain.  A process prints before it forks the next one, so this is
  the order of the output.
\<close>

inductive prime_chain :: "int list \<Rightarrow> u8 list \<Rightarrow> bool" where
  chain_end: "reads s = [(0, [])] \<Longrightarrow> calls s = [] \<Longrightarrow> sieve l0 l1 s = Exited 0 t \<Longrightarrow> prime_chain [] (written 1 t)"
| chain_link: "reads s = map int_read (p # xs) @ [(0, [])] \<Longrightarrow> calls s = [] \<Longrightarrow> parent_answers p r1 s \<Longrightarrow>
    sieve l0 l1 s = Exited 0 t \<Longrightarrow> written r1 t = concat (map int_bytes ys) \<Longrightarrow> \<forall>y\<in>set ys. 0 \<le> y \<and> y < 2 ^ 31 \<Longrightarrow>
    prime_chain ys out \<Longrightarrow> prime_chain (p # xs) (written 1 t @ out)"

lemma length_int_bytes [simp]: "length (int_bytes n) = 4"
  by (simp add: int_bytes_def)

lemma int_bytes_inj:
  assumes "\<forall>x\<in>set xs. 0 \<le> x \<and> x < 2 ^ 31" and "\<forall>y\<in>set ys. 0 \<le> y \<and> y < 2 ^ 31"
    and "concat (map int_bytes xs) = concat (map int_bytes ys)"
  shows "xs = ys"
  using assms
proof (induction xs arbitrary: ys)
  case Nil
  then show ?case by (cases ys) (auto simp: int_bytes_def bytes_of_word_def upt_rec)
next
  case (Cons x xs)
  then obtain y zs where ys: "ys = y # zs" by (cases ys) (auto simp: int_bytes_def bytes_of_word_def upt_rec)
  have e: "int_bytes x = int_bytes y" and r: "concat (map int_bytes xs) = concat (map int_bytes zs)"
    using Cons.prems(3) ys by simp_all
  have "int_of_bytes (int_bytes x) = x" "int_of_bytes (int_bytes y) = y"
    using Cons.prems(1,2) ys by (auto intro!: int_bytes_back)
  then have "x = y" using e by metis
  moreover have "xs = zs" using Cons.IH [OF _ _ r] Cons.prems(1,2) ys by simp
  ultimately show ?case using ys by simp
qed

fun sieved :: "int list \<Rightarrow> int list" where
  "sieved [] = []"
| "sieved (p # xs) = p # sieved (filter (\<lambda>n. n smod p \<noteq> 0) xs)"

lemma sieve_end: "reads s = [(0, [])] \<Longrightarrow> calls s = [] \<Longrightarrow> \<exists>t. sieve l0 l1 s = Exited 0 t \<and> written 1 t = []"
  by (simp add: sieve.simps [of l0 l1 s] user_run u_close_def written_def)

lemma chain_prints:
  assumes "\<forall>x\<in>set xs. 0 < x \<and> x < 2 ^ 31"
  shows "prime_chain xs out \<longleftrightarrow> out = concat (map prime_line (sieved xs))"
  using assms
proof (induction xs arbitrary: out rule: sieved.induct)
  case 1
  have "out = []" if "prime_chain [] out"
    using that
  proof cases
    case (chain_end s l0 l1 t)
    then show ?thesis using sieve_end [of s l0 l1] by auto
  qed
  moreover have "prime_chain [] []"
  proof -
    let ?s = "demo_user [(0, [])]"
    obtain t where "sieve 0 0 ?s = Exited 0 t" "written 1 t = []" using sieve_end [of ?s 0 0] by (auto simp: demo_user_def)
    then show ?thesis using chain_end [of ?s 0 0 t] by (simp add: demo_user_def)
  qed
  ultimately show ?case by auto
next
  case (2 p xs)
  let ?ys = "filter (\<lambda>n. n smod p \<noteq> 0) xs"
  have r: "0 < p" "p < 2 ^ 31" "\<forall>x\<in>set xs. 0 \<le> x \<and> x < 2 ^ 31" "\<forall>x\<in>set ?ys. 0 \<le> x \<and> x < 2 ^ 31" using 2(2) by (auto simp: less_imp_le)
  have ih: "prime_chain ?ys u \<longleftrightarrow> u = concat (map prime_line (sieved ?ys))" for u using 2(1) 2(2) by simp
  show ?case
  proof
    assume "prime_chain (p # xs) out"
    then show "out = concat (map prime_line (sieved (p # xs)))"
    proof cases
      case (chain_link s r1 l0 l1 t ys u)
      have "ys = ?ys" "written 1 t = prime_line p"
        using sieve_run [OF r(1-3) chain_link(2,4,3), of l0 l1] chain_link(5,6) int_bytes_inj [OF chain_link(7) r(4)] by auto
      then show ?thesis using chain_link(1,8) ih by simp
    qed
  next
    assume out: "out = concat (map prime_line (sieved (p # xs)))"
    let ?k = "1 + length (prime_line p)"
    let ?s = "(demo_user (map int_read (p # xs) @ [(0, [])]))\<lparr>rets := (\<lambda>n. if n = ?k + 2 then 4 else if n = ?k + 3 then 9 else 0)\<rparr>"
    have s: "reads ?s = map int_read (p # xs) @ [(0, [])]" "calls ?s = []" "parent_answers p 4 ?s"
      by (simp_all add: demo_user_def parent_answers_def Let_def)
    obtain t where t: "sieve 3 4 ?s = Exited 0 t" "written 1 t = prime_line p" "written 4 t = concat (map int_bytes ?ys)"
      using sieve_run [OF r(1-3) s(1,3,2), of 3 4] by blast
    show "prime_chain (p # xs) out"
      using chain_link [OF s t(1,3) r(4)] ih out t(2) by simp
  qed
qed

section \<open>Primes\<close>

definition is_prime :: "int \<Rightarrow> bool" where
  "is_prime p \<longleftrightarrow> 2 \<le> p \<and> (\<forall>d. 2 \<le> d \<and> d < p \<longrightarrow> \<not> d dvd p)"

lemma smod_dvd: "(n :: int) smod p = 0 \<longleftrightarrow> p dvd n"
proof -
  have "n smod p = 0 \<longleftrightarrow> n = 0 \<or> \<bar>n\<bar> mod \<bar>p\<bar> = 0" unfolding smod_int_alt_def by (simp add: sgn_0_0)
  also have "\<dots> \<longleftrightarrow> p dvd n" unfolding mod_eq_0_iff_dvd by auto
  finally show ?thesis .
qed

lemma upto_filter_step:
  "k \<le> n \<Longrightarrow> filter P [k..n] = (if P k then k # filter P [k + 1..n] else filter P [k + 1..(n :: int)])"
  by (simp add: upto_rec1)

lemma sieved_primes:
  assumes "2 \<le> k"
  shows "sieved (filter (\<lambda>m. \<forall>d. 2 \<le> d \<and> d < k \<longrightarrow> \<not> d dvd m) [k..n]) = filter is_prime [k..n]"
  using assms
proof (induction "nat (n + 1 - k)" arbitrary: k)
  case 0
  then show ?case by simp
next
  case (Suc j)
  let ?P = "\<lambda>k m. \<forall>d. 2 \<le> d \<and> d < k \<longrightarrow> \<not> d dvd (m :: int)"
  have kn: "k \<le> n" and ih: "sieved (filter (?P (k + 1)) [k + 1..n]) = filter is_prime [k + 1..n]"
    using Suc(1) [of "k + 1"] Suc(2,3) by auto
  have ext: "?P (k + 1) m \<longleftrightarrow> ?P k m \<and> \<not> k dvd m" for m
    using Suc.prems by (auto simp: le_less)
  show ?case
  proof (cases "?P k k")
    case True
    then have p: "is_prime k" using Suc.prems by (simp add: is_prime_def)
    have "filter (\<lambda>m. m smod k \<noteq> 0) (filter (?P k) [k + 1..n]) = filter (?P (k + 1)) [k + 1..n]"
      unfolding filter_filter smod_dvd ext by (rule filter_cong) auto
    then show ?thesis using True p ih by (simp add: upto_filter_step [OF kn])
  next
    case False
    then obtain d where d: "2 \<le> d" "d < k" "d dvd k" by blast
    have "\<not> is_prime k" using d by (auto simp: is_prime_def)
    moreover have "filter (?P k) [k + 1..n] = filter (?P (k + 1)) [k + 1..n]"
      unfolding ext using d dvd_trans by (intro filter_cong) blast+
    moreover have "filter (?P k) [k..n] = filter (?P k) [k + 1..n]" using False by (simp only: upto_filter_step [OF kn] if_False)
    ultimately show ?thesis using ih by (simp add: upto_filter_step [OF kn, of is_prime])
  qed
qed

text \<open>
  C35. The sieve prints the primes.  Let the processes of \<^verbatim>\<open>primes\<close> run in a chain, each reading the integers
  the one before has written to its pipe, the first of them those from 2 to \<open>n\<close> (the program
  has 35): they print a line for every prime up to \<open>n\<close>, in order, and nothing else, and such a
  run exists.  Each process ends by \<^verbatim>\<open>exit(0)\<close>.
\<close>

theorem sieve_prints_primes:
  assumes "n < 2 ^ 31"
  shows "prime_chain [2..n] out \<longleftrightarrow> out = concat (map prime_line (filter is_prime [2..n]))"
proof -
  have "filter (\<lambda>m. \<forall>d. 2 \<le> d \<and> d < 2 \<longrightarrow> \<not> d dvd m) [2..n] = [2..n]" by (auto simp: filter_id_conv)
  then have "sieved [2..n] = filter is_prime [2..n]" using sieved_primes [of 2 n] by simp
  then show ?thesis using chain_prints [of "[2..n]" out] assms by simp
qed

theorem sieve_prints_primes_witness:
  "\<forall>out. prime_chain [2..35] out \<longleftrightarrow> out = concat (map prime_line (filter is_prime [2..35]))"
  using sieve_prints_primes [of 35] by simp

end
