(* ===== verification/Shell.thy ===== *)
theory Shell
  imports Ulib
begin

text \<open>
  \<^verbatim>\<open>user/sh.c\<close>.  The parser works on positions in the line, as the code works on pointers into it: the
  line with its NUL is a list of bytes, \<^verbatim>\<open>es\<close> the position of the NUL, and a parsing function is an
  operation on the position \<^verbatim>\<open>*ps\<close> that may panic.  \<^verbatim>\<open>nulterminate\<close> then cuts the line into
  strings.  A command tree is a value instead of linked heap objects, so \<^verbatim>\<open>malloc\<close> is taken to succeed.

  \<^verbatim>\<open>parseline\<close>, \<^verbatim>\<open>parsepipe\<close>, \<^verbatim>\<open>parseexec\<close> and \<^verbatim>\<open>parseblock\<close> call each other; the argument \<open>n\<close>
  bounds the depth of calls and rounds, and \<^verbatim>\<open>parsecmd\<close> gives it enough for any line.
\<close>

section \<open>Commands\<close>

definition MAXARGS :: nat where
  "MAXARGS = 10"

text \<open>Arguments and files are pairs of positions, \<^verbatim>\<open>argv[i]\<close> with \<^verbatim>\<open>eargv[i]\<close> and \<^verbatim>\<open>file\<close> with \<^verbatim>\<open>efile\<close>.\<close>

datatype cmd =
    EXEC "(nat \<times> nat) list"
  | REDIR cmd "nat \<times> nat" u32 int
  | PIPE cmd cmd
  | LIST cmd cmd
  | BACK cmd

section \<open>Parsing\<close>

definition sh_whitespace :: "u8 list" where
  "sh_whitespace = [32, 9, 13, 10, 11]"

definition sh_symbols :: "u8 list" where
  "sh_symbols = str_bytes ''<|>&;()''"

definition is_in :: "u8 list \<Rightarrow> u8 \<Rightarrow> bool" where
  "is_in cs c \<longleftrightarrow> u_strchr cs c \<noteq> None"

text \<open>\<^verbatim>\<open>*s\<close>\<close>

definition ch :: "u8 list \<Rightarrow> nat \<Rightarrow> u8" where
  "ch b s = (if s < length b then b ! s else 0)"

text \<open>\<^verbatim>\<open>while(s < es && P(*s)) s++;\<close>\<close>

function skip :: "(u8 \<Rightarrow> bool) \<Rightarrow> u8 list \<Rightarrow> nat \<Rightarrow> nat \<Rightarrow> nat" where
  "skip P b es s = (if s < es \<and> P (ch b s) then skip P b es (s + 1) else s)"
  by auto
termination by (relation "measure (\<lambda>(P, b, es, s). es - s)") auto

declare skip.simps [simp del]

text \<open>The token, its position and the position after it; the state is \<^verbatim>\<open>*ps\<close>.\<close>

definition gettoken :: "u8 list \<Rightarrow> nat \<Rightarrow> (nat, u8 \<times> nat \<times> nat) op" where
  "gettoken b es = (\<lambda>ps.
     let q = skip (is_in sh_whitespace) b es ps; c = ch b q;
         (rt, s) =
           (if c = 0 then (0, q)
            else if c \<in> {124, 40, 41, 59, 38, 60} then (c, q + 1)
            else if c = 62 then (if ch b (q + 1) = 62 then (43, q + 2) else (62, q + 1))
            else (97, skip (\<lambda>c. \<not> is_in sh_whitespace c \<and> \<not> is_in sh_symbols c) b es q))
     in Ok (rt, q, s) (skip (is_in sh_whitespace) b es s))"

definition peek :: "u8 list \<Rightarrow> nat \<Rightarrow> u8 list \<Rightarrow> (nat, bool) op" where
  "peek b es toks = (\<lambda>ps.
     let s = skip (is_in sh_whitespace) b es ps
     in Ok (ch b s \<noteq> 0 \<and> is_in toks (ch b s)) s)"

definition redir_of :: "u8 \<Rightarrow> cmd \<Rightarrow> nat \<times> nat \<Rightarrow> cmd" where
  "redir_of tok c f =
     (if tok = 60 then REDIR c f O_RDONLY 0
      else if tok = 62 then REDIR c f (O_WRONLY OR O_CREATE OR O_TRUNC) 1
      else if tok = 43 then REDIR c f (O_WRONLY OR O_CREATE) 1
      else c)"

primrec parseredirs :: "nat \<Rightarrow> cmd \<Rightarrow> u8 list \<Rightarrow> nat \<Rightarrow> (nat, cmd) op" where
  "parseredirs 0 c b es = (\<lambda>ps. Hang)"
| "parseredirs (Suc n) c b es =
     kbind (peek b es [60, 62]) (\<lambda>more.
     if \<not> more then kret c else
     kbind (gettoken b es) (\<lambda>(tok, _, _).
     kbind (gettoken b es) (\<lambda>(t, q, eq).
     if t \<noteq> 97 then kpanic ''missing file for redirection''
     else parseredirs n (redir_of tok c (q, eq)) b es)))"

text \<open>The argument goes into the \<^verbatim>\<open>execcmd\<close> that the redirections in \<^verbatim>\<open>ret\<close> are wrapped around.\<close>

primrec add_arg :: "nat \<times> nat \<Rightarrow> cmd \<Rightarrow> cmd" where
  "add_arg a (EXEC as) = EXEC (as @ [a])"
| "add_arg a (REDIR c f m d) = REDIR (add_arg a c) f m d"
| "add_arg a (PIPE l r) = PIPE l r"
| "add_arg a (LIST l r) = LIST l r"
| "add_arg a (BACK c) = BACK c"

primrec parseargs :: "nat \<Rightarrow> nat \<Rightarrow> cmd \<Rightarrow> u8 list \<Rightarrow> nat \<Rightarrow> (nat, cmd) op" where
  "parseargs 0 argc rc b es = (\<lambda>ps. Hang)"
| "parseargs (Suc n) argc rc b es =
     kbind (peek b es (str_bytes ''|)&;'')) (\<lambda>stop.
     if stop then kret rc else
     kbind (gettoken b es) (\<lambda>(tok, q, eq).
     if tok = 0 then kret rc
     else if tok \<noteq> 97 then kpanic ''syntax''
     else
       let rc = add_arg (q, eq) rc; argc = argc + 1 in
       if argc \<ge> MAXARGS then kpanic ''too many args'' else
       kbind (parseredirs n rc b es) (\<lambda>rc. parseargs n argc rc b es)))"

text \<open>The loop \<^verbatim>\<open>while(peek(ps, es, "&"))\<close> of \<^verbatim>\<open>parseline\<close>.\<close>

primrec parsebacks :: "nat \<Rightarrow> cmd \<Rightarrow> u8 list \<Rightarrow> nat \<Rightarrow> (nat, cmd) op" where
  "parsebacks 0 c b es = (\<lambda>ps. Hang)"
| "parsebacks (Suc n) c b es =
     kbind (peek b es [38]) (\<lambda>more.
     if more then kthen (gettoken b es) (parsebacks n (BACK c) b es) else kret c)"

fun parseline :: "nat \<Rightarrow> u8 list \<Rightarrow> nat \<Rightarrow> (nat, cmd) op"
  and parsepipe :: "nat \<Rightarrow> u8 list \<Rightarrow> nat \<Rightarrow> (nat, cmd) op"
  and parseexec :: "nat \<Rightarrow> u8 list \<Rightarrow> nat \<Rightarrow> (nat, cmd) op"
  and parseblock :: "nat \<Rightarrow> u8 list \<Rightarrow> nat \<Rightarrow> (nat, cmd) op" where
  "parseline 0 b es = (\<lambda>ps. Hang)"
| "parseline (Suc n) b es =
     kbind (parsepipe n b es) (\<lambda>c.
     kbind (parsebacks n c b es) (\<lambda>c.
     kbind (peek b es [59]) (\<lambda>more.
     if more then kthen (gettoken b es) (kbind (parseline n b es) (\<lambda>r. kret (LIST c r)))
     else kret c)))"
| "parsepipe 0 b es = (\<lambda>ps. Hang)"
| "parsepipe (Suc n) b es =
     kbind (parseexec n b es) (\<lambda>c.
     kbind (peek b es [124]) (\<lambda>more.
     if more then kthen (gettoken b es) (kbind (parsepipe n b es) (\<lambda>r. kret (PIPE c r)))
     else kret c))"
| "parseexec 0 b es = (\<lambda>ps. Hang)"
| "parseexec (Suc n) b es =
     kbind (peek b es [40]) (\<lambda>block.
     if block then parseblock n b es
     else kbind (parseredirs n (EXEC []) b es) (\<lambda>rc. parseargs n 0 rc b es))"
| "parseblock 0 b es = (\<lambda>ps. Hang)"
| "parseblock (Suc n) b es =
     kbind (peek b es [40]) (\<lambda>open.
     if \<not> open then kpanic ''parseblock'' else
     kthen (gettoken b es) (
     kbind (parseline n b es) (\<lambda>c.
     kbind (peek b es [41]) (\<lambda>shut.
     if \<not> shut then kpanic ''syntax - missing )'' else
     kthen (gettoken b es) (parseredirs n c b es)))))"

text \<open>The NULs that \<^verbatim>\<open>nulterminate\<close> writes.\<close>

primrec nulterminate :: "cmd \<Rightarrow> u8 list \<Rightarrow> u8 list" where
  "nulterminate (EXEC as) b = fold (\<lambda>(q, eq) b. b[eq := 0]) as b"
| "nulterminate (REDIR c f m d) b = (nulterminate c b)[snd f := 0]"
| "nulterminate (PIPE l r) b = nulterminate r (nulterminate l b)"
| "nulterminate (LIST l r) b = nulterminate r (nulterminate l b)"
| "nulterminate (BACK c) b = nulterminate c b"

definition parse_fuel :: "nat \<Rightarrow> nat" where
  "parse_fuel es = 4 * es + 6"

text \<open>
  \<^verbatim>\<open>parsecmd\<close> of the string \<open>s\<close>: the command and the line as \<^verbatim>\<open>nulterminate\<close> leaves it.  What it
  prints before the panic about leftovers goes to the standard error and is left out.
\<close>

definition parsecmd :: "u8 list \<Rightarrow> (nat, cmd \<times> u8 list) op" where
  "parsecmd s =
     (let es = u_strlen s; b = s @ [0] in
      kbind (parseline (parse_fuel es) b es) (\<lambda>c.
      kthen (peek b es []) (
      kbind (kget (\<lambda>ps. ps)) (\<lambda>ps.
      if ps \<noteq> es then kpanic ''syntax'' else kret (c, nulterminate c b)))))"

section \<open>Running\<close>

definition cstring_at :: "u8 list \<Rightarrow> nat \<Rightarrow> u8 list" where
  "cstring_at b q = takeWhile (\<lambda>c. c \<noteq> 0) (drop q b)"

definition sh_panic :: "string \<Rightarrow> 'a uop" where
  "sh_panic msg = uthen (fprintf 2 (text_line ''%s'') [UStr (Some (str_bytes msg))]) (uexit 1)"

definition fork1 :: "int uop" where
  "fork1 = ubind u_fork (\<lambda>pid. if pid = - 1 then sh_panic ''fork'' else uret pid)"

primrec runcmd :: "cmd \<Rightarrow> u8 list \<Rightarrow> unit uop" where
  "runcmd (EXEC as) b =
     (case as of [] \<Rightarrow> uexit 1
      | (q, _) # _ \<Rightarrow>
          uthen (u_exec (cstring_at b q) (map (\<lambda>(q, _). cstring_at b q) as)) (
          uthen (fprintf 2 (text_line ''exec %s failed'') [UStr (Some (cstring_at b q))]) (uexit 0)))"
| "runcmd (REDIR c f mode fd) b =
     uthen (u_close fd) (
     ubind (u_open (cstring_at b (fst f)) mode) (\<lambda>r.
     if r < 0 then uthen (fprintf 2 (text_line ''open %s failed'') [UStr (Some (cstring_at b (fst f)))]) (uexit 1)
     else uthen (runcmd c b) (uexit 0)))"
| "runcmd (LIST l r) b =
     ubind fork1 (\<lambda>pid.
     uthen (uwhen (pid = 0) (runcmd l b)) (
     uthen u_wait (uthen (runcmd r b) (uexit 0))))"
| "runcmd (PIPE l r) b =
     ubind u_pipe (\<lambda>(res, p0, p1).
     if res < 0 then sh_panic ''pipe'' else
     ubind fork1 (\<lambda>pid.
     uthen (uwhen (pid = 0) (
       uthen (u_close 1) (uthen (u_dup p1) (uthen (u_close p0) (uthen (u_close p1) (runcmd l b)))))) (
     ubind fork1 (\<lambda>pid.
     uthen (uwhen (pid = 0) (
       uthen (u_close 0) (uthen (u_dup p0) (uthen (u_close p0) (uthen (u_close p1) (runcmd r b)))))) (
     uthen (u_close p0) (uthen (u_close p1) (uthen u_wait (uthen u_wait (uexit 0)))))))))"
| "runcmd (BACK c) b =
     ubind fork1 (\<lambda>pid. uthen (uwhen (pid = 0) (runcmd c b)) (uexit 0))"

definition getcmd :: "u8 list \<Rightarrow> nat \<Rightarrow> (int \<times> u8 list) uop" where
  "getcmd buf nbuf =
     uthen (fprintf 2 (str_bytes ''$ '') []) (
     ubind (gets (u_memset buf 0 0 nbuf) nbuf) (\<lambda>buf.
     uret (if ch buf 0 = 0 then - 1 else 0, buf)))"

text \<open>The result of the parser in the child: a panic prints its message and exits.\<close>

definition run_line :: "u8 list \<Rightarrow> unit uop" where
  "run_line buf =
     (case parsecmd (take (u_strlen buf) buf) 0 of
        Ok (c, b) _ \<Rightarrow> runcmd c b
      | Panic e \<Rightarrow> sh_panic e
      | _ \<Rightarrow> ustuck)"

primrec sh_open :: "nat \<Rightarrow> unit uop" where
  "sh_open 0 = ustuck"
| "sh_open (Suc n) =
     ubind (u_open (str_bytes ''console'') O_RDWR) (\<lambda>fd.
     if fd < 0 then uret ()
     else if fd \<ge> 3 then uthen (u_close fd) (uret ())
     else sh_open n)"

primrec sh_loop :: "nat \<Rightarrow> u8 list \<Rightarrow> unit uop" where
  "sh_loop 0 buf = ustuck"
| "sh_loop (Suc n) buf =
     ubind (getcmd buf 100) (\<lambda>(r, buf).
     if r < 0 then uexit 0
     else if ch buf 0 = 99 \<and> ch buf 1 = 100 \<and> ch buf 2 = 32 then
       let buf = buf[u_strlen buf - 1 := 0]; dir = cstring_at buf 3 in
       ubind (usys (CChdir dir)) (\<lambda>r.
       uthen (uwhen (r < 0) (fprintf 2 (text_line ''cannot cd %s'') [UStr (Some dir)])) (sh_loop n buf))
     else
       ubind fork1 (\<lambda>pid.
       uthen (uwhen (pid = 0) (run_line buf)) (uthen u_wait (sh_loop n buf))))"

definition sh_main :: "nat \<Rightarrow> unit uop" where
  "sh_main n = uthen (sh_open n) (sh_loop n (replicate 100 0))"

section \<open>Positions\<close>

abbreviation ws :: "u8 \<Rightarrow> bool" where
  "ws \<equiv> is_in sh_whitespace"

text \<open>The characters a word is made of.\<close>

definition wordch :: "u8 \<Rightarrow> bool" where
  "wordch c \<longleftrightarrow> c \<noteq> 0 \<and> \<not> ws c \<and> \<not> is_in sh_symbols c"

lemma ws_iff: "ws c \<longleftrightarrow> c \<in> {32, 9, 13, 10, 11}"
  by (auto simp: is_in_def sh_whitespace_def)

lemma symbols_iff: "is_in sh_symbols c \<longleftrightarrow> c \<in> {60, 124, 62, 38, 59, 40, 41}"
  by (auto simp: is_in_def sh_symbols_def str_bytes_def)

lemma skip_ge: "s \<le> skip P b es s"
proof (induction P b es s rule: skip.induct)
  case (1 P b es s)
  then show ?case by (subst skip.simps) (auto dest: Suc_leD)
qed

lemma skip_le: "s \<le> es \<Longrightarrow> skip P b es s \<le> es"
proof (induction P b es s rule: skip.induct)
  case (1 P b es s)
  then show ?case by (subst skip.simps) auto
qed

lemma skip_stop: "skip P b es s < es \<Longrightarrow> \<not> P (ch b (skip P b es s))"
proof (induction P b es s rule: skip.induct)
  case (1 P b es s)
  then show ?case by (subst (asm) (1) skip.simps, subst skip.simps) (auto split: if_splits)
qed

lemma skip_all: "s \<le> i \<Longrightarrow> i < skip P b es s \<Longrightarrow> P (ch b i)"
proof (induction P b es s rule: skip.induct)
  case (1 P b es s)
  show ?case
  proof (cases "s < es \<and> P (ch b s)")
    case True
    then show ?thesis using 1(1) [OF True] 1(2,3) skip.simps [of P b es s] by (cases "i = s") auto
  next
    case False
    then show ?thesis using 1(2,3) skip.simps [of P b es s] by auto
  qed
qed

text \<open>A line: \<open>es\<close> is the position of its NUL.\<close>

definition line_ok :: "u8 list \<Rightarrow> nat \<Rightarrow> bool" where
  "line_ok b es \<longleftrightarrow> es < length b \<and> b ! es = 0 \<and> (\<forall>i<es. b ! i \<noteq> 0)"

lemma line_ch: "line_ok b es \<Longrightarrow> i \<le> es \<Longrightarrow> ch b i = 0 \<longleftrightarrow> i = es"
  by (cases "i = es") (auto simp: line_ok_def ch_def)

text \<open>A word of the line, with both its ends.\<close>

definition word_at :: "u8 list \<Rightarrow> nat \<Rightarrow> nat \<times> nat \<Rightarrow> bool" where
  "word_at b es w \<longleftrightarrow> fst w < snd w \<and> snd w \<le> es \<and> (\<forall>i. fst w \<le> i \<and> i < snd w \<longrightarrow> wordch (ch b i)) \<and> \<not> wordch (ch b (snd w))"

lemma gettoken_Ok:
  assumes "line_ok b es" and "ps \<le> es"
  obtains t q eq ps' where "gettoken b es ps = Ok (t, q, eq) ps'" and "ps \<le> ps'" and "ps' \<le> es"
    and "q = skip ws b es ps" and "t \<noteq> 0 \<longleftrightarrow> q < es" and "t \<noteq> 0 \<Longrightarrow> ps < ps'" and "t = 97 \<Longrightarrow> word_at b es (q, eq)"
proof -
  let ?q = "skip ws b es ps" and ?W = "\<lambda>c. \<not> ws c \<and> \<not> is_in sh_symbols c"
  let ?c = "ch b ?q"
  have q: "ps \<le> ?q" "?q \<le> es" "?q < es \<Longrightarrow> \<not> ws ?c" using skip_ge skip_le [OF assms(2)] skip_stop by blast+
  have c: "?c = 0 \<longleftrightarrow> ?q = es" using line_ch [OF assms(1) q(2)] .
  define ts where "ts = (if ?c = 0 then (0, ?q) else if ?c \<in> {124, 40, 41, 59, 38, 60} then (?c, ?q + 1)
      else if ?c = 62 then (if ch b (?q + 1) = 62 then (43, ?q + 2) else (62, ?q + 1)) else (97, skip ?W b es ?q))"
  have run: "gettoken b es ps = Ok (fst ts, ?q, snd ts) (skip ws b es (snd ts))"
    by (simp add: gettoken_def Let_def ts_def split: prod.split)
  have w: "word_at b es (?q, snd ts)" if "fst ts = 97"
  proof -
    have e: "snd ts = skip ?W b es ?q" "?c \<noteq> 0" "\<not> is_in sh_symbols ?c"
      using that by (auto simp: ts_def symbols_iff split: if_splits)
    have l: "?q < es" using c e(2) q(2) by auto
    then have "skip ?W b es ?q = skip ?W b es (?q + 1)" using e(3) q(3) by (subst skip.simps) simp
    then have p: "?q < snd ts" "snd ts \<le> es" using e(1) skip_ge [of "?q + 1" ?W b es] skip_le [of ?q es ?W b] q(2) by auto
    have "wordch (ch b i)" if "?q \<le> i" "i < snd ts" for i
      using skip_all [of ?q i ?W b es] that p e(1) line_ch [OF assms(1), of i] by (auto simp: wordch_def)
    moreover have "\<not> wordch (ch b (snd ts))"
      using skip_stop [of ?W b es ?q] p(2) e(1) line_ch [OF assms(1), of es] by (cases "snd ts = es") (auto simp: wordch_def)
    ultimately show ?thesis using p by (simp add: word_at_def)
  qed
  have z: "fst ts \<noteq> 0 \<longleftrightarrow> ?q < es" using c q(2) by (auto simp: ts_def)
  have two: "?q + 2 \<le> es" if "?q < es" "ch b (?q + 1) = 62"
    using line_ch [OF assms(1), of "?q + 1"] that by (cases "?q + 1 = es") auto
  have s: "snd ts \<le> es \<and> (fst ts \<noteq> 0 \<longrightarrow> ?q < snd ts) \<and> ?q \<le> snd ts"
    using w two c q(2) by (auto simp: ts_def word_at_def split: if_splits)
  have f: "snd ts \<le> skip ws b es (snd ts)" "skip ws b es (snd ts) \<le> es" using skip_ge skip_le s by blast+
  show thesis
    by (rule that [OF run _ f(2) refl z _ w]) (use s q(1) f(1) in \<open>auto intro: le_trans less_le_trans\<close>)
qed

section \<open>The parser returns\<close>

text \<open>From a position with at most \<open>k\<close> characters left, \<open>m\<close> panics or returns, not further back, with a result in \<open>Q\<close>.\<close>

definition fine :: "u8 list \<Rightarrow> nat \<Rightarrow> nat \<Rightarrow> (nat, 'a) op \<Rightarrow> ('a \<Rightarrow> bool) \<Rightarrow> bool" where
  "fine b es k m Q \<longleftrightarrow> (\<forall>ps\<le>es. es - ps \<le> k \<longrightarrow>
     (case m ps of Ok a ps' \<Rightarrow> ps \<le> ps' \<and> ps' \<le> es \<and> Q a | Panic e \<Rightarrow> True | _ \<Rightarrow> False))"

lemma fineD:
  "fine b es k m Q \<Longrightarrow> ps \<le> es \<Longrightarrow> es - ps \<le> k \<Longrightarrow>
     (case m ps of Ok a ps' \<Rightarrow> ps \<le> ps' \<and> ps' \<le> es \<and> Q a | Panic e \<Rightarrow> True | _ \<Rightarrow> False)"
  unfolding fine_def by blast

lemma fine_kret: "Q a \<Longrightarrow> fine b es k (kret a) Q"
  by (simp add: fine_def kret_def)

lemma fine_kpanic: "fine b es k (kpanic e) Q"
  by (simp add: fine_def kpanic_def)

lemma fine_kbind:
  assumes "fine b es k m Q" and "\<And>a. Q a \<Longrightarrow> fine b es k (f a) R"
  shows "fine b es k (kbind m f) R"
  unfolding fine_def
proof (intro allI impI)
  fix ps assume ps: "ps \<le> es" "es - ps \<le> k"
  show "case kbind m f ps of Ok a ps' \<Rightarrow> ps \<le> ps' \<and> ps' \<le> es \<and> R a | Panic e \<Rightarrow> True | _ \<Rightarrow> False"
  proof (cases "m ps")
    case (Ok a ps')
    then have q: "Q a" "ps \<le> ps'" "ps' \<le> es" using assms(1) ps unfolding fine_def by force+
    have "case f a ps' of Ok a ps'' \<Rightarrow> ps' \<le> ps'' \<and> ps'' \<le> es \<and> R a | Panic e \<Rightarrow> True | _ \<Rightarrow> False"
      using assms(2) [OF q(1)] q(2,3) ps(2) unfolding fine_def by (meson diff_le_mono2 le_trans)
    then show ?thesis using Ok q(2) by (auto simp: kbind_def split: out.splits)
  next
    case (Panic e)
    then show ?thesis by (simp add: kbind_def)
  qed (use assms(1) ps in \<open>force simp: fine_def\<close>)+
qed

lemma fine_weaken:
  assumes "fine b es k m Q" and "\<And>a. Q a \<Longrightarrow> R a"
  shows "fine b es k m R"
  unfolding fine_def
proof (intro allI impI)
  fix ps assume "ps \<le> es" "es - ps \<le> k"
  then have "case m ps of Ok a ps' \<Rightarrow> ps \<le> ps' \<and> ps' \<le> es \<and> Q a | Panic e \<Rightarrow> True | _ \<Rightarrow> False"
    using assms(1) unfolding fine_def by blast
  then show "case m ps of Ok a ps' \<Rightarrow> ps \<le> ps' \<and> ps' \<le> es \<and> R a | Panic e \<Rightarrow> True | _ \<Rightarrow> False"
    using assms(2) by (cases "m ps") auto
qed

text \<open>Reading a token leaves less to read, except at the end of the line.\<close>

lemma fine_gettoken:
  assumes "line_ok b es" and "\<And>q eq. fine b es k (f (0, q, eq)) R"
    and "\<And>t q eq j. t \<noteq> 0 \<Longrightarrow> (t = 97 \<Longrightarrow> word_at b es (q, eq)) \<Longrightarrow> k = Suc j \<Longrightarrow> fine b es j (f (t, q, eq)) R"
  shows "fine b es k (kbind (gettoken b es) f) R"
  unfolding fine_def
proof (intro allI impI)
  fix ps assume ps: "ps \<le> es" "es - ps \<le> k"
  obtain t q eq ps' where g: "gettoken b es ps = Ok (t, q, eq) ps'" "ps \<le> ps'" "ps' \<le> es" "t \<noteq> 0 \<longrightarrow> ps < ps'" "t = 97 \<longrightarrow> word_at b es (q, eq)"
    using gettoken_Ok [OF assms(1) ps(1)] by metis
  have "case f (t, q, eq) ps' of Ok a ps'' \<Rightarrow> ps' \<le> ps'' \<and> ps'' \<le> es \<and> R a | Panic e \<Rightarrow> True | _ \<Rightarrow> False"
  proof (cases "t = 0")
    case True
    then show ?thesis using assms(2) [of q eq] g(2,3) ps(2) unfolding fine_def by (meson diff_le_mono2 le_trans)
  next
    case False
    then have "ps < ps'" using g(4) by simp
    then have j: "k = Suc (k - 1)" "es - ps' \<le> k - 1" using g(3) ps(2) by auto
    show ?thesis using assms(3) [OF False _ j(1), of q eq] g(3,5) j(2) unfolding fine_def by blast
  qed
  then show "case kbind (gettoken b es) f ps of Ok a ps' \<Rightarrow> ps \<le> ps' \<and> ps' \<le> es \<and> R a | Panic e \<Rightarrow> True | _ \<Rightarrow> False"
    using g(1,2) by (auto simp: kbind_def split: out.splits)
qed

lemma peek_run:
  "peek b es toks ps = Ok (ch b (skip ws b es ps) \<noteq> 0 \<and> is_in toks (ch b (skip ws b es ps))) (skip ws b es ps)"
  by (simp add: peek_def Let_def)

lemma fine_peek:
  assumes "\<And>more. fine b es k (f more) R"
  shows "fine b es k (kbind (peek b es toks) f) R"
  by (rule fine_kbind [where Q = "\<lambda>_. True", OF _ assms]) (simp add: fine_def peek_run skip_ge skip_le)

lemma skip_again: "skip P b es (skip P b es s) = skip P b es s"
proof (cases "skip P b es s < es")
  case True
  then show ?thesis using skip_stop [OF True] by (subst skip.simps) simp
next
  case False
  then show ?thesis by (subst skip.simps) simp
qed

text \<open>After \<^verbatim>\<open>peek\<close> has seen one of its tokens, the next token is there.\<close>

lemma fine_peek_token:
  assumes "line_ok b es" and "fine b es k m R" and "\<And>t q eq j. t \<noteq> 0 \<Longrightarrow> k = Suc j \<Longrightarrow> fine b es j (f (t, q, eq)) R"
  shows "fine b es k (kbind (peek b es toks) (\<lambda>more. if more then kbind (gettoken b es) f else m)) R"
  unfolding fine_def
proof (intro allI impI)
  fix ps assume ps: "ps \<le> es" "es - ps \<le> k"
  let ?q = "skip ws b es ps"
  have q: "ps \<le> ?q" "?q \<le> es" using skip_ge skip_le [OF ps(1)] by blast+
  show "case kbind (peek b es toks) (\<lambda>more. if more then kbind (gettoken b es) f else m) ps of
      Ok a ps' \<Rightarrow> ps \<le> ps' \<and> ps' \<le> es \<and> R a | Panic e \<Rightarrow> True | _ \<Rightarrow> False"
  proof (cases "ch b ?q \<noteq> 0 \<and> is_in toks (ch b ?q)")
    case True
    obtain t q' eq ps' where g: "gettoken b es ?q = Ok (t, q', eq) ps'" "?q \<le> ps'" "ps' \<le> es" "t \<noteq> 0 \<longrightarrow> ?q < ps'" "t \<noteq> 0 \<longleftrightarrow> ?q < es"
      using gettoken_Ok [OF assms(1) q(2)] skip_again by metis
    have t: "t \<noteq> 0" using g(5) True line_ch [OF assms(1) q(2)] q(2) by auto
    then have j: "k = Suc (k - 1)" "es - ps' \<le> k - 1" using g(3,4) q ps(2) by auto
    have "case f (t, q', eq) ps' of Ok a ps'' \<Rightarrow> ps' \<le> ps'' \<and> ps'' \<le> es \<and> R a | Panic e \<Rightarrow> True | _ \<Rightarrow> False"
      using assms(3) [OF t j(1), of q' eq] g(3) j(2) unfolding fine_def by blast
    then show ?thesis using True g(1,2) q(1) by (auto simp: kbind_def peek_run split: out.splits)
  next
    case False
    have "case m ?q of Ok a ps'' \<Rightarrow> ?q \<le> ps'' \<and> ps'' \<le> es \<and> R a | Panic e \<Rightarrow> True | _ \<Rightarrow> False"
      using assms(2) q ps(2) unfolding fine_def by (meson diff_le_mono2 le_trans)
    then show ?thesis using False q(1) by (auto simp: kbind_def peek_run split: out.splits)
  qed
qed

text \<open>What holds of a parsed command: its strings are words of the line, and \<^verbatim>\<open>argv\<close> is not full.\<close>

primrec cmd_ok :: "u8 list \<Rightarrow> nat \<Rightarrow> cmd \<Rightarrow> bool" where
  "cmd_ok b es (EXEC as) \<longleftrightarrow> (\<forall>a\<in>set as. word_at b es a) \<and> length as < MAXARGS"
| "cmd_ok b es (REDIR c f m d) \<longleftrightarrow> cmd_ok b es c \<and> word_at b es f"
| "cmd_ok b es (PIPE l r) \<longleftrightarrow> cmd_ok b es l \<and> cmd_ok b es r"
| "cmd_ok b es (LIST l r) \<longleftrightarrow> cmd_ok b es l \<and> cmd_ok b es r"
| "cmd_ok b es (BACK c) \<longleftrightarrow> cmd_ok b es c"

text \<open>The number of arguments of the \<^verbatim>\<open>execcmd\<close> that \<^verbatim>\<open>parseexec\<close> is filling.\<close>

primrec argc_of :: "cmd \<Rightarrow> nat" where
  "argc_of (EXEC as) = length as"
| "argc_of (REDIR c f m d) = argc_of c"
| "argc_of (PIPE l r) = 0"
| "argc_of (LIST l r) = 0"
| "argc_of (BACK c) = 0"

lemma add_arg_ok: "cmd_ok b es c \<Longrightarrow> word_at b es a \<Longrightarrow> argc_of c + 1 < MAXARGS \<Longrightarrow> cmd_ok b es (add_arg a c)"
  by (induction c) auto

lemma argc_add_arg: "argc_of (add_arg a c) \<le> argc_of c + 1"
  by (induction c) auto

lemma fine_parseredirs:
  assumes "line_ok b es"
  shows "k + 1 \<le> n \<Longrightarrow> cmd_ok b es c \<Longrightarrow> fine b es k (parseredirs n c b es) (\<lambda>d. cmd_ok b es d \<and> argc_of d = argc_of c)"
proof (induction n arbitrary: k c)
  case (Suc n)
  have sw: "(\<lambda>more. if \<not> more then kret c else f) = (\<lambda>more. if more then f else kret c)" for f :: "(nat, cmd) op" by auto
  show ?case
    unfolding parseredirs.simps sw
  proof (rule fine_peek_token [OF assms])
    show "fine b es k (kret c) (\<lambda>d. cmd_ok b es d \<and> argc_of d = argc_of c)" using Suc.prems by (intro fine_kret) simp
    fix t :: u8 and q eq j :: nat assume j: "k = Suc j"
    have r: "cmd_ok b es (redir_of t c w) \<and> argc_of (redir_of t c w) = argc_of c" if "word_at b es w" for w
      using that Suc.prems(2) by (simp add: redir_of_def)
    show "fine b es j (case (t, q, eq) of (tok, _, _) \<Rightarrow> kbind (gettoken b es) (\<lambda>(t, q, eq). if t \<noteq> 97 then kpanic ''missing file for redirection''
        else parseredirs n (redir_of tok c (q, eq)) b es)) (\<lambda>d. cmd_ok b es d \<and> argc_of d = argc_of c)"
      unfolding prod.case
    proof (rule fine_gettoken [OF assms])
      fix t' :: u8 and q' eq' i assume "t' \<noteq> 0" and w: "t' = 97 \<Longrightarrow> word_at b es (q', eq')" and i: "j = Suc i"
      show "fine b es i (case (t', q', eq') of (t', q, eq) \<Rightarrow> if t' \<noteq> 97 then kpanic ''missing file for redirection''
        else parseredirs n (redir_of t c (q, eq)) b es) (\<lambda>d. cmd_ok b es d \<and> argc_of d = argc_of c)"
        using Suc.IH [of i "redir_of t c (q', eq')"] r [of "(q', eq')"] w i j Suc.prems(1) by (auto intro!: fine_kpanic)
    qed (simp add: fine_kpanic)
  qed
qed simp

lemma fine_parseargs:
  assumes "line_ok b es"
  shows "k + 1 \<le> n \<Longrightarrow> cmd_ok b es c \<Longrightarrow> argc_of c \<le> argc \<Longrightarrow> fine b es k (parseargs n argc c b es) (cmd_ok b es)"
proof (induction n arbitrary: k c argc)
  case (Suc n)
  show ?case unfolding parseargs.simps
  proof (rule fine_peek)
    fix stop
    show "fine b es k (if stop then kret c else
        kbind (gettoken b es) (\<lambda>(tok, q, eq). if tok = 0 then kret c else if tok \<noteq> 97 then kpanic ''syntax'' else
          let rc = add_arg (q, eq) c; argc = argc + 1 in if argc \<ge> MAXARGS then kpanic ''too many args'' else
          kbind (parseredirs n rc b es) (\<lambda>rc. parseargs n argc rc b es))) (cmd_ok b es)"
    proof (cases stop)
      case False
      have "fine b es k (kbind (gettoken b es) (\<lambda>(tok, q, eq). if tok = 0 then kret c else if tok \<noteq> 97 then kpanic ''syntax'' else
          let rc = add_arg (q, eq) c; argc = argc + 1 in if argc \<ge> MAXARGS then kpanic ''too many args'' else
          kbind (parseredirs n rc b es) (\<lambda>rc. parseargs n argc rc b es))) (cmd_ok b es)"
      proof (rule fine_gettoken [OF assms])
        fix q eq
        show "fine b es k (case (0, q, eq) of (tok, q, eq) \<Rightarrow> if tok = 0 then kret c else if tok \<noteq> 97 then kpanic ''syntax'' else
          let rc = add_arg (q, eq) c; argc = argc + 1 in if argc \<ge> MAXARGS then kpanic ''too many args'' else
          kbind (parseredirs n rc b es) (\<lambda>rc. parseargs n argc rc b es)) (cmd_ok b es)"
          unfolding prod.case using fine_kret [of "cmd_ok b es" c b es k] Suc.prems(2) by simp
      next
        fix t :: u8 and q eq j assume t: "t \<noteq> 0" and w: "t = 97 \<Longrightarrow> word_at b es (q, eq)" and j: "k = Suc j"
        have "fine b es j (kbind (parseredirs n (add_arg (q, eq) c) b es) (\<lambda>rc. parseargs n (argc + 1) rc b es)) (cmd_ok b es)"
          if "t = 97" "argc + 1 < MAXARGS"
        proof (rule fine_kbind)
          show "fine b es j (parseredirs n (add_arg (q, eq) c) b es) (\<lambda>d. cmd_ok b es d \<and> argc_of d = argc_of (add_arg (q, eq) c))"
            using fine_parseredirs [OF assms, of j n] add_arg_ok [OF Suc.prems(2) w [OF that(1)]] that Suc.prems j by simp
          fix rc assume "cmd_ok b es rc \<and> argc_of rc = argc_of (add_arg (q, eq) c)"
          then show "fine b es j (parseargs n (argc + 1) rc b es) (cmd_ok b es)"
            using Suc.IH [of j rc "argc + 1"] Suc.prems j argc_add_arg [of "(q, eq)" c] by simp
        qed
        then show "fine b es j (case (t, q, eq) of (tok, q, eq) \<Rightarrow> if tok = 0 then kret c else if tok \<noteq> 97 then kpanic ''syntax'' else
          let rc = add_arg (q, eq) c; argc = argc + 1 in if argc \<ge> MAXARGS then kpanic ''too many args'' else
          kbind (parseredirs n rc b es) (\<lambda>rc. parseargs n argc rc b es)) (cmd_ok b es)"
          using t by (auto simp: Let_def intro!: fine_kpanic)
      qed
      then show ?thesis using False by simp
    qed (use fine_kret [of "cmd_ok b es" c b es k] Suc.prems(2) in simp)
  qed
qed simp

lemma fine_parsebacks:
  assumes "line_ok b es"
  shows "k + 1 \<le> n \<Longrightarrow> cmd_ok b es c \<Longrightarrow> fine b es k (parsebacks n c b es) (cmd_ok b es)"
proof (induction n arbitrary: k c)
  case (Suc n)
  show ?case unfolding parsebacks.simps kthen_def
    by (rule fine_peek_token [OF assms])
      (use fine_kret [of "cmd_ok b es" c] Suc.prems Suc.IH [of _ "BACK c"] in auto)
qed simp

lemma fine_parser:
  assumes "line_ok b es"
  shows "4 * k + 4 \<le> n \<Longrightarrow> fine b es k (parseline n b es) (cmd_ok b es)"
    and "4 * k + 3 \<le> n \<Longrightarrow> fine b es k (parsepipe n b es) (cmd_ok b es)"
    and "4 * k + 2 \<le> n \<Longrightarrow> fine b es k (parseexec n b es) (cmd_ok b es)"
    and "4 * k + 1 \<le> n \<Longrightarrow> fine b es k (parseblock n b es) (cmd_ok b es)"
proof (induction n arbitrary: k)
  case (Suc n)
  note tok = fine_peek_token [OF assms] and ret = fine_kret [where Q = "cmd_ok b es"]
  {
    case 1
    show ?case unfolding parseline.simps kthen_def
    proof (intro fine_kbind [where Q = "cmd_ok b es"] tok ret)
      show "fine b es k (parsepipe n b es) (cmd_ok b es)" using Suc.IH(2) 1 by simp
      show "fine b es k (parsebacks n c b es) (cmd_ok b es)" if "cmd_ok b es c" for c using fine_parsebacks [OF assms] 1 that by simp
      show "fine b es j (parseline n b es) (cmd_ok b es)" if "k = Suc j" for j using Suc.IH(1) 1 that by simp
    qed auto
  next
    case 2
    show ?case unfolding parsepipe.simps kthen_def
    proof (intro fine_kbind [where Q = "cmd_ok b es"] tok ret)
      show "fine b es k (parseexec n b es) (cmd_ok b es)" using Suc.IH(3) 2 by simp
      show "fine b es j (parsepipe n b es) (cmd_ok b es)" if "k = Suc j" for j using Suc.IH(2) 2 that by simp
    qed auto
  next
    case 3
    have e: "cmd_ok b es (EXEC []) \<and> argc_of (EXEC []) = 0" by (simp add: MAXARGS_def)
    have "fine b es k (kbind (parseredirs n (EXEC []) b es) (\<lambda>rc. parseargs n 0 rc b es)) (cmd_ok b es)"
      by (rule fine_kbind [where Q = "\<lambda>d. cmd_ok b es d \<and> argc_of d = 0"])
        (use fine_parseredirs [OF assms, of k n "EXEC []"] fine_parseargs [OF assms, of k n _ 0] e 3 in auto)
    then show ?case unfolding parseexec.simps
      by (intro fine_peek) (use Suc.IH(4) 3 in simp)
  next
    case 4
    have sw: "(\<lambda>more. if \<not> more then kpanic e else f) = (\<lambda>more. if more then f else kpanic e)" for f :: "(nat, cmd) op" and e by auto
    show ?case unfolding parseblock.simps kthen_def sw
    proof (intro tok fine_kpanic fine_kbind [where Q = "cmd_ok b es"])
      fix j assume j: "k = Suc j"
      show "fine b es j (parseline n b es) (cmd_ok b es)" using Suc.IH(1) 4 j by simp
      fix c i assume "cmd_ok b es c" "j = Suc i"
      then show "fine b es i (parseredirs n c b es) (cmd_ok b es)"
        using 4 j by (intro fine_weaken [OF fine_parseredirs [OF assms, of i n c]]) auto
    qed
  }
qed simp_all

section \<open>Cutting the line\<close>

primrec cmd_words :: "cmd \<Rightarrow> (nat \<times> nat) list" where
  "cmd_words (EXEC as) = as"
| "cmd_words (REDIR c f m d) = cmd_words c @ [f]"
| "cmd_words (PIPE l r) = cmd_words l @ cmd_words r"
| "cmd_words (LIST l r) = cmd_words l @ cmd_words r"
| "cmd_words (BACK c) = cmd_words c"

lemma cmd_ok_words: "cmd_ok b es c \<Longrightarrow> w \<in> set (cmd_words c) \<Longrightarrow> word_at b es w"
  by (induction c) auto

lemma nulterminate_fold: "nulterminate c b = fold (\<lambda>w b. b[snd w := 0]) (cmd_words c) b"
proof (induction c arbitrary: b)
  case (EXEC as)
  show ?case by (simp add: case_prod_unfold)
qed simp_all

lemma fold_nul:
  "length (fold (\<lambda>w b. b[snd w := 0]) wds b) = length b"
  "i < length b \<Longrightarrow> fold (\<lambda>w b. b[snd w := 0]) wds b ! i = (if i \<in> snd ` set wds then 0 else b ! i :: u8)"
proof (induction wds arbitrary: b)
  case (Cons w wds)
  { case 1 show ?case using Cons by simp next case 2 then show ?case using Cons(2) [of "b[snd w := 0]"] by (auto simp: nth_list_update) }
qed auto

lemma length_nulterminate [simp]: "length (nulterminate c b) = length b"
  by (simp add: nulterminate_fold fold_nul)

lemma word_cut:
  assumes "es < length b" and "\<forall>w\<in>set (cmd_words c). word_at b es w" and "(q, eq) \<in> set (cmd_words c)"
  shows "cstring_at (nulterminate c b) q = take (eq - q) (drop q b)"
proof -
  let ?b = "nulterminate c b"
  have w: "q < eq" "eq \<le> es" "\<And>i. q \<le> i \<Longrightarrow> i < eq \<Longrightarrow> wordch (ch b i)" using assms(2,3) by (auto simp: word_at_def)
  have nth: "?b ! i = (if i \<in> snd ` set (cmd_words c) then 0 else b ! i)" if "i < length b" for i
    unfolding nulterminate_fold by (rule fold_nul(2) [OF that])
  have keep: "?b ! i = b ! i" "b ! i \<noteq> 0" if "q \<le> i" "i < eq" for i
  proof -
    have i: "i < length b" "wordch (ch b i)" using that w assms(1) by auto
    then have "i \<notin> snd ` set (cmd_words c)" using assms(2) by (auto simp: word_at_def)
    then show "?b ! i = b ! i" "b ! i \<noteq> 0" using i nth by (auto simp: wordch_def ch_def)
  qed
  have "drop q ?b = take (eq - q) (drop q b) @ 0 # drop (eq + 1) ?b"
  proof (rule nth_equalityI)
    show "length (drop q ?b) = length (take (eq - q) (drop q b) @ 0 # drop (eq + 1) ?b)" using w assms(1) by simp
    fix i assume i: "i < length (drop q ?b)"
    have z: "?b ! eq = 0" using nth [of eq] w assms(1,3) by force
    consider "i < eq - q" | "i = eq - q" | "eq - q < i" by linarith
    then show "drop q ?b ! i = (take (eq - q) (drop q b) @ 0 # drop (eq + 1) ?b) ! i"
    proof cases
      case 3
      then obtain j where j: "i = eq - q + Suc j" using less_imp_Suc_add [OF 3] by auto
      then have "q + i = Suc (eq + j)" using w by simp
      moreover have "length (take (eq - q) (drop q b)) = eq - q" "\<not> i < eq - q" "i - (eq - q) = Suc j" using w assms(1) j by simp_all
      ultimately show ?thesis unfolding nth_append using i w assms(1) by simp
    qed (use i w assms(1) z keep(1) [of "q + i"] in \<open>auto simp: nth_append\<close>)
  qed
  moreover have "\<forall>x\<in>set (take (eq - q) (drop q b)). x \<noteq> 0"
    using keep(2) w assms(1) by (auto simp: in_set_conv_nth)
  ultimately show ?thesis by (simp add: cstring_at_def takeWhile_append2)
qed

lemma line_ok_string: "line_ok (s @ [0]) (u_strlen s)"
proof (induction s)
  case Nil
  then show ?case by (simp add: line_ok_def)
next
  case (Cons x s)
  then show ?case by (auto simp: line_ok_def nth_Cons' less_Suc_eq_0_disj)
qed

text \<open>
  C13. The shell's parser ends on every line, with a command or with a panic that has a message; it does not
  run forever, and it does not look or write outside the line.  Every argument and file
  name of a command it returns is a word of the line, at most nine of them to a command, and after
  \<^verbatim>\<open>nulterminate\<close> each of them, read as a C string, is exactly that word: cutting one never
  damages another.
\<close>

theorem parsecmd_safe:
  "(\<exists>e. parsecmd s 0 = Panic e) \<or>
   (\<exists>c b ps. parsecmd s 0 = Ok (c, b) ps \<and> ps = u_strlen s \<and> cmd_ok (s @ [0]) (u_strlen s) c \<and> length b = length s + 1 \<and>
      (\<forall>(q, eq)\<in>set (cmd_words c). q < eq \<and> eq \<le> u_strlen s \<and> cstring_at b q = take (eq - q) (drop q s)))"
proof -
  let ?es = "u_strlen s" and ?b = "s @ [0]"
  have "fine ?b ?es ?es (parseline (parse_fuel ?es) ?b ?es) (cmd_ok ?b ?es)"
    by (rule fine_parser(1) [OF line_ok_string]) (simp add: parse_fuel_def)
  then have "case parseline (parse_fuel ?es) ?b ?es 0 of Ok a ps' \<Rightarrow> 0 \<le> ps' \<and> ps' \<le> ?es \<and> cmd_ok ?b ?es a | Panic e \<Rightarrow> True | _ \<Rightarrow> False"
    by (rule fineD) simp_all
  then consider (ok) c ps where "parseline (parse_fuel ?es) ?b ?es 0 = Ok c ps" "ps \<le> ?es" "cmd_ok ?b ?es c"
    | (panic) e where "parseline (parse_fuel ?es) ?b ?es 0 = Panic e"
    by (cases "parseline (parse_fuel ?es) ?b ?es 0") auto
  then show ?thesis
  proof cases
    case ok
    let ?ps = "skip ws ?b ?es ps"
    have es: "?es < length ?b" using line_ok_string [of s] by (simp add: line_ok_def)
    have words: "\<forall>w\<in>set (cmd_words c). word_at ?b ?es w" using cmd_ok_words [OF ok(3)] by blast
    have run: "parsecmd s 0 = (if ?ps \<noteq> ?es then Panic ''syntax'' else Ok (c, nulterminate c ?b) ?ps)"
      using ok(1) by (simp add: parsecmd_def Let_def kbind_def kthen_def kget_def kret_def kpanic_def peek_run)
    have "\<forall>(q, eq)\<in>set (cmd_words c). q < eq \<and> eq \<le> ?es \<and> cstring_at (nulterminate c ?b) q = take (eq - q) (drop q s)"
      using words word_cut [OF es words] es by (auto simp: word_at_def)
    then show ?thesis using run ok(3) by auto
  next
    case panic
    then show ?thesis by (simp add: parsecmd_def Let_def kbind_def)
  qed
qed

theorem parsecmd_safe_witness:
  "parsecmd [108, 115, 32] 0 = Ok (EXEC [(0, 2)], [108, 115, 0, 0]) 3 \<and> cstring_at [108, 115, 0, 0] 0 = [108, 115]"
proof -
  have run: "parsecmd [108, 115, 32] 0 = Ok (EXEC [(0, 2)], [108, 115, 0, 0]) 3" by code_simp
  then show ?thesis using parsecmd_safe [of "[108, 115, 32]"] by auto
qed

section \<open>Printing commands\<close>

text \<open>Commands with their strings, as a user would have them in mind.\<close>

datatype rkind = RIn | ROut | RApp

datatype vcmd = VEXEC "u8 list list" | VREDIR vcmd "u8 list" rkind | VPIPE vcmd vcmd | VLIST vcmd vcmd | VBACK vcmd

primrec rmode :: "rkind \<Rightarrow> u32" where
  "rmode RIn = O_RDONLY"
| "rmode ROut = O_WRONLY OR O_CREATE OR O_TRUNC"
| "rmode RApp = O_WRONLY OR O_CREATE"

primrec rfd :: "rkind \<Rightarrow> int" where
  "rfd RIn = 0"
| "rfd ROut = 1"
| "rfd RApp = 1"

primrec rsym :: "rkind \<Rightarrow> u8 list" where
  "rsym RIn = [60]"
| "rsym ROut = [62]"
| "rsym RApp = [62, 62]"

text \<open>A parsed command stands for \<open>v\<close> when its strings, given by \<open>g\<close>, are those of \<open>v\<close>.\<close>

fun means :: "(nat \<times> nat \<Rightarrow> u8 list) \<Rightarrow> cmd \<Rightarrow> vcmd \<Rightarrow> bool" where
  "means g (EXEC as) (VEXEC vs) \<longleftrightarrow> map g as = vs"
| "means g (REDIR c f m d) (VREDIR v w k) \<longleftrightarrow> means g c v \<and> g f = w \<and> m = rmode k \<and> d = rfd k"
| "means g (PIPE l r) (VPIPE v w) \<longleftrightarrow> means g l v \<and> means g r w"
| "means g (LIST l r) (VLIST v w) \<longleftrightarrow> means g l v \<and> means g r w"
| "means g (BACK c) (VBACK v) \<longleftrightarrow> means g c v"
| "means g _ _ \<longleftrightarrow> False"

definition word_ok :: "u8 list \<Rightarrow> bool" where
  "word_ok w \<longleftrightarrow> w \<noteq> [] \<and> (\<forall>c\<in>set w. wordch c)"

primrec valid :: "vcmd \<Rightarrow> bool" where
  "valid (VEXEC vs) \<longleftrightarrow> (\<forall>w\<in>set vs. word_ok w) \<and> length vs < MAXARGS"
| "valid (VREDIR v w k) \<longleftrightarrow> valid v \<and> word_ok w"
| "valid (VPIPE v w) \<longleftrightarrow> valid v \<and> valid w"
| "valid (VLIST v w) \<longleftrightarrow> valid v \<and> valid w"
| "valid (VBACK v) \<longleftrightarrow> valid v"

definition words_text :: "u8 list list \<Rightarrow> u8 list" where
  "words_text vs = concat (map (\<lambda>w. w @ [32]) vs)"

definition redir_text :: "u8 list \<times> rkind \<Rightarrow> u8 list" where
  "redir_text r = rsym (snd r) @ fst r @ [32]"

definition paren :: "bool \<Rightarrow> u8 list \<Rightarrow> u8 list" where
  "paren p xs = (if p then [40] @ xs @ [41] else xs)"

text \<open>The text of a command where the grammar has an \<^verbatim>\<open>exec\<close> (0), a \<^verbatim>\<open>pipe\<close> (1), one before its \<^verbatim>\<open>&\<close> (2) or a \<^verbatim>\<open>line\<close> (3).\<close>

primrec show_cmd :: "nat \<Rightarrow> vcmd \<Rightarrow> u8 list" where
  "show_cmd k (VEXEC vs) = words_text vs"
| "show_cmd k (VREDIR v w r) = show_cmd 0 v @ redir_text (w, r)"
| "show_cmd k (VPIPE v w) = paren (k < 1) (show_cmd 0 v @ [124] @ show_cmd 1 w)"
| "show_cmd k (VBACK v) = paren (k < 2) (show_cmd 2 v @ [38])"
| "show_cmd k (VLIST v w) = paren (k < 3) (show_cmd 2 v @ [59] @ show_cmd 3 w)"

section \<open>Reading what is left\<close>

text \<open>At position \<open>ps\<close>, \<open>xs\<close> is left of the line.\<close>

definition left :: "u8 list \<Rightarrow> nat \<Rightarrow> nat \<Rightarrow> u8 list \<Rightarrow> bool" where
  "left b es ps xs \<longleftrightarrow> ps + length xs = es \<and> drop ps b = xs @ [0]"

definition tidy :: "u8 list \<Rightarrow> bool" where
  "tidy xs \<longleftrightarrow> (\<forall>c ys. xs = c # ys \<longrightarrow> \<not> ws c)"

lemma is_in_simps [simp]: "\<not> is_in [] c" "is_in (x # xs) c \<longleftrightarrow> x \<noteq> 0 \<and> (x = c \<or> is_in xs c)"
  by (auto simp: is_in_def)

lemma left_Nil: "left b es ps [] \<Longrightarrow> ps = es \<and> ch b ps = 0"
  unfolding left_def ch_def by (auto simp: drop_eq_Nil2 hd_drop_conv_nth dest: arg_cong [where f = hd])

lemma left_Cons: "left b es ps (x # xs) \<Longrightarrow> ps < es \<and> ch b ps = x \<and> left b es (ps + 1) xs"
proof -
  assume l: "left b es ps (x # xs)"
  then have d: "drop ps b = x # xs @ [0]" "ps + Suc (length xs) = es" by (auto simp: left_def)
  then have "ps < length b" by (metis drop_all list.distinct(1) not_less)
  moreover from this have "b ! ps = x" "drop (Suc ps) b = xs @ [0]" using d(1) by (simp_all add: Cons_nth_drop_Suc [symmetric])
  ultimately show ?thesis using d(2) by (simp add: left_def ch_def)
qed

lemma left_skip: "left b es ps xs \<Longrightarrow> left b es (skip P b es ps) (dropWhile P xs) \<and> skip P b es ps = ps + length (takeWhile P xs)"
proof (induction xs arbitrary: ps)
  case Nil
  then show ?case using left_Nil [OF Nil] by (subst (1 2) skip.simps) simp
next
  case (Cons x xs)
  note l = left_Cons [OF Cons.prems]
  show ?case
  proof (cases "P x")
    case True
    then have "skip P b es ps = skip P b es (ps + 1)" using l by (subst skip.simps) simp
    moreover have "left b es (skip P b es (ps + 1)) (dropWhile P xs) \<and> skip P b es (ps + 1) = ps + 1 + length (takeWhile P xs)"
      using Cons.IH l by blast
    ultimately show ?thesis using True by auto
  next
    case False
    then have "skip P b es ps = ps" using l by (subst skip.simps) simp
    then show ?thesis using Cons.prems False by simp
  qed
qed

lemma left_append: "left b es ps (xs @ ys) \<Longrightarrow> left b es (ps + length xs) ys \<and> take (length xs) (drop ps b) = xs"
  by (simp add: left_def add.assoc) (metis append_eq_conv_conj append.assoc drop_drop add.commute)

lemma tidy_simps [simp]: "tidy []" "tidy (c # xs) \<longleftrightarrow> \<not> ws c"
  by (simp_all add: tidy_def)

lemma tidy_drop: "tidy xs \<Longrightarrow> dropWhile ws xs = xs"
  by (cases xs) auto

lemma tidy_skip: "left b es ps xs \<Longrightarrow> tidy xs \<Longrightarrow> skip ws b es ps = ps"
  using left_skip [of b es ps xs ws] by (cases xs) auto

lemma peek_left: "left b es ps xs \<Longrightarrow> tidy xs \<Longrightarrow> peek b es toks ps = Ok (hd0 xs \<noteq> 0 \<and> is_in toks (hd0 xs)) ps"
  by (cases xs) (auto simp: peek_run tidy_skip dest: left_Nil left_Cons)

lemma token_symbol:
  assumes "left b es ps (c # xs)" and "c \<in> {124, 40, 41, 59, 38, 60}"
  shows "\<exists>q eq ps'. gettoken b es ps = Ok (c, q, eq) ps' \<and> left b es ps' (dropWhile ws xs)"
proof -
  have "tidy (c # xs)" using assms(2) by (auto simp: ws_iff)
  then have "skip ws b es ps = ps" using tidy_skip [OF assms(1)] by simp
  then show ?thesis
    using assms left_Cons [OF assms(1)] left_skip [of b es "ps + 1" xs ws] by (auto simp: gettoken_def Let_def)
qed

lemma token_gt:
  assumes "left b es ps (rsym k @ xs)" and "hd0 xs \<noteq> 62" and "k \<noteq> RIn"
  shows "\<exists>q eq ps'. gettoken b es ps = Ok (if k = ROut then 62 else 43, q, eq) ps' \<and> left b es ps' (dropWhile ws xs)"
proof -
  have sk: "skip ws b es ps = ps" using tidy_skip [OF assms(1)] assms(3) by (cases k) (auto simp: ws_iff)
  have c: "ch b (ps + length (rsym k)) = hd0 xs" using left_append [OF assms(1)] by (cases xs) (auto dest: left_Nil left_Cons)
  show ?thesis
  proof (cases k)
    case ROut
    then show ?thesis using assms(1,2) c sk left_Cons [of b es ps 62 xs] left_skip [of b es "ps + 1" xs ws]
      by (auto simp: gettoken_def Let_def)
  next
    case RApp
    then have l: "left b es ps (62 # 62 # xs)" using assms(1) by simp
    note l1 = left_Cons [OF l]
    then have l2: "ch b (ps + 1) = 62" "left b es (ps + 2) xs" using left_Cons [of b es "ps + 1" 62 xs] by auto
    then show ?thesis using RApp sk l1 left_skip [OF l2(2), of ws] by (auto simp: gettoken_def Let_def)
  qed (use assms(3) in simp)
qed

lemma token_word:
  assumes "left b es ps (w @ 32 # xs)" and "word_ok w"
  shows "\<exists>ps'. gettoken b es ps = Ok (97, ps, ps + length w) ps' \<and> left b es ps' (dropWhile ws xs) \<and> take (length w) (drop ps b) = w"
proof -
  obtain c w' where w: "w = c # w'" "wordch c" using assms(2) by (cases w) (auto simp: word_ok_def)
  let ?W = "\<lambda>c. \<not> ws c \<and> \<not> is_in sh_symbols c"
  have sk: "skip ws b es ps = ps" using tidy_skip [OF assms(1)] w by (auto simp: wordch_def)
  have c: "ch b ps = c" using left_Cons [of b es ps c "w' @ 32 # xs"] assms(1) w by simp
  have "\<forall>c\<in>set w. ?W c" using assms(2) by (simp add: word_ok_def wordch_def)
  then have "takeWhile ?W (w @ 32 # xs) = w" by (simp add: takeWhile_append2 ws_iff)
  then have e: "skip ?W b es ps = ps + length w" using left_skip [OF assms(1), of ?W] by simp
  have l: "left b es (ps + length w) (32 # xs)" "take (length w) (drop ps b) = w" using left_append [OF assms(1)] by simp_all
  have "left b es (skip ws b es (ps + length w)) (dropWhile ws xs)" using conjunct1 [OF left_skip [OF l(1), of ws]] by (simp add: ws_iff)
  moreover have "gettoken b es ps = Ok (97, ps, ps + length w) (skip ws b es (ps + length w))"
    using sk c e w(2) by (auto simp: gettoken_def Let_def wordch_def symbols_iff)
  ultimately show ?thesis using l(2) by blast
qed

section \<open>Parsing what was printed\<close>

text \<open>The strings before the line is cut.\<close>

definition span :: "u8 list \<Rightarrow> nat \<times> nat \<Rightarrow> u8 list" where
  "span b w = take (snd w - fst w) (drop (fst w) b)"

definition redirs_text :: "(u8 list \<times> rkind) list \<Rightarrow> u8 list" where
  "redirs_text rs = concat (map redir_text rs)"

definition wrap :: "vcmd \<Rightarrow> (u8 list \<times> rkind) list \<Rightarrow> vcmd" where
  "wrap v rs = foldl (\<lambda>v (w, k). VREDIR v w k) v rs"

definition redirs_ok :: "(u8 list \<times> rkind) list \<Rightarrow> bool" where
  "redirs_ok rs \<longleftrightarrow> (\<forall>r\<in>set rs. word_ok (fst r))"

lemma texts [simp]:
  "words_text [] = []" "words_text (w # vs) = w @ 32 # words_text vs" "redirs_text [] = []"
  "redirs_text (r # rs) = rsym (snd r) @ fst r @ 32 # redirs_text rs" "redirs_ok []" "redirs_ok (r # rs) \<longleftrightarrow> word_ok (fst r) \<and> redirs_ok rs"
  "wrap v [] = v" "wrap v (r # rs) = wrap (VREDIR v (fst r) (snd r)) rs"
  by (auto simp: words_text_def redirs_text_def redir_text_def redirs_ok_def wrap_def split: prod.split)

lemma word_ok_hd: "word_ok w \<Longrightarrow> \<exists>c w'. w = c # w' \<and> wordch c"
  by (cases w) (auto simp: word_ok_def)

lemma redirs_tidy: "tidy xs \<Longrightarrow> tidy (redirs_text rs @ xs)"
proof (cases rs)
  case (Cons r rs')
  then show "tidy (redirs_text rs @ xs)" by (cases "snd r") (auto simp: ws_iff)
qed simp

lemma words_tidy: "\<forall>w\<in>set vs. word_ok w \<Longrightarrow> tidy xs \<Longrightarrow> tidy (words_text vs @ xs)"
  by (cases vs) (auto dest!: word_ok_hd simp: wordch_def)

lemma token_redir:
  assumes "left b es ps (rsym k @ w @ 32 # xs)" and "word_ok w"
  shows "\<exists>q eq ps'. gettoken b es ps = Ok (case k of RIn \<Rightarrow> 60 | ROut \<Rightarrow> 62 | RApp \<Rightarrow> 43, q, eq) ps' \<and> left b es ps' (w @ 32 # xs)"
proof -
  obtain c w' where w: "w = c # w'" "wordch c" using word_ok_hd [OF assms(2)] by blast
  have d: "dropWhile ws (w @ 32 # xs) = w @ 32 # xs" using w by (simp add: wordch_def)
  have h: "hd0 (w @ 32 # xs) \<noteq> 62" using w by (auto simp: wordch_def symbols_iff)
  show ?thesis
  proof (cases k)
    case RIn
    then show ?thesis using token_symbol [of b es ps 60 "w @ 32 # xs"] assms(1) d by simp
  qed (use token_gt [OF assms(1) h] d in auto)
qed

lemma redir_of_means:
  "means g c v \<Longrightarrow> means g (redir_of (case k of RIn \<Rightarrow> 60 | ROut \<Rightarrow> 62 | RApp \<Rightarrow> 43) c f) (VREDIR v (g f) k)"
  by (cases k) (simp_all add: redir_of_def)

lemma parse_redirs:
  assumes "left b es ps (redirs_text rs @ xs)" and "redirs_ok rs" and "tidy xs" and "hd0 xs \<notin> {60, 62}" and "length rs < n"
  shows "\<exists>d ps'. parseredirs n c b es ps = Ok d ps' \<and> left b es ps' xs \<and> (\<forall>v. means (span b) c v \<longrightarrow> means (span b) d (wrap v rs)) \<and> (rs = [] \<longrightarrow> d = c)"
  using assms
proof (induction rs arbitrary: ps c n)
  case Nil
  then obtain m where n: "n = Suc m" by (cases n) auto
  have "\<not> is_in [60, 62] (hd0 xs)" using Nil.prems(4) by auto
  then show ?case using Nil.prems(1,3) peek_left [of b es ps xs "[60, 62]"] n by (simp add: kbind_def)
next
  case (Cons r rs)
  obtain w k where r: "r = (w, k)" by (cases r)
  obtain m where n: "n = Suc m" "length rs < m" using Cons.prems(5) by (cases n) auto
  let ?ys = "redirs_text rs @ xs" and ?t = "case k of RIn \<Rightarrow> 60 :: u8 | ROut \<Rightarrow> 62 | RApp \<Rightarrow> 43"
  have w: "word_ok w" "redirs_ok rs" using Cons.prems(2) r by simp_all
  have l: "left b es ps (rsym k @ w @ 32 # ?ys)" using Cons.prems(1) r by simp
  have pk: "peek b es [60, 62] ps = Ok True ps"
    using peek_left [OF l, of "[60, 62]"] by (cases k) (simp_all add: ws_iff)
  obtain q eq ps1 where t1: "gettoken b es ps = Ok (?t, q, eq) ps1" "left b es ps1 (w @ 32 # ?ys)" using token_redir [OF l w(1)] by blast
  obtain ps2 where t2: "gettoken b es ps1 = Ok (97, ps1, ps1 + length w) ps2" "left b es ps2 (dropWhile ws ?ys)" "take (length w) (drop ps1 b) = w"
    using token_word [OF t1(2) w(1)] by blast
  have l2: "left b es ps2 ?ys" using t2(2) tidy_drop [OF redirs_tidy [OF Cons.prems(3), of rs]] by simp
  let ?c = "redir_of ?t c (ps1, ps1 + length w)"
  have run: "parseredirs n c b es ps = parseredirs m ?c b es ps2" using n pk t1(1) t2(1) by (simp add: kbind_def)
  have sp: "span b (ps1, ps1 + length w) = w" using t2(3) by (simp add: span_def)
  obtain d ps' where "parseredirs m ?c b es ps2 = Ok d ps'" "left b es ps' xs" "\<forall>v. means (span b) ?c v \<longrightarrow> means (span b) d (wrap v rs)"
    using Cons.IH [OF l2 w(2) Cons.prems(3,4) n(2)] by blast
  then show ?case unfolding run using redir_of_means [of "span b" c _ k "(ps1, ps1 + length w)"] sp r by auto
qed

definition ends_exec :: "u8 list \<Rightarrow> bool" where
  "ends_exec xs \<longleftrightarrow> tidy xs \<and> (xs = [] \<or> hd xs \<in> {124, 41, 38, 59})"

lemma ends_exec_hd: "ends_exec xs \<Longrightarrow> tidy xs \<and> hd0 xs \<notin> {60, 62, 40}"
  by (cases xs) (auto simp: ends_exec_def)

lemma parse_no_args:
  assumes "left b es ps xs" and "ends_exec xs" and "0 < n"
  shows "\<exists>ps'. parseargs n argc c b es ps = Ok c ps' \<and> left b es ps' xs"
proof -
  obtain m where n: "n = Suc m" using assms(3) by (cases n) auto
  have t: "tidy xs" using assms(2) by (simp add: ends_exec_def)
  have stop: "hd0 xs \<noteq> 0 \<and> is_in (str_bytes ''|)&;'') (hd0 xs) \<longleftrightarrow> xs \<noteq> []"
    using assms(2) by (cases xs) (auto simp: ends_exec_def str_bytes_def)
  show ?thesis
  proof (cases "xs = []")
    case True
    then have e: "skip ws b es ps = ps" "ch b ps = 0" using assms(1) tidy_skip left_Nil by fastforce+
    then have "gettoken b es ps = Ok (0, ps, ps) ps" by (simp add: gettoken_def Let_def)
    then show ?thesis using n peek_left [OF assms(1) t, of "str_bytes ''|)&;''"] stop True assms(1) by (simp add: kbind_def)
  next
    case False
    then show ?thesis using n peek_left [OF assms(1) t, of "str_bytes ''|)&;''"] stop assms(1) by (simp add: kbind_def)
  qed
qed

lemma parse_args:
  assumes "left b es ps (words_text vs @ redirs_text rs @ xs)" and "vs \<noteq> []" and "\<forall>w\<in>set vs. word_ok w" and "redirs_ok rs"
    and "ends_exec xs" and "argc + length vs < MAXARGS" and "length vs + length rs + 1 < n" and "map (span b) as = us"
  shows "\<exists>d ps'. parseargs n argc (EXEC as) b es ps = Ok d ps' \<and> left b es ps' xs \<and> means (span b) d (wrap (VEXEC (us @ vs)) rs)"
  using assms
proof (induction vs arbitrary: ps as us argc n)
  case (Cons w vs)
  obtain m where n: "n = Suc m" "length vs + length rs + 1 < m" using Cons.prems(7) by (cases n) auto
  let ?ys = "words_text vs @ redirs_text rs @ xs"
  have w: "word_ok w" "\<forall>w\<in>set vs. word_ok w" and l: "left b es ps (w @ 32 # ?ys)" using Cons.prems(1,3) by simp_all
  have x: "tidy xs" "hd0 xs \<notin> {60, 62, 40}" using ends_exec_hd [OF Cons.prems(5)] by blast+
  obtain c w' where hd: "w = c # w'" "wordch c" using word_ok_hd [OF w(1)] by blast
  have "\<not> is_in (str_bytes ''|)&;'') c" using hd(2) by (auto simp: wordch_def symbols_iff str_bytes_def)
  then have pk: "peek b es (str_bytes ''|)&;'') ps = Ok False ps" using peek_left [OF l] hd by (simp add: wordch_def)
  obtain ps1 where t: "gettoken b es ps = Ok (97, ps, ps + length w) ps1" "left b es ps1 (dropWhile ws ?ys)" "take (length w) (drop ps b) = w"
    using token_word [OF l w(1)] by blast
  have l1: "left b es ps1 ?ys" using t(2) tidy_drop [OF words_tidy [OF w(2) redirs_tidy [OF x(1)]]] by simp
  let ?as = "as @ [(ps, ps + length w)]"
  have us: "map (span b) ?as = us @ [w]" using Cons.prems(8) t(3) span_def [of b "(ps, ps + length w)"] by simp
  have lt: "argc + 1 < MAXARGS" using Cons.prems(6) by simp
  have run: "parseargs n argc (EXEC as) b es ps = kbind (parseredirs m (EXEC ?as) b es) (\<lambda>rc. parseargs m (argc + 1) rc b es) ps1"
    using n(1) pk t(1) lt by (simp add: kbind_def Let_def)
  show ?case
  proof (cases "vs = []")
    case True
    then have l2: "left b es ps1 (redirs_text rs @ xs)" using l1 by simp
    obtain d ps2 where d: "parseredirs m (EXEC ?as) b es ps1 = Ok d ps2" "left b es ps2 xs"
      "\<forall>v. means (span b) (EXEC ?as) v \<longrightarrow> means (span b) d (wrap v rs)"
      using parse_redirs [OF l2 Cons.prems(4) x(1), of m "EXEC ?as"] x(2) n(2) by auto
    have "0 < m" using n(2) by simp
    from parse_no_args [OF d(2) Cons.prems(5) this, of "argc + 1" d] obtain ps' where "parseargs m (argc + 1) d b es ps2 = Ok d ps'" "left b es ps' xs" by blast
    then show ?thesis using run d us True by (simp add: kbind_def)
  next
    case False
    then obtain z zs c z' where z: "vs = z # zs" "z = c # z'" "wordch c" using w(2) by (cases vs) (auto dest: word_ok_hd)
    then have y: "hd0 ?ys \<notin> {60, 62}" "tidy ?ys" by (auto simp: wordch_def symbols_iff)
    obtain ps2 where d: "parseredirs m (EXEC ?as) b es ps1 = Ok (EXEC ?as) ps2" "left b es ps2 ?ys"
      using parse_redirs [of b es ps1 "[]" ?ys m "EXEC ?as"] l1 y n(2) by auto
    have "argc + 1 + length vs < MAXARGS" using Cons.prems(6) by simp
    from Cons.IH [OF d(2) False w(2) Cons.prems(4,5) this n(2) us] show ?thesis using run d(1) by (simp add: kbind_def)
  qed
qed simp

text \<open>An \<^verbatim>\<open>exec\<close>: a list of words, and redirections after it.\<close>

lemma parse_exec:
  assumes "left b es ps (words_text vs @ redirs_text rs @ xs)" and "valid (VEXEC vs)" and "redirs_ok rs" and "ends_exec xs"
    and "length vs + length rs + 2 < n"
  shows "\<exists>d ps'. parseexec n b es ps = Ok d ps' \<and> left b es ps' xs \<and> means (span b) d (wrap (VEXEC vs) rs)"
proof -
  obtain m where n: "n = Suc m" "length vs + length rs + 1 < m" using assms(5) by (cases n) auto
  have v: "\<forall>w\<in>set vs. word_ok w" "length vs < MAXARGS" using assms(2) by simp_all
  have x: "tidy xs" "hd0 xs \<notin> {60, 62, 40}" using ends_exec_hd [OF assms(4)] by blast+
  have t: "tidy (words_text vs @ redirs_text rs @ xs)" by (intro words_tidy redirs_tidy v x)
  have h: "hd0 (words_text vs @ redirs_text rs @ xs) \<noteq> 40"
  proof (cases vs)
    case Nil
    then show ?thesis using x(2) by (cases rs; cases "snd (hd rs)") auto
  next
    case (Cons w vs')
    then show ?thesis using v(1) by (auto dest!: word_ok_hd simp: wordch_def symbols_iff)
  qed
  then have pk: "peek b es [40] ps = Ok False ps" using peek_left [OF assms(1) t, of "[40]"] by simp
  have run: "parseexec n b es ps = kbind (parseredirs m (EXEC []) b es) (\<lambda>rc. parseargs m 0 rc b es) ps"
    using n(1) pk by (simp add: kbind_def)
  show ?thesis
  proof (cases "vs = []")
    case True
    then obtain d ps2 where d: "parseredirs m (EXEC []) b es ps = Ok d ps2" "left b es ps2 xs" "\<forall>v. means (span b) (EXEC []) v \<longrightarrow> means (span b) d (wrap v rs)"
      using parse_redirs [of b es ps rs xs m "EXEC []"] assms(1,3) x n(2) by auto
    have "0 < m" using n(2) by simp
    from parse_no_args [OF d(2) assms(4) this, of 0 d] obtain ps' where "parseargs m 0 d b es ps2 = Ok d ps'" "left b es ps' xs" by blast
    then show ?thesis using run d(1,3) True by (simp add: kbind_def)
  next
    case False
    then obtain z zs c z' where z: "vs = z # zs" "z = c # z'" "wordch c" using v(1) by (cases vs) (auto dest: word_ok_hd)
    then have y: "hd0 (words_text vs @ redirs_text rs @ xs) \<notin> {60, 62}" by (auto simp: wordch_def symbols_iff)
    obtain ps2 where d: "parseredirs m (EXEC []) b es ps = Ok (EXEC []) ps2" "left b es ps2 (words_text vs @ redirs_text rs @ xs)"
      using parse_redirs [of b es ps "[]" "words_text vs @ redirs_text rs @ xs" m "EXEC []"] assms(1) t y n(2) by auto
    then show ?thesis using parse_args [OF d(2) False v(1) assms(3,4), of 0 m "[]" "[]"] v(2) n(2) run by (simp add: kbind_def)
  qed
qed

text \<open>What each level of the grammar parses of the text of a command.\<close>

definition ends_in :: "u8 set \<Rightarrow> u8 list \<Rightarrow> bool" where
  "ends_in S xs \<longleftrightarrow> tidy xs \<and> (xs = [] \<or> hd xs \<in> S)"

definition reads_exec :: "u8 list \<Rightarrow> nat \<Rightarrow> vcmd \<Rightarrow> bool" where
  "reads_exec b es v \<longleftrightarrow> (\<forall>ps n xs. left b es ps (show_cmd 0 v @ xs) \<longrightarrow> ends_exec xs \<longrightarrow> 4 * length (show_cmd 0 v @ xs) + 3 \<le> n \<longrightarrow>
     (\<exists>c ps'. parseexec n b es ps = Ok c ps' \<and> left b es ps' xs \<and> means (span b) c v))"

definition reads_pipe :: "u8 list \<Rightarrow> nat \<Rightarrow> vcmd \<Rightarrow> bool" where
  "reads_pipe b es v \<longleftrightarrow> (\<forall>ps n xs. left b es ps (show_cmd 1 v @ xs) \<longrightarrow> ends_in {41, 38, 59} xs \<longrightarrow> 4 * length (show_cmd 1 v @ xs) + 4 \<le> n \<longrightarrow>
     (\<exists>c ps'. parsepipe n b es ps = Ok c ps' \<and> left b es ps' xs \<and> means (span b) c v))"

text \<open>\<^verbatim>\<open>parsepipe\<close> and the first \<open>j\<close> rounds of the loop over \<^verbatim>\<open>&\<close>.\<close>

definition reads_back :: "u8 list \<Rightarrow> nat \<Rightarrow> vcmd \<Rightarrow> bool" where
  "reads_back b es v \<longleftrightarrow> (\<forall>ps n xs. left b es ps (show_cmd 2 v @ xs) \<longrightarrow> ends_in {41, 38, 59} xs \<longrightarrow> 4 * length (show_cmd 2 v @ xs) + 4 \<le> n \<longrightarrow>
     (\<exists>c0 ps0 c ps' j. parsepipe n b es ps = Ok c0 ps0 \<and> (\<forall>m. parsebacks (m + j) c0 b es ps0 = parsebacks m c b es ps') \<and> j \<le> length (show_cmd 2 v) \<and>
        left b es ps' xs \<and> means (span b) c v))"

definition reads_line :: "u8 list \<Rightarrow> nat \<Rightarrow> vcmd \<Rightarrow> bool" where
  "reads_line b es v \<longleftrightarrow> (\<forall>ps n xs. left b es ps (show_cmd 3 v @ xs) \<longrightarrow> ends_in {41} xs \<longrightarrow> 4 * length (show_cmd 3 v @ xs) + 5 \<le> n \<longrightarrow>
     (\<exists>c ps'. parseline n b es ps = Ok c ps' \<and> left b es ps' xs \<and> means (span b) c v))"

lemma peek_other: "left b es ps xs \<Longrightarrow> ends_in S xs \<Longrightarrow> t \<notin> S \<Longrightarrow> peek b es [t] ps = Ok False ps"
  by (cases xs) (auto simp: peek_left ends_in_def)

lemma peek_this: "left b es ps (t # xs) \<Longrightarrow> t \<noteq> 0 \<Longrightarrow> \<not> ws t \<Longrightarrow> peek b es [t] ps = Ok True ps"
  by (simp add: peek_left)

lemma parsebacks_end:
  "left b es ps xs \<Longrightarrow> ends_in {41, 59} xs \<Longrightarrow> 0 < m \<Longrightarrow> parsebacks m c b es ps = Ok c ps"
  by (cases m) (auto simp: kbind_def peek_other [of b es ps xs "{41, 59}" 38])

lemma lift_pipe:
  assumes "reads_exec b es v" and "show_cmd 1 v = show_cmd 0 v"
  shows "reads_pipe b es v"
  unfolding reads_pipe_def
proof (intro allI impI)
  fix ps n xs assume l: "left b es ps (show_cmd 1 v @ xs)" and x: "ends_in {41, 38, 59} xs" and n: "4 * length (show_cmd 1 v @ xs) + 4 \<le> n"
  obtain m where m: "n = Suc m" "4 * length (show_cmd 0 v @ xs) + 3 \<le> m" using n assms(2) by (cases n) auto
  have "ends_exec xs" using x by (auto simp: ends_exec_def ends_in_def)
  then obtain c ps' where c: "parseexec m b es ps = Ok c ps'" "left b es ps' xs" "means (span b) c v"
    using assms(1) l m(2) unfolding reads_exec_def assms(2) by blast
  then show "\<exists>c ps'. parsepipe n b es ps = Ok c ps' \<and> left b es ps' xs \<and> means (span b) c v"
    using m(1) peek_other [OF c(2) x, of 124] by (simp add: kbind_def)
qed

lemma lift_back:
  assumes "reads_pipe b es v" and "show_cmd 2 v = show_cmd 1 v"
  shows "reads_back b es v"
  unfolding reads_back_def assms(2)
proof (intro allI impI)
  fix ps n xs assume "left b es ps (show_cmd 1 v @ xs)" "ends_in {41, 38, 59} xs" "4 * length (show_cmd 1 v @ xs) + 4 \<le> n"
  then obtain c ps' where c: "parsepipe n b es ps = Ok c ps'" "left b es ps' xs" "means (span b) c v"
    using assms(1) unfolding reads_pipe_def by blast
  then show "\<exists>c0 ps0 c ps' j. parsepipe n b es ps = Ok c0 ps0 \<and> (\<forall>m. parsebacks (m + j) c0 b es ps0 = parsebacks m c b es ps') \<and> j \<le> length (show_cmd 1 v) \<and>
        left b es ps' xs \<and> means (span b) c v"
    by (intro exI [of _ c] exI [of _ ps'] exI [of _ 0]) simp
qed

lemma backs_all:
  assumes "reads_back b es v" and "left b es ps (show_cmd 2 v @ xs)" and "ends_in {41, 59} xs" and "4 * length (show_cmd 2 v @ xs) + 4 \<le> n"
  obtains c0 ps0 c ps' where "parsepipe n b es ps = Ok c0 ps0" and "parsebacks n c0 b es ps0 = Ok c ps'" and "left b es ps' xs" and "means (span b) c v"
proof -
  have "ends_in {41, 38, 59} xs" using assms(3) by (auto simp: ends_in_def)
  then obtain c0 ps0 c ps' j where r: "parsepipe n b es ps = Ok c0 ps0" "\<forall>m. parsebacks (m + j) c0 b es ps0 = parsebacks m c b es ps'"
    "j \<le> length (show_cmd 2 v)" "left b es ps' xs" "means (span b) c v"
    using assms(1,2,4) unfolding reads_back_def by blast
  have j: "n = (n - j) + j" "0 < n - j" using r(3) assms(4) by auto
  have "parsebacks n c0 b es ps0 = parsebacks (n - j) c b es ps'" using r(2) j(1) by metis
  then have "parsebacks n c0 b es ps0 = Ok c ps'" using parsebacks_end [OF r(4) assms(3) j(2)] by simp
  then show thesis using that r by blast
qed

lemma lift_line:
  assumes "reads_back b es v" and "show_cmd 3 v = show_cmd 2 v"
  shows "reads_line b es v"
  unfolding reads_line_def assms(2)
proof (intro allI impI)
  fix ps n xs assume l: "left b es ps (show_cmd 2 v @ xs)" and x: "ends_in {41} xs" and n: "4 * length (show_cmd 2 v @ xs) + 5 \<le> n"
  obtain m where m: "n = Suc m" "4 * length (show_cmd 2 v @ xs) + 4 \<le> m" using n by (cases n) auto
  have x': "ends_in {41, 59} xs" using x by (auto simp: ends_in_def)
  obtain c0 ps0 c ps' where c: "parsepipe m b es ps = Ok c0 ps0" "parsebacks m c0 b es ps0 = Ok c ps'" "left b es ps' xs" "means (span b) c v"
    by (rule backs_all [OF assms(1) l x' m(2)])
  show "\<exists>c ps'. parseline n b es ps = Ok c ps' \<and> left b es ps' xs \<and> means (span b) c v"
    using c m(1) peek_other [OF c(3) x, of 59] by (simp add: kbind_def)
qed

text \<open>A command in parentheses, and redirections after it.\<close>

lemma parse_block:
  assumes "reads_line b es v" and "tidy (show_cmd 3 v @ [41])" and "redirs_ok rs" and "ends_exec xs"
    and "left b es ps ([40] @ show_cmd 3 v @ [41] @ redirs_text rs @ xs)" and "4 * length ([40] @ show_cmd 3 v @ [41] @ redirs_text rs @ xs) + 3 \<le> n"
  shows "\<exists>c ps'. parseexec n b es ps = Ok c ps' \<and> left b es ps' xs \<and> means (span b) c (wrap v rs)"
proof -
  let ?r = "redirs_text rs @ xs"
  obtain m where m: "n = Suc (Suc m)" "4 * length (show_cmd 3 v @ [41] @ ?r) + 5 \<le> m" using assms(6) by (cases n; cases "n - 1") auto
  have x: "tidy xs" "hd0 xs \<notin> {60, 62}" using ends_exec_hd [OF assms(4)] by blast+
  have l: "left b es ps (40 # show_cmd 3 v @ 41 # ?r)" using assms(5) by simp
  have pk: "peek b es [40] ps = Ok True ps" by (rule peek_this [OF l]) (simp_all add: ws_iff)
  obtain q eq ps1 where g: "gettoken b es ps = Ok (40, q, eq) ps1" "left b es ps1 (dropWhile ws (show_cmd 3 v @ 41 # ?r))"
    using token_symbol [OF l] by auto
  have "tidy (show_cmd 3 v @ 41 # ?r)" using assms(2) by (cases "show_cmd 3 v") auto
  then have l1: "left b es ps1 (show_cmd 3 v @ 41 # ?r)" using g(2) tidy_drop by simp
  have e: "ends_in {41} (41 # ?r)" by (simp add: ends_in_def ws_iff)
  obtain c ps2 where c: "parseline m b es ps1 = Ok c ps2" "left b es ps2 (41 # ?r)" "means (span b) c v"
    using assms(1) l1 e m(2) unfolding reads_line_def by fastforce
  have pk2: "peek b es [41] ps2 = Ok True ps2" by (rule peek_this [OF c(2)]) (simp_all add: ws_iff)
  obtain q' eq' ps3 where g2: "gettoken b es ps2 = Ok (41, q', eq') ps3" "left b es ps3 (dropWhile ws ?r)"
    using token_symbol [OF c(2)] by auto
  have l3: "left b es ps3 ?r" using g2(2) tidy_drop [OF redirs_tidy [OF x(1)]] by simp
  have "length rs \<le> length (redirs_text rs)" by (induction rs) auto
  then have "length rs < m" using m(2) by simp
  then obtain d ps' where d: "parseredirs m c b es ps3 = Ok d ps'" "left b es ps' xs" "\<forall>v. means (span b) c v \<longrightarrow> means (span b) d (wrap v rs)"
    using parse_redirs [OF l3 assms(3) x(1,2), of m c] by blast
  have "parseblock (Suc m) b es ps = Ok d ps'" using pk g(1) c(1) pk2 g2(1) d(1) by (simp add: kbind_def kthen_def)
  then have "parseexec n b es ps = Ok d ps'" using m(1) pk by (simp add: kbind_def)
  then show ?thesis using d(2,3) c(3) by blast
qed

lemma show_tidy: "valid v \<Longrightarrow> tidy xs \<Longrightarrow> tidy (show_cmd k v @ xs)"
proof (induction v arbitrary: k xs)
  case (VREDIR v w r)
  have "tidy (redir_text (w, r) @ xs)" by (cases r) (simp_all add: redir_text_def ws_iff)
  then show ?case using VREDIR.IH [of "redir_text (w, r) @ xs" 0] VREDIR.prems by simp
next
  case (VPIPE v w)
  have "tidy ([124] @ show_cmd 1 w @ ys)" for ys by (simp add: ws_iff)
  then show ?case using VPIPE.IH(1) [of "[124] @ show_cmd 1 w @ xs" 0] VPIPE.prems by (auto simp: paren_def ws_iff)
next
  case (VLIST v w)
  have "tidy ([59] @ show_cmd 3 w @ ys)" for ys by (simp add: ws_iff)
  then show ?case using VLIST.IH(1) [of "[59] @ show_cmd 3 w @ xs" 2] VLIST.prems by (auto simp: paren_def ws_iff)
next
  case (VBACK v)
  have "tidy ([38] @ ys)" for ys by (simp add: ws_iff)
  then show ?case using VBACK.IH [of "[38] @ xs" 2] VBACK.prems by (auto simp: paren_def ws_iff)
qed (simp add: words_tidy)

fun strip :: "vcmd \<Rightarrow> vcmd \<times> (u8 list \<times> rkind) list" where
  "strip (VREDIR v w k) = (fst (strip v), snd (strip v) @ [(w, k)])"
| "strip v = (v, [])"

lemma strip_props:
  assumes "valid v"
  shows "wrap (fst (strip v)) (snd (strip v)) = v" and "show_cmd 0 v = show_cmd 0 (fst (strip v)) @ redirs_text (snd (strip v))"
    and "valid (fst (strip v))" and "redirs_ok (snd (strip v))" and "size (fst (strip v)) \<le> size v" and "\<nexists>u w k. fst (strip v) = VREDIR u w k"
proof -
  have a: "redirs_text (rs @ [r]) = redirs_text rs @ redir_text r" "wrap u (rs @ [r]) = VREDIR (wrap u rs) (fst r) (snd r)"
    "redirs_ok (rs @ [r]) \<longleftrightarrow> redirs_ok rs \<and> word_ok (fst r)" for rs r u
    by (auto simp: redirs_text_def wrap_def redirs_ok_def split: prod.split)
  have "wrap (fst (strip v)) (snd (strip v)) = v \<and> show_cmd 0 v = show_cmd 0 (fst (strip v)) @ redirs_text (snd (strip v)) \<and>
    valid (fst (strip v)) \<and> redirs_ok (snd (strip v)) \<and> size (fst (strip v)) \<le> size v \<and> (\<nexists>u w k. fst (strip v) = VREDIR u w k)"
    using assms by (induction v) (auto simp: a)
  then show "wrap (fst (strip v)) (snd (strip v)) = v" "show_cmd 0 v = show_cmd 0 (fst (strip v)) @ redirs_text (snd (strip v))"
    "valid (fst (strip v))" "redirs_ok (snd (strip v))" "size (fst (strip v)) \<le> size v" "\<nexists>u w k. fst (strip v) = VREDIR u w k" by blast+
qed

lemma texts_length: "2 * length vs \<le> length (words_text vs) \<or> \<not> (\<forall>w\<in>set vs. word_ok w)" "length rs \<le> length (redirs_text rs)"
proof -
  show "2 * length vs \<le> length (words_text vs) \<or> \<not> (\<forall>w\<in>set vs. word_ok w)"
    by (induction vs) (auto dest!: word_ok_hd)
  show "length rs \<le> length (redirs_text rs)" by (induction rs) auto
qed

text \<open>An \<^verbatim>\<open>exec\<close> is a list of words or a block.\<close>

lemma reads_exec_strip:
  assumes "valid v" and "(\<forall>vs. fst (strip v) \<noteq> VEXEC vs) \<Longrightarrow> reads_line b es (fst (strip v))"
  shows "reads_exec b es v"
  unfolding reads_exec_def
proof (intro allI impI)
  fix ps n xs
  let ?v = "fst (strip v)" and ?rs = "snd (strip v)"
  note s = strip_props [OF assms(1)]
  assume "left b es ps (show_cmd 0 v @ xs)" and x: "ends_exec xs" and "4 * length (show_cmd 0 v @ xs) + 3 \<le> n"
  then have l: "left b es ps (show_cmd 0 ?v @ redirs_text ?rs @ xs)" and n: "4 * length (show_cmd 0 ?v @ redirs_text ?rs @ xs) + 3 \<le> n"
    unfolding s(2) by simp_all
  have "\<exists>c ps'. parseexec n b es ps = Ok c ps' \<and> left b es ps' xs \<and> means (span b) c (wrap ?v ?rs)"
  proof (cases "\<exists>vs. ?v = VEXEC vs")
    case True
    then obtain vs where v: "?v = VEXEC vs" by blast
    have "length vs + length ?rs + 2 < n" using texts_length(1) [of vs] texts_length(2) [of ?rs] n s(3) v by simp
    then show ?thesis using parse_exec [of b es ps vs ?rs xs n] l s(3,4) x v by simp
  next
    case False
    then have r: "reads_line b es ?v" using assms(2) by blast
    have t: "tidy (show_cmd 3 ?v @ [41])" by (rule show_tidy [OF s(3)]) (simp add: ws_iff)
    have "show_cmd 0 ?v = [40] @ show_cmd 3 ?v @ [41]" using False s(6) by (cases ?v) (auto simp: paren_def)
    then show ?thesis using parse_block [OF r t s(4) x, of ps n] l n by simp
  qed
  then show "\<exists>c ps'. parseexec n b es ps = Ok c ps' \<and> left b es ps' xs \<and> means (span b) c v" by (simp add: s(1))
qed

lemma reads_VPIPE:
  assumes "reads_exec b es v" and "reads_pipe b es w" and "valid w"
  shows "reads_pipe b es (VPIPE v w)"
  unfolding reads_pipe_def
proof (intro allI impI)
  fix ps n xs
  assume l: "left b es ps (show_cmd 1 (VPIPE v w) @ xs)" and x: "ends_in {41, 38, 59} xs" and n: "4 * length (show_cmd 1 (VPIPE v w) @ xs) + 4 \<le> n"
  let ?t = "124 # show_cmd 1 w @ xs"
  have l: "left b es ps (show_cmd 0 v @ ?t)" using l by (simp add: paren_def)
  obtain m where m: "n = Suc m" "4 * length (show_cmd 0 v @ ?t) + 3 \<le> m" using n by (cases n) (auto simp: paren_def)
  have e: "ends_exec ?t" by (simp add: ends_exec_def ws_iff)
  obtain c ps1 where c: "parseexec m b es ps = Ok c ps1" "left b es ps1 ?t" "means (span b) c v"
    using assms(1) l e m(2) unfolding reads_exec_def by blast
  have pk: "peek b es [124] ps1 = Ok True ps1" by (rule peek_this [OF c(2)]) (simp_all add: ws_iff)
  obtain q eq ps2 where g: "gettoken b es ps1 = Ok (124, q, eq) ps2" "left b es ps2 (dropWhile ws (show_cmd 1 w @ xs))"
    using token_symbol [OF c(2)] by auto
  have "tidy (show_cmd 1 w @ xs)" using show_tidy [OF assms(3)] x by (simp add: ends_in_def)
  then have l2: "left b es ps2 (show_cmd 1 w @ xs)" using g(2) tidy_drop by simp
  have m2: "4 * length (show_cmd 1 w @ xs) + 4 \<le> m" using m(2) by simp
  obtain d ps' where "parsepipe m b es ps2 = Ok d ps'" "left b es ps' xs" "means (span b) d w"
    using assms(2) l2 x m2 unfolding reads_pipe_def by blast
  then show "\<exists>c ps'. parsepipe n b es ps = Ok c ps' \<and> left b es ps' xs \<and> means (span b) c (VPIPE v w)"
    using m(1) c pk g(1) by (simp add: kbind_def kthen_def)
qed

lemma reads_VBACK:
  assumes "reads_back b es v"
  shows "reads_back b es (VBACK v)"
  unfolding reads_back_def
proof (intro allI impI)
  fix ps n xs
  assume l: "left b es ps (show_cmd 2 (VBACK v) @ xs)" and x: "ends_in {41, 38, 59} xs" and n: "4 * length (show_cmd 2 (VBACK v) @ xs) + 4 \<le> n"
  let ?t = "38 # xs"
  have l: "left b es ps (show_cmd 2 v @ ?t)" and n: "4 * length (show_cmd 2 v @ ?t) + 4 \<le> n" using l n by (simp_all add: paren_def)
  have e: "ends_in {41, 38, 59} ?t" by (simp add: ends_in_def ws_iff)
  obtain c0 ps0 c ps1 j where r: "parsepipe n b es ps = Ok c0 ps0" "\<forall>m. parsebacks (m + j) c0 b es ps0 = parsebacks m c b es ps1"
    "j \<le> length (show_cmd 2 v)" "left b es ps1 ?t" "means (span b) c v"
    using assms l e n unfolding reads_back_def by blast
  have pk: "peek b es [38] ps1 = Ok True ps1" by (rule peek_this [OF r(4)]) (simp_all add: ws_iff)
  obtain q eq ps2 where g: "gettoken b es ps1 = Ok (38, q, eq) ps2" "left b es ps2 (dropWhile ws xs)" using token_symbol [OF r(4)] by auto
  have "left b es ps2 xs" using g(2) tidy_drop x by (simp add: ends_in_def)
  moreover have "parsebacks (m + Suc j) c0 b es ps0 = parsebacks m (BACK c) b es ps2" for m
  proof -
    have "parsebacks (m + Suc j) c0 b es ps0 = parsebacks (Suc m) c b es ps1" using r(2) by (metis add_Suc add_Suc_right)
    then show ?thesis using pk g(1) by (simp add: kbind_def kthen_def)
  qed
  ultimately show "\<exists>c0 ps0 c ps' j. parsepipe n b es ps = Ok c0 ps0 \<and> (\<forall>m. parsebacks (m + j) c0 b es ps0 = parsebacks m c b es ps') \<and>
      j \<le> length (show_cmd 2 (VBACK v)) \<and> left b es ps' xs \<and> means (span b) c (VBACK v)"
    using r(1,3,5) by (intro exI [of _ c0] exI [of _ ps0] exI [of _ "BACK c"] exI [of _ ps2] exI [of _ "Suc j"]) (simp add: paren_def)
qed

lemma reads_VLIST:
  assumes "reads_back b es v" and "reads_line b es w" and "valid w"
  shows "reads_line b es (VLIST v w)"
  unfolding reads_line_def
proof (intro allI impI)
  fix ps n xs
  assume l: "left b es ps (show_cmd 3 (VLIST v w) @ xs)" and x: "ends_in {41} xs" and n: "4 * length (show_cmd 3 (VLIST v w) @ xs) + 5 \<le> n"
  let ?t = "59 # show_cmd 3 w @ xs"
  have l: "left b es ps (show_cmd 2 v @ ?t)" using l by (simp add: paren_def)
  obtain m where m: "n = Suc m" "4 * length (show_cmd 2 v @ ?t) + 4 \<le> m" using n by (cases n) (auto simp: paren_def)
  have e: "ends_in {41, 59} ?t" by (simp add: ends_in_def ws_iff)
  obtain c0 ps0 c ps1 where c: "parsepipe m b es ps = Ok c0 ps0" "parsebacks m c0 b es ps0 = Ok c ps1" "left b es ps1 ?t" "means (span b) c v"
    by (rule backs_all [OF assms(1) l e m(2)])
  have pk: "peek b es [59] ps1 = Ok True ps1" by (rule peek_this [OF c(3)]) (simp_all add: ws_iff)
  obtain q eq ps2 where g: "gettoken b es ps1 = Ok (59, q, eq) ps2" "left b es ps2 (dropWhile ws (show_cmd 3 w @ xs))"
    using token_symbol [OF c(3)] by auto
  have "tidy (show_cmd 3 w @ xs)" using show_tidy [OF assms(3)] x by (simp add: ends_in_def)
  then have l2: "left b es ps2 (show_cmd 3 w @ xs)" using g(2) tidy_drop by simp
  have m2: "4 * length (show_cmd 3 w @ xs) + 5 \<le> m" using m(2) by simp
  obtain d ps' where "parseline m b es ps2 = Ok d ps'" "left b es ps' xs" "means (span b) d w"
    using assms(2) l2 x m2 unfolding reads_line_def by blast
  then show "\<exists>c ps'. parseline n b es ps = Ok c ps' \<and> left b es ps' xs \<and> means (span b) c (VLIST v w)"
    using m(1) c pk g(1) by (simp add: kbind_def kthen_def)
qed

lemma reads_all: "valid v \<Longrightarrow> reads_exec b es v \<and> reads_pipe b es v \<and> reads_back b es v \<and> reads_line b es v"
proof (induction "size v" arbitrary: v rule: less_induct)
  case less
  note ih = less.hyps
  show ?case
  proof (cases v)
    case (VEXEC vs)
    have "reads_exec b es v" by (rule reads_exec_strip [OF less.prems]) (simp add: VEXEC)
    moreover from lift_pipe [OF this] have "reads_pipe b es v" using VEXEC by simp
    moreover from lift_back [OF this] have "reads_back b es v" using VEXEC by simp
    ultimately show ?thesis using lift_line [of b es v] VEXEC by simp
  next
    case (VREDIR u w k)
    have s: "size (fst (strip v)) < size v" using strip_props(5) [of u] less.prems VREDIR by simp
    have "reads_exec b es v"
      by (rule reads_exec_strip [OF less.prems]) (use ih [OF s] strip_props(3) [OF less.prems] in blast)
    moreover from lift_pipe [OF this] have "reads_pipe b es v" using VREDIR by simp
    moreover from lift_back [OF this] have "reads_back b es v" using VREDIR by simp
    ultimately show ?thesis using lift_line [of b es v] VREDIR by simp
  next
    case (VPIPE u w)
    then have p: "reads_pipe b es v" using reads_VPIPE [of b es u w] ih [of u] ih [of w] less.prems by simp
    moreover from lift_back [OF p] have k: "reads_back b es v" using VPIPE by (simp add: paren_def)
    moreover from lift_line [OF k] have n: "reads_line b es v" using VPIPE by (simp add: paren_def)
    moreover have "reads_exec b es v" by (rule reads_exec_strip [OF less.prems]) (use n VPIPE in simp)
    ultimately show ?thesis by blast
  next
    case (VLIST u w)
    then have n: "reads_line b es v" using reads_VLIST [of b es u w] ih [of u] ih [of w] less.prems by simp
    moreover have e: "reads_exec b es v" by (rule reads_exec_strip [OF less.prems]) (use n VLIST in simp)
    moreover from lift_pipe [OF e] have p: "reads_pipe b es v" using VLIST by (simp add: paren_def)
    moreover from lift_back [OF p] have "reads_back b es v" using VLIST by (simp add: paren_def)
    ultimately show ?thesis by blast
  next
    case (VBACK u)
    then have k: "reads_back b es v" using reads_VBACK [of b es u] ih [of u] less.prems by simp
    moreover from lift_line [OF k] have n: "reads_line b es v" using VBACK by (simp add: paren_def)
    moreover have e: "reads_exec b es v" by (rule reads_exec_strip [OF less.prems]) (use n VBACK in simp)
    moreover from lift_pipe [OF e] have "reads_pipe b es v" using VBACK by (simp add: paren_def)
    ultimately show ?thesis by blast
  qed
qed

lemma means_cong: "\<forall>w\<in>set (cmd_words c). g w = h w \<Longrightarrow> means g c v \<longleftrightarrow> means h c v"
  by (induction g c v rule: means.induct) (auto cong: map_cong)

lemma show_no_nul: "valid v \<Longrightarrow> 0 \<notin> set (show_cmd k v)"
proof (induction v arbitrary: k)
  case (VEXEC vs)
  then show ?case by (auto simp: words_text_def word_ok_def wordch_def)
next
  case (VREDIR v w r)
  then show ?case by (cases r) (auto simp: redir_text_def word_ok_def wordch_def)
qed (auto simp: paren_def)

lemma u_strlen_no_nul: "0 \<notin> set s \<Longrightarrow> u_strlen s = length s"
  by (induction s) auto

text \<open>
  C12. Printing and parsing a command gives it back: for every command tree whose words are made of characters
  that are neither blank nor special, with at most nine words to a command, the parser
  accepts the text with the usual precedences of \<^verbatim>\<open>;\<close>, \<^verbatim>\<open>&\<close>, \<^verbatim>\<open>|\<close> and redirections (and
  parentheses where they are needed), uses all of it, and returns a tree of the same shape whose C
  strings are the words, with the open modes and file descriptors of its redirections.
\<close>

theorem parse_show_roundtrip:
  assumes "valid v"
  shows "\<exists>c b ps. parsecmd (show_cmd 3 v) 0 = Ok (c, b) ps \<and> means (\<lambda>w. cstring_at b (fst w)) c v"
proof -
  let ?s = "show_cmd 3 v"
  let ?b = "?s @ [0]" and ?es = "length ?s"
  have es: "u_strlen ?s = ?es" by (rule u_strlen_no_nul [OF show_no_nul [OF assms]])
  have l: "left ?b ?es 0 (?s @ [])" by (simp add: left_def)
  have f: "ends_in {41} []" "4 * length (?s @ []) + 5 \<le> parse_fuel ?es" by (simp_all add: ends_in_def parse_fuel_def)
  have "reads_line ?b ?es v" using reads_all [OF assms] by blast
  then obtain c ps where c: "parseline (parse_fuel ?es) ?b ?es 0 = Ok c ps" "left ?b ?es ps []" "means (span ?b) c v"
    using l f unfolding reads_line_def by blast
  have ps: "ps = ?es" using left_Nil [OF c(2)] by simp
  have sk: "skip ws ?b ?es ?es = ?es" by (subst skip.simps) simp
  have line: "line_ok ?b ?es" using line_ok_string [of ?s] es by simp
  have "fine ?b ?es ?es (parseline (parse_fuel ?es) ?b ?es) (cmd_ok ?b ?es)" by (rule fine_parser(1) [OF line]) (simp add: parse_fuel_def)
  from fineD [OF this, of 0] have "cmd_ok ?b ?es c" using c(1) by simp
  then have words: "\<forall>w\<in>set (cmd_words c). word_at ?b ?es w" using cmd_ok_words by blast
  have eq: "\<forall>w\<in>set (cmd_words c). span ?b w = cstring_at (nulterminate c ?b) (fst w)"
    using word_cut [OF _ words] by (auto simp: span_def)
  have "means (\<lambda>w. cstring_at (nulterminate c ?b) (fst w)) c v" using c(3) means_cong [OF eq, of v] by simp
  moreover have "parsecmd ?s 0 = Ok (c, nulterminate c ?b) ?es"
    using c(1) ps sk es by (simp add: parsecmd_def Let_def kbind_def kthen_def kget_def peek_run)
  ultimately show ?thesis by blast
qed

definition demo_cmd :: vcmd where
  "demo_cmd = VLIST (VPIPE (VEXEC [str_bytes ''ls'', str_bytes ''-l'']) (VREDIR (VEXEC [str_bytes ''wc'']) (str_bytes ''out'') ROut))
     (VBACK (VREDIR (VPIPE (VEXEC [str_bytes ''a'']) (VEXEC [str_bytes ''b''])) (str_bytes ''f'') RIn))"

theorem parse_show_roundtrip_witness:
  "\<exists>c b ps. parsecmd (str_bytes ''ls -l |wc >out ;(a |b )<f &'') 0 = Ok (c, b) ps \<and> means (\<lambda>w. cstring_at b (fst w)) c demo_cmd"
proof -
  have "valid demo_cmd" "show_cmd 3 demo_cmd = str_bytes ''ls -l |wc >out ;(a |b )<f &''" by code_simp+
  then show ?thesis using parse_show_roundtrip [of demo_cmd] by simp
qed

section \<open>runcmd never returns\<close>

definition never_returns :: "'a uop \<Rightarrow> bool" where
  "never_returns m \<longleftrightarrow> (\<forall>s a t. m s \<noteq> Ret a t)"

lemma never_exit: "never_returns (uexit n)"
  by (simp add: never_returns_def uexit_def)

lemma never_bind: "(\<And>a. never_returns (f a)) \<Longrightarrow> never_returns (ubind m f)"
  unfolding never_returns_def ubind_def by (auto split: uout.splits)

lemma never_then: "never_returns n \<Longrightarrow> never_returns (uthen m n)"
  unfolding uthen_def by (rule never_bind)

lemma runcmd_never_returns: "never_returns (runcmd c b)"
proof (induction c)
  case (EXEC as)
  then show ?case by (auto intro!: never_then never_exit split: list.split)
qed (auto simp: sh_panic_def intro!: never_then never_bind never_exit split: prod.split)

end
