(* ===== verification/Spec2Isabelle.thy ===== *)
theory Spec2Isabelle
  imports Trap Fs_Alloc Mkfs_Image Pipe_Fifo Console_Buf Console_Print Proc_Sched Spinlock Ulib Grep Uprogs Primes Shell
begin

text \<open>
  A verification of the xv6 teaching operating system for RISC-V in this repository.

  \<^bold>\<open>The program.\<close>  A kernel in C (\<^verbatim>\<open>src/kernel\<close>), user programs
  (\<^verbatim>\<open>src/user\<close>) and a tool that makes the disk image (\<^verbatim>\<open>src/mkfs\<close>).  The kernel is
  a stack of layers: memory and page tables; the buffer cache over the disk driver; the redo log;
  inodes, directories and paths; the console; open files and pipes; processes; system calls; traps.

  \<^bold>\<open>How it is modelled.\<close>  Every C function is a function of the same name in the state monad
  of \<open>Xv6_Prelude\<close>, whose outcomes are: return with a value, panic, give up the CPU inside
  \<^verbatim>\<open>sleep\<close>, or never return.  Each layer adds its variables to a chain of records:
  \<open>kcore\<close> (processes, locks), \<open>kmem\<close> (memory, free list), \<open>kbio\<close> (buffers, disk), \<open>klog\<close>, \<open>kfs\<close>, \<open>kcons\<close>,
  \<open>kfile\<close>, \<open>kproc\<close>, \<open>kvio\<close>, \<open>ktrap\<close>; operations are polymorphic in the extension, so that higher layers call
  lower ones directly.  Machine integers are words of their C width where wrap-around can matter and
  integers elsewhere.  Memory is a function from 64-bit addresses to bytes: page tables, user
  pages and the free list live in it as they do on the machine.  Objects of the kernel's tables are
  named by their index.  What a thread does after it slept is a definition of its own
  (\<^verbatim>\<open>..._resume\<close>).  A loop whose end is not evident takes a bound on its turns and
  ends in \<open>Hang\<close> when that is used up; the bounds are computed from the state at the call
  (bytes to copy, pages in the range, registers to read), and the theorems that an operation
  returns show that they are enough.  The bounds of the user programs are: in the shell four calls for
  each byte of the line and six more (\<open>parse_fuel\<close>), in \<^verbatim>\<open>find\<close> two for each answered read and
  two more, both proved enough; \<^verbatim>\<open>init\<close> and the main loops of the shell and the scheduler, which do not
  end, take the number of rounds to run.

  \<^bold>\<open>User programs.\<close>  A user program is a function of what the kernel answers to its calls: the pieces
  that successive reads return and the results of the other calls are inputs, the calls it makes are
  recorded (\<open>Ulib\<close>).  A program that forks is followed in the parent and in the child by the answer to
  \<^verbatim>\<open>fork\<close>.

  \<^bold>\<open>Hardware.\<close>  The values that device registers return when read are inputs of the model, in the
  order of the reads, and the writes are recorded; nothing is assumed of them.  The disk of the
  lower layers is an array of blocks that the driver reads and writes whole.

  \<^bold>\<open>Theories.\<close>
  \<^item> \<open>Xv6_Prelude\<close>: words, outcomes, the monad, triples and invariants, little-endian access.
  \<^item> \<open>Kparam\<close>: constants and macros of \<^verbatim>\<open>param.h\<close>, \<^verbatim>\<open>riscv.h\<close>, \<^verbatim>\<open>memlayout.h\<close>.
  \<^item> \<open>Kstring\<close>: \<^verbatim>\<open>string.c\<close> and \<^verbatim>\<open>memmove\<close> of \<^verbatim>\<open>ulib.c\<close>; both
    \<^verbatim>\<open>memmove\<close>s are the same function; \<^verbatim>\<open>safestrcpy\<close> stays in bounds.
  \<^item> \<open>Kcore\<close>: locks as one CPU sees them, \<^verbatim>\<open>sleep\<close>, \<^verbatim>\<open>wakeup\<close>, sleep-locks.
  \<^item> \<open>Kalloc\<close>: \<^verbatim>\<open>kalloc.c\<close>, a refinement of a stack of pages.
  \<^item> \<open>Bio\<close>: \<^verbatim>\<open>bio.c\<close>, a refinement of an array of blocks; least-recently-used recycling.
  \<^item> \<open>Log\<close>: \<^verbatim>\<open>log.c\<close>; atomicity of commit under a crash at any disk write, recovery, the
    reservation of log space.
  \<^item> \<open>Vm\<close>, \<open>Vm_Tables\<close>, \<open>Vm_User\<close>: \<^verbatim>\<open>vm.c\<close>; page tables as functions from virtual pages to
    entries, user memory, and what mapping and copying do to them.
  \<^item> \<open>Fs\<close>: \<^verbatim>\<open>fs.c\<close>.
  \<^item> \<open>Fs_Tx\<close>, \<open>Fs_Alloc\<close>: the file system as a client of the log: reading and changing a block in a transaction as an
    interface with laws, and the free map.
  \<^item> \<open>Fs_Content\<close>: what the blocks of a disk mean, inodes and the contents of files, for the kernel and for \<^verbatim>\<open>mkfs\<close>.
  \<^item> \<open>Mkfs\<close>, \<open>Mkfs_Image\<close>: \<^verbatim>\<open>mkfs.c\<close> and the image it makes.
  \<^item> \<open>Console\<close>, \<open>Console_Buf\<close>, \<open>Console_Print\<close>: \<^verbatim>\<open>uart.c\<close>, \<^verbatim>\<open>console.c\<close>,
    \<^verbatim>\<open>printf.c\<close>; order of output, line discipline, printed numerals.
  \<^item> \<open>File\<close>, \<open>Pipe_Fifo\<close>: \<^verbatim>\<open>file.c\<close> and \<^verbatim>\<open>pipe.c\<close>; pipes are bounded queues.
  \<^item> \<open>Ring\<close>: ring buffers with free-running counters, shared by pipes, UART and console.
  \<^item> \<open>Proc\<close>, \<open>Exec\<close>, \<open>Syscall\<close>, \<open>Virtio\<close>, \<open>Trap\<close>: \<^verbatim>\<open>proc.c\<close>, \<^verbatim>\<open>exec.c\<close>,
    \<^verbatim>\<open>syscall.c\<close> with \<^verbatim>\<open>sysproc.c\<close> and \<^verbatim>\<open>sysfile.c\<close>,
    \<^verbatim>\<open>virtio_disk.c\<close>, and \<^verbatim>\<open>trap.c\<close> with \<^verbatim>\<open>plic.c\<close>, \<^verbatim>\<open>start.c\<close>
    and \<^verbatim>\<open>main.c\<close>.
  \<^item> \<open>Proc_Sched\<close>: properties of \<^verbatim>\<open>proc.c\<close>: a round of the scheduler runs everything that is
    runnable, wakeups reach sleepers, \<^verbatim>\<open>kill\<close> and \<^verbatim>\<open>reparent\<close>.
  \<^item> \<open>Spinlock\<close>: \<^verbatim>\<open>spinlock.c\<close> with all CPUs, as interleaved atomic steps: mutual exclusion,
    and the refinement by it of the locks of \<open>Kcore\<close>.
  \<^item> \<open>Ulib\<close>: \<^verbatim>\<open>ulib.c\<close>, the user \<^verbatim>\<open>printf.c\<close>, and the interface to the kernel.
  \<^item> \<open>Grep\<close>, \<open>Uprogs\<close>, \<open>Primes\<close>: the user programs; the language of \<^verbatim>\<open>grep\<close>'s patterns and the
    lines it prints, the counts of \<^verbatim>\<open>wc\<close>, the end of \<^verbatim>\<open>find\<close>, the sieve.
  \<^item> \<open>Shell\<close>: \<^verbatim>\<open>sh.c\<close>; parsing undoes printing, and no line leads the parser astray.
  \<^item> \<open>Demo\<close>: a concrete state of every layer, for examples.

  \<^bold>\<open>Not modelled.\<close>  Assembly (\<^verbatim>\<open>entry.S\<close>, \<^verbatim>\<open>swtch.S\<close>, \<^verbatim>\<open>trampoline.S\<close>,
  \<^verbatim>\<open>kernelvec.S\<close>): the model has no instruction semantics.  \<^verbatim>\<open>ramdisk.c\<close> is not part of
  the build and does not compile.  \<^verbatim>\<open>umalloc.c\<close> is not
  modelled: what the programs allocate is a value in the model, and allocation succeeds.  Test programs have no behaviour of their own to verify.
\<close>

end
